(* ===== verification/Prelude.thy ===== *)
theory Prelude
  imports Main "HOL-Library.Sublist"
begin

text \<open>
  Shared vocabulary of the development: byte strings and the operations of Go's package
  \<open>strings\<close> the program uses, Go error values, cancellable contexts, and the generic
  machinery for state machines (runs over event lists, reachability, invariants).
  Nothing here models code of the repository; it is the part of the Go language and of its
  standard library that several components share.
\<close>

section \<open>Collections of facts\<close>

text \<open>\<open>str_simps\<close>: splitting and joining strings; \<open>err_simps\<close>: error values and contexts.\<close>

named_theorems str_simps
named_theorems err_simps

section \<open>Byte strings\<close>

text \<open>Go's \<open>string\<close> and \<open>[]byte\<close> are both sequences of bytes, here lists of 8-bit characters.\<close>

type_synonym bytes = string

abbreviation newline :: char where
  "newline \<equiv> CHR 0x0A"

abbreviation slash :: char where
  "slash \<equiv> CHR ''/''"

text \<open>\<open>split_on c s\<close> cuts \<open>s\<close> at every \<open>c\<close>; \<open>join_with sep xs\<close> is \<open>strings.Join\<close>.\<close>

fun split_on :: "char \<Rightarrow> string \<Rightarrow> string list" where
  "split_on c [] = [[]]"
| "split_on c (x # xs) =
     (if x = c then [] # split_on c xs
      else (case split_on c xs of [] \<Rightarrow> [[x]] | y # ys \<Rightarrow> (x # y) # ys))"

fun join_with :: "string \<Rightarrow> string list \<Rightarrow> string" where
  "join_with sep [] = []"
| "join_with sep [x] = x"
| "join_with sep (x # y # ys) = x @ sep @ join_with sep (y # ys)"

lemma split_on_nonempty [simp]: "split_on c s \<noteq> []"
  by (cases s) (auto split: list.splits)

lemma join_with_Cons [str_simps]:
  "xs \<noteq> [] \<Longrightarrow> join_with sep (x # xs) = x @ sep @ join_with sep xs"
  by (cases xs) auto

lemma join_split_on [simp]: "join_with [c] (split_on c s) = s"
proof (induction s)
  case (Cons x xs)
  then show ?case
    by (cases "split_on c xs"; cases "tl (split_on c xs)") (auto simp: join_with_Cons)
qed simp

lemma split_on_no_sep [simp]: "s \<in> set (split_on c t) \<Longrightarrow> c \<notin> set s"
proof (induction t arbitrary: s)
  case (Cons x xs)
  then show ?case by (cases "split_on c xs") (auto split: if_splits)
qed simp

lemma split_on_id [str_simps]: "c \<notin> set s \<Longrightarrow> split_on c s = [s]"
  by (induction s) auto

lemma split_on_append [str_simps]:
  "c \<notin> set s \<Longrightarrow> split_on c (s @ c # t) = s # split_on c t"
  by (induction s) auto

lemma split_on_join [str_simps]:
  "xs \<noteq> [] \<Longrightarrow> list_all (\<lambda>s. c \<notin> set s) xs \<Longrightarrow> split_on c (join_with [c] xs) = xs"
proof (induction xs rule: induct_list012)
  case (3 x y zs)
  then show ?case by (simp add: split_on_append)
qed (auto simp: split_on_id)

lemma split_on_snoc [str_simps]: "split_on c (s @ [c]) = split_on c s @ [[]]"
  by (induction s) (auto split: list.splits)

lemma split_on_append2: "split_on c (s @ t) =
    butlast (split_on c s) @ split_on c (last (split_on c s) @ t)"
proof (induction s)
  case (Cons x xs)
  show ?case
  proof (cases "x = c")
    case True
    with Cons show ?thesis by simp
  next
    case False
    obtain y ys where ys: "split_on c xs = y # ys" by (cases "split_on c xs") auto
    show ?thesis
      using Cons False ys by (cases ys) (auto split: list.splits)
  qed
qed simp

lemma join_with_snoc [str_simps]:
  "xs \<noteq> [] \<Longrightarrow> join_with sep (xs @ [x]) = join_with sep xs @ sep @ x"
  by (induction xs rule: induct_list012) auto

section \<open>Error values\<close>

text \<open>
  A Go \<open>error\<close>. \<open>Sentinel name text\<close> is a package-level \<open>errors.New(text)\<close> bound to the
  variable \<open>name\<close>: such values are compared by identity, so the variable's name is part
  of the value. \<open>Errorf pre e post\<close> is \<open>fmt.Errorf\<close> with one \<open>%w\<close> verb between two
  pieces of text, \<open>Joined es\<close> is a non-nil \<open>errors.Join\<close>, \<open>Foreign text\<close> is any other
  error (one that user code or a third-party package made).
\<close>

datatype go_error =
    Sentinel string string
  | Errorf string go_error string
  | Joined "go_error list"
  | Foreign string

fun error_text :: "go_error \<Rightarrow> string" where
  "error_text (Sentinel name txt) = txt"
| "error_text (Errorf pre e post) = pre @ error_text e @ post"
| "error_text (Joined es) = join_with [newline] (map error_text es)"
| "error_text (Foreign txt) = txt"

text \<open>\<open>errors.Is(e, target)\<close> walks the chain of wrapped errors.\<close>

fun errors_Is :: "go_error \<Rightarrow> go_error \<Rightarrow> bool" where
  "errors_Is (Errorf pre e post) t = (Errorf pre e post = t \<or> errors_Is e t)"
| "errors_Is (Joined es) t = (Joined es = t \<or> list_ex (\<lambda>e. errors_Is e t) es)"
| "errors_Is e t = (e = t)"

lemma errors_Is_refl [simp]: "errors_Is e e"
  by (cases e) auto

lemma errors_Is_wrapped [err_simps]: "errors_Is e t \<Longrightarrow> errors_Is (Errorf pre e post) t"
  by simp

text \<open>\<open>errors.Join\<close>: nil arguments are dropped, and only nils give nil.\<close>

definition errors_Join :: "go_error option list \<Rightarrow> go_error option" where
  "errors_Join es = (case List.map_filter id es of [] \<Rightarrow> None | xs \<Rightarrow> Some (Joined xs))"

lemma errors_Join_None [err_simps]: "errors_Join [None, None] = None"
  by (simp add: errors_Join_def List.map_filter_def)

text \<open>Errors of the standard library.\<close>

definition io_EOF :: go_error where
  "io_EOF = Sentinel ''io.EOF'' ''EOF''"

definition io_ErrClosedPipe :: go_error where
  "io_ErrClosedPipe = Sentinel ''io.ErrClosedPipe'' ''io: read/write on closed pipe''"

definition context_Canceled :: go_error where
  "context_Canceled = Sentinel ''context.Canceled'' ''context canceled''"

lemma io_errors_distinct [err_simps]:
  "io_EOF \<noteq> io_ErrClosedPipe" "io_ErrClosedPipe \<noteq> io_EOF"
  "context_Canceled \<noteq> io_EOF" "context_Canceled \<noteq> io_ErrClosedPipe"
  by (simp_all add: io_EOF_def io_ErrClosedPipe_def context_Canceled_def)

section \<open>Cancellable contexts\<close>

text \<open>
  The part of \<open>context.WithCancelCause\<close> the program observes: a context is live (\<open>None\<close>)
  or cancelled with a cause. The first cancellation sets the cause for good, and the
  cancellation of a parent reaches the child with the parent's cause.
\<close>

type_synonym ctx = "go_error option"

definition cancel_with :: "go_error \<Rightarrow> ctx \<Rightarrow> ctx" where
  "cancel_with e c = (case c of None \<Rightarrow> Some e | Some e' \<Rightarrow> Some e')"

lemma cancel_with_simps [simp]:
  "cancel_with e None = Some e" "cancel_with e (Some e') = Some e'"
  by (simp_all add: cancel_with_def)

lemma cancel_with_not_None [simp]: "cancel_with e c \<noteq> None"
  by (cases c) auto

lemma cancel_with_keeps [err_simps]: "c = Some e' \<Longrightarrow> cancel_with e c = Some e'"
  by simp

text \<open>
  The interface of everything that can be cancelled with a cause (a bare context, a session, a
  websocket connection): the first cancellation decides.
\<close>

locale cancellable =
  fixes cause :: "'s \<Rightarrow> ctx" and cancel :: "go_error \<Rightarrow> 's \<Rightarrow> 's"
  assumes cause_cancel: "cause (cancel e s) = cancel_with e (cause s)"
begin

lemma cause_kept: "cause s = Some e' \<Longrightarrow> cause (fold cancel es s) = Some e'"
  by (induction es arbitrary: s) (auto simp: cause_cancel)

lemma first_cause: "cause s = None \<Longrightarrow> cause (fold cancel (e # es) s) = Some e"
  by (simp add: cause_cancel cause_kept)

end

interpretation ctx_cancel: cancellable id cancel_with
  by unfold_locales simp

section \<open>State machines\<close>

text \<open>
  A component with concurrency is a partial step function over events: \<open>step e s = None\<close>
  means that the event cannot happen in state \<open>s\<close> (its goroutine is not there, or it is
  blocked). \<open>run_events\<close> performs a list of events, \<open>reachable_in\<close> is the set of states
  some list of events leads to.
\<close>

fun run_events :: "('e \<Rightarrow> 's \<Rightarrow> 's option) \<Rightarrow> 'e list \<Rightarrow> 's \<Rightarrow> 's option" where
  "run_events step [] s = Some s"
| "run_events step (e # es) s =
     (case step e s of None \<Rightarrow> None | Some t \<Rightarrow> run_events step es t)"

inductive reachable_in :: "('s \<Rightarrow> bool) \<Rightarrow> ('e \<Rightarrow> 's \<Rightarrow> 's option) \<Rightarrow> 's \<Rightarrow> bool"
  for init :: "'s \<Rightarrow> bool" and step :: "'e \<Rightarrow> 's \<Rightarrow> 's option" where
  reach_start: "init s \<Longrightarrow> reachable_in init step s"
| reach_step: "reachable_in init step s \<Longrightarrow> step e s = Some t \<Longrightarrow> reachable_in init step t"

lemma run_events_append:
  "run_events step (es @ fs) s =
     (case run_events step es s of None \<Rightarrow> None | Some t \<Rightarrow> run_events step fs t)"
  by (induction es arbitrary: s) (auto split: option.splits)

lemma run_events_reachable:
  "reachable_in init step s \<Longrightarrow> run_events step es s = Some t \<Longrightarrow> reachable_in init step t"
proof (induction es arbitrary: s)
  case (Cons e es)
  then show ?case by (auto split: option.splits intro: reach_step)
qed simp

lemma run_from_start_reachable:
  "init s \<Longrightarrow> run_events step es s = Some t \<Longrightarrow> reachable_in init step t"
  by (rule run_events_reachable [OF reach_start])

text \<open>
  The interface of an invariant: what a component has to show about its step function to
  know that a predicate holds in every reachable state.
\<close>

locale invariant_system =
  fixes init :: "'s \<Rightarrow> bool" and step :: "'e \<Rightarrow> 's \<Rightarrow> 's option" and inv :: "'s \<Rightarrow> bool"
  assumes init_inv: "init s \<Longrightarrow> inv s"
    and step_inv: "inv s \<Longrightarrow> step e s = Some t \<Longrightarrow> inv t"
begin

lemma reachable_inv: "reachable_in init step s \<Longrightarrow> inv s"
  by (induction rule: reachable_in.induct) (auto intro: init_inv step_inv)

lemma run_inv: "inv s \<Longrightarrow> run_events step es s = Some t \<Longrightarrow> inv t"
proof (induction es arbitrary: s)
  case (Cons e es)
  then show ?case by (auto split: option.splits intro: step_inv)
qed simp

end

text \<open>
  A relation between the states before and after that every step of the invariant's states
  keeps (a counter that only grows, a flag that stays set) relates the ends of every run.
\<close>

locale monotone_system = invariant_system init step inv
  for init :: "'s \<Rightarrow> bool" and step :: "'e \<Rightarrow> 's \<Rightarrow> 's option" and inv :: "'s \<Rightarrow> bool" +
  fixes rel :: "'s \<Rightarrow> 's \<Rightarrow> bool"
  assumes rel_refl: "rel s s"
    and rel_trans: "rel s t \<Longrightarrow> rel t u \<Longrightarrow> rel s u"
    and step_rel: "inv s \<Longrightarrow> step e s = Some t \<Longrightarrow> rel s t"
begin

lemma run_rel: "inv s \<Longrightarrow> run_events step es s = Some t \<Longrightarrow> rel s t"
proof (induction es arbitrary: s)
  case Nil
  then show ?case by (simp add: rel_refl)
next
  case (Cons e es)
  then obtain u where u: "step e s = Some u" "run_events step es u = Some t"
    by (auto split: option.splits)
  with Cons.prems have "rel s u" "inv u" by (auto intro: step_rel step_inv)
  with Cons.IH u show ?case by (blast intro: rel_trans)
qed

lemma reachable_rel:
  "reachable_in init step s \<Longrightarrow> run_events step es s = Some t \<Longrightarrow> rel s t"
  by (blast intro: run_rel reachable_inv)

end

text \<open>
  A system whose every step is, seen through \<open>abs\<close>, a step of another: what holds of all states
  that one reaches holds of the abstractions of its own.
\<close>

locale refined_system =
  fixes init :: "'s \<Rightarrow> bool" and step :: "'e \<Rightarrow> 's \<Rightarrow> 's option"
    and ainit :: "'t \<Rightarrow> bool" and astep :: "'f \<Rightarrow> 't \<Rightarrow> 't option" and abs :: "'s \<Rightarrow> 't"
  assumes init_abs: "init s \<Longrightarrow> ainit (abs s)"
    and step_abs: "step e s = Some t \<Longrightarrow> \<exists>f. astep f (abs s) = Some (abs t)"
begin

lemma reachable_abs: "reachable_in init step s \<Longrightarrow> reachable_in ainit astep (abs s)"
  by (induction rule: reachable_in.induct) (use init_abs step_abs in \<open>blast intro: reachable_in.intros\<close>)+

lemma run_abs: "run_events step es s = Some t \<Longrightarrow>
    \<exists>fs. length fs = length es \<and> run_events astep fs (abs s) = Some (abs t)"
proof (induction es arbitrary: s)
  case (Cons e es)
  then obtain u where "step e s = Some u" "run_events step es u = Some t" by (auto split: option.splits)
  moreover from this Cons.IH obtain fs where "length fs = length es" "run_events astep fs (abs u) = Some (abs t)" by blast
  moreover obtain f where "astep f (abs s) = Some (abs u)" using step_abs calculation(1) by blast
  ultimately show ?case by (intro exI [of _ "f # fs"]) simp
qed simp

end

end
