(* ===== verification/Json.thy ===== *)
theory Json
  imports Prelude
begin

text \<open>
  The part of Go's \<open>encoding/json\<close> the program uses: encoding a string, reading a whole JSON
  value, and the grammar of scalars. Bytes are kept as bytes: a string is valid UTF-8 only
  where a statement says so, and invalid sequences are replaced as the library replaces them.
\<close>

section \<open>UTF-8\<close>

abbreviation backslash :: char where
  "backslash \<equiv> CHR 0x5C"

abbreviation dquote :: char where
  "dquote \<equiv> CHR 0x22"

abbreviation byte :: "char \<Rightarrow> nat" where
  "byte c \<equiv> of_char c"

definition cont_byte :: "nat \<Rightarrow> bool" where
  "cont_byte b \<longleftrightarrow> 0x80 \<le> b \<and> b \<le> 0xBF"

text \<open>
  \<open>utf8.DecodeRune\<close> on a sequence that starts with a byte of at least \<open>0x80\<close>: the width of
  the rune, or 0 where Go answers \<open>RuneError\<close> with width 1.
\<close>

definition rune2 :: "nat \<Rightarrow> nat \<Rightarrow> bool" where
  "rune2 x y \<longleftrightarrow> 0xC2 \<le> x \<and> x \<le> 0xDF \<and> cont_byte y"

definition rune3 :: "nat \<Rightarrow> nat \<Rightarrow> nat \<Rightarrow> bool" where
  "rune3 x y z \<longleftrightarrow> 0xE0 \<le> x \<and> x \<le> 0xEF \<and> cont_byte y \<and> cont_byte z \<and>
     (x = 0xE0 \<longrightarrow> 0xA0 \<le> y) \<and> (x = 0xED \<longrightarrow> y \<le> 0x9F)"

definition rune4 :: "nat \<Rightarrow> nat \<Rightarrow> nat \<Rightarrow> nat \<Rightarrow> bool" where
  "rune4 x y z w \<longleftrightarrow> 0xF0 \<le> x \<and> x \<le> 0xF4 \<and> cont_byte y \<and> cont_byte z \<and> cont_byte w \<and>
     (x = 0xF0 \<longrightarrow> 0x90 \<le> y) \<and> (x = 0xF4 \<longrightarrow> y \<le> 0x8F)"

definition rune_len :: "bytes \<Rightarrow> nat" where
  "rune_len bs =
     (case bs of
        c # d # ds \<Rightarrow>
          if rune2 (byte c) (byte d) then 2
          else (case ds of
             [] \<Rightarrow> 0
           | e # es \<Rightarrow>
               if rune3 (byte c) (byte d) (byte e) then 3
               else (case es of
                  [] \<Rightarrow> 0
                | f # _ \<Rightarrow> if rune4 (byte c) (byte d) (byte e) (byte f) then 4 else 0))
      | _ \<Rightarrow> 0)"

lemma rune_len_Nil [simp]: "rune_len [] = 0"
  by (simp add: rune_len_def)

lemma rune_len_cases:
  obtains (invalid) "rune_len bs = 0"
  | (two) c d ds where "bs = c # d # ds" "rune2 (byte c) (byte d)" "rune_len bs = 2"
  | (three) c d e ds where "bs = c # d # e # ds" "\<not> rune2 (byte c) (byte d)"
      "rune3 (byte c) (byte d) (byte e)" "rune_len bs = 3"
  | (four) c d e f ds where "bs = c # d # e # f # ds" "\<not> rune2 (byte c) (byte d)"
      "\<not> rune3 (byte c) (byte d) (byte e)" "rune4 (byte c) (byte d) (byte e) (byte f)" "rune_len bs = 4"
  unfolding rune_len_def by (atomize_elim) (simp split: list.split)

lemma rune_len_range: "rune_len bs = 0 \<or> (2 \<le> rune_len bs \<and> rune_len bs \<le> 4 \<and> rune_len bs \<le> length bs)"
  by (cases bs rule: rune_len_cases) simp_all

lemma rune_bytes_high: "list_all (\<lambda>c. 0x80 \<le> byte c) (take (rune_len s) s)"
  by (cases s rule: rune_len_cases) (simp_all add: rune2_def rune3_def rune4_def cont_byte_def)

lemma rune_len_ascii: "rune_len (c # cs) \<noteq> 0 \<Longrightarrow> 0x80 \<le> byte c"
  using rune_bytes_high [of "c # cs"] by (cases "rune_len (c # cs)") simp_all

lemma rune_len_take:
  "rune_len bs \<noteq> 0 \<Longrightarrow> rune_len (take (rune_len bs) bs @ t) = rune_len bs"
  by (cases bs rule: rune_len_cases) (simp_all, simp_all add: rune_len_def)

text \<open>\<open>utf8.EncodeRune\<close>.\<close>

definition replacement :: bytes where
  "replacement = [CHR 0xEF, CHR 0xBF, CHR 0xBD]"

definition encode_rune :: "nat \<Rightarrow> bytes" where
  "encode_rune r =
     (if r < 0x80 then [char_of r]
      else if r < 0x800 then [char_of (0xC0 + r div 0x40), char_of (0x80 + r mod 0x40)]
      else if 0xD800 \<le> r \<and> r \<le> 0xDFFF \<or> 0x10FFFF < r then replacement
      else if r < 0x10000 then
        [char_of (0xE0 + r div 0x1000), char_of (0x80 + r div 0x40 mod 0x40),
         char_of (0x80 + r mod 0x40)]
      else
        [char_of (0xF0 + r div 0x40000), char_of (0x80 + r div 0x1000 mod 0x40),
         char_of (0x80 + r div 0x40 mod 0x40), char_of (0x80 + r mod 0x40)])"

fun valid_utf8 :: "bytes \<Rightarrow> bool" where
  "valid_utf8 [] = True"
| "valid_utf8 (c # cs) =
     (if byte c < 0x80 then valid_utf8 cs
      else rune_len (c # cs) \<noteq> 0 \<and> valid_utf8 (drop (rune_len (c # cs) - 1) cs))"

section \<open>Encoding a string\<close>

text \<open>\<open>json.Marshal\<close> of a string, HTML escaping on (the default of \<open>Marshal\<close> and \<open>Encoder\<close>).\<close>

definition hex_digit :: "nat \<Rightarrow> char" where
  "hex_digit n = (if n < 10 then char_of (0x30 + n) else char_of (0x57 + n))"

definition escape_u :: "nat \<Rightarrow> bytes" where
  "escape_u n = [backslash, CHR ''u'', hex_digit (n div 0x1000 mod 16), hex_digit (n div 0x100 mod 16),
     hex_digit (n div 16 mod 16), hex_digit (n mod 16)]"

definition escape_ascii :: "char \<Rightarrow> bytes" where
  "escape_ascii c =
     (if c = dquote \<or> c = backslash then [backslash, c]
      else if c = CHR 0x08 then [backslash, CHR ''b'']
      else if c = CHR 0x0C then [backslash, CHR ''f'']
      else if c = CHR 0x0A then [backslash, CHR ''n'']
      else if c = CHR 0x0D then [backslash, CHR ''r'']
      else if c = CHR 0x09 then [backslash, CHR ''t'']
      else if byte c < 0x20 \<or> c = CHR ''<'' \<or> c = CHR ''>'' \<or> c = CHR ''&'' then escape_u (byte c)
      else [c])"

fun json_escape :: "bytes \<Rightarrow> bytes" where
  "json_escape [] = []"
| "json_escape (c # cs) =
     (if byte c < 0x80 then escape_ascii c @ json_escape cs
      else
        let n = rune_len (c # cs); r = take n (c # cs) in
        if n = 0 then escape_u 0xFFFD @ json_escape cs
        else (if r = [CHR 0xE2, CHR 0x80, CHR 0xA8] then escape_u 0x2028
              else if r = [CHR 0xE2, CHR 0x80, CHR 0xA9] then escape_u 0x2029
              else r) @ json_escape (drop (n - 1) cs))"

definition json_string :: "bytes \<Rightarrow> bytes" where
  "json_string s = dquote # json_escape s @ [dquote]"

section \<open>Reading a string literal\<close>

definition hex_value :: "char \<Rightarrow> nat option" where
  "hex_value c =
     (let n = byte c in
      if 0x30 \<le> n \<and> n \<le> 0x39 then Some (n - 0x30)
      else if 0x61 \<le> n \<and> n \<le> 0x66 then Some (n - 0x57)
      else if 0x41 \<le> n \<and> n \<le> 0x46 then Some (n - 0x37)
      else None)"

definition hex4 :: "char \<Rightarrow> char \<Rightarrow> char \<Rightarrow> char \<Rightarrow> nat option" where
  "hex4 a b c d =
     (case (hex_value a, hex_value b, hex_value c, hex_value d) of
        (Some w, Some x, Some y, Some z) \<Rightarrow> Some (w * 0x1000 + x * 0x100 + y * 16 + z)
      | _ \<Rightarrow> None)"

text \<open>The byte a one-letter escape stands for.\<close>

definition short_escape :: "char \<Rightarrow> char option" where
  "short_escape c =
     (if c = dquote \<or> c = backslash \<or> c = slash then Some c
      else if c = CHR ''b'' then Some (CHR 0x08)
      else if c = CHR ''f'' then Some (CHR 0x0C)
      else if c = CHR ''n'' then Some (CHR 0x0A)
      else if c = CHR ''r'' then Some (CHR 0x0D)
      else if c = CHR ''t'' then Some (CHR 0x09)
      else None)"

text \<open>
  \<open>scan_str\<close> is the scanner after an opening quote: the raw body and what follows the closing
  quote. \<open>unquote\<close> decodes a raw body the scanner accepted.
\<close>

fun scan_str :: "bytes \<Rightarrow> (bytes \<times> bytes) option" where
  "scan_str [] = None"
| "scan_str (c # cs) =
     (if c = dquote then Some ([], cs)
      else if c = backslash then
        (case cs of
           [] \<Rightarrow> None
         | x # xs \<Rightarrow>
             if short_escape x \<noteq> None then
               map_option (\<lambda>(b, r). (c # x # b, r)) (scan_str xs)
             else if x = CHR ''u'' then
               (case xs of
                  h1 # h2 # h3 # h4 # ys \<Rightarrow>
                    if hex4 h1 h2 h3 h4 \<noteq> None then
                      map_option (\<lambda>(b, r). (c # x # h1 # h2 # h3 # h4 # b, r)) (scan_str ys)
                    else None
                | _ \<Rightarrow> None)
             else None)
      else if byte c < 0x20 then None
      else map_option (\<lambda>(b, r). (c # b, r)) (scan_str cs))"

definition is_surrogate :: "nat \<Rightarrow> bool" where
  "is_surrogate r \<longleftrightarrow> 0xD800 \<le> r \<and> r < 0xE000"

definition u_escape :: "bytes \<Rightarrow> nat option" where
  "u_escape s = (case s of
       b # u # h1 # h2 # h3 # h4 # _ \<Rightarrow>
         if b = backslash \<and> u = CHR ''u'' then hex4 h1 h2 h3 h4 else None
     | _ \<Rightarrow> None)"

text \<open>A surrogate that no low surrogate follows decodes to the replacement character.\<close>

function unquote :: "bytes \<Rightarrow> bytes" where
  "unquote s =
     (case s of
        [] \<Rightarrow> []
      | c # cs \<Rightarrow>
          if c = backslash then
            (case u_escape s of
               Some r \<Rightarrow>
                 (let rest = drop 6 s in
                  if is_surrogate r then
                    (case u_escape rest of
                       Some r2 \<Rightarrow>
                         if r < 0xDC00 \<and> 0xDC00 \<le> r2 \<and> r2 < 0xE000
                         then encode_rune ((r - 0xD800) * 0x400 + (r2 - 0xDC00) + 0x10000)
                                @ unquote (drop 6 rest)
                         else replacement @ unquote rest
                     | None \<Rightarrow> replacement @ unquote rest)
                  else encode_rune r @ unquote rest)
             | None \<Rightarrow>
                 (case cs of
                    [] \<Rightarrow> []
                  | x # xs \<Rightarrow> (case short_escape x of Some y \<Rightarrow> y # unquote xs | None \<Rightarrow> unquote xs)))
          else if byte c < 0x80 then c # unquote cs
          else if rune_len s = 0 then replacement @ unquote cs
          else take (rune_len s) s @ unquote (drop (rune_len s) s))"
  by pat_completeness auto
termination
  by (relation "measure length") auto

declare unquote.simps [simp del]

lemma unquote_Nil [simp]: "unquote [] = []"
  by (simp add: unquote.simps)

lemma unquote_plain: "c \<noteq> backslash \<Longrightarrow> byte c < 0x80 \<Longrightarrow> unquote (c # cs) = c # unquote cs"
  by (simp add: unquote.simps [of "c # cs"])

lemma unquote_short:
  assumes "short_escape x = Some y"
  shows "unquote (backslash # x # xs) = y # unquote xs"
proof -
  have "x \<noteq> CHR ''u''" using assms by (auto simp: short_escape_def)
  then have "u_escape (backslash # x # xs) = None"
    by (simp add: u_escape_def split: list.splits)
  with assms show ?thesis by (simp add: unquote.simps [of "backslash # x # xs"])
qed

lemma unquote_u:
  "hex4 a b c d = Some r \<Longrightarrow> \<not> is_surrogate r \<Longrightarrow>
   unquote (backslash # CHR ''u'' # a # b # c # d # xs) = encode_rune r @ unquote xs"
  by (simp add: unquote.simps [of "backslash # CHR ''u'' # a # b # c # d # xs"] u_escape_def)

lemma unquote_rune:
  assumes "rune_len s \<noteq> 0"
  shows "unquote (take (rune_len s) s @ t) = take (rune_len s) s @ unquote t"
proof -
  obtain c cs where s: "s = c # cs" using assms by (cases s) auto
  obtain m where m: "rune_len s = Suc m" "m \<le> length cs"
    using rune_len_range [of s] assms s by (cases "rune_len s") auto
  have c: "0x80 \<le> byte c" using assms rune_len_ascii s by blast
  then have "c \<noteq> backslash" "\<not> byte c < 0x80" by auto
  moreover have "rune_len (c # take m cs @ t) = Suc m"
    using rune_len_take [OF assms, of t] s m by simp
  ultimately show ?thesis
    using s m unquote.simps [of "c # take m cs @ t"] by simp
qed

section \<open>Decoding what was encoded\<close>

lemma hex_value_digit: "n < 16 \<Longrightarrow> hex_value (hex_digit n) = Some n"
  by (simp add: hex_value_def hex_digit_def Let_def)

lemma hex4_digits:
  "w < 16 \<Longrightarrow> x < 16 \<Longrightarrow> y < 16 \<Longrightarrow> z < 16 \<Longrightarrow>
   hex4 (hex_digit w) (hex_digit x) (hex_digit y) (hex_digit z) =
     Some (w * 0x1000 + x * 0x100 + y * 16 + z)"
  by (simp add: hex4_def hex_value_digit)

lemma nibbles:
  fixes n :: nat
  assumes "n < 0x10000"
  shows "n div 0x1000 mod 16 * 0x1000 + n div 0x100 mod 16 * 0x100 + n div 16 mod 16 * 16 + n mod 16 = n"
proof -
  have "n div 16 div 16 = n div 0x100" "n div 0x100 div 16 = n div 0x1000"
    by (simp_all flip: div_mult2_eq)
  moreover have "n = n div 16 * 16 + n mod 16"
    "n div 16 = n div 16 div 16 * 16 + n div 16 mod 16"
    "n div 0x100 = n div 0x100 div 16 * 16 + n div 0x100 mod 16"
    by simp_all
  moreover have "n div 0x1000 mod 16 = n div 0x1000" using assms by (simp add: less_mult_imp_div_less)
  ultimately show ?thesis by linarith
qed

lemma hex4_escape: "n < 0x10000 \<Longrightarrow>
   hex4 (hex_digit (n div 0x1000 mod 16)) (hex_digit (n div 0x100 mod 16))
     (hex_digit (n div 16 mod 16)) (hex_digit (n mod 16)) = Some n"
  using hex4_digits [of "n div 0x1000 mod 16" "n div 0x100 mod 16" "n div 16 mod 16" "n mod 16"]
    nibbles [of n] by (simp only: mod_less_divisor zero_less_numeral)

lemma escape_u_shape:
  assumes "n < 0x10000"
  obtains a b c d where "escape_u n = [backslash, CHR ''u'', a, b, c, d]" "hex4 a b c d = Some n"
  using hex4_escape [OF assms] unfolding escape_u_def by blast

lemma scan_str_u: "n < 0x10000 \<Longrightarrow>
    scan_str (escape_u n @ t) = map_option (\<lambda>(b, r). (escape_u n @ b, r)) (scan_str t)"
  by (erule escape_u_shape) (simp add: short_escape_def)

lemma unquote_escape_u: "n < 0x10000 \<Longrightarrow> \<not> is_surrogate n \<Longrightarrow>
    unquote (escape_u n @ t) = encode_rune n @ unquote t"
  by (erule escape_u_shape) (simp add: unquote_u)

lemma scan_str_ascii: "byte c < 0x80 \<Longrightarrow>
    scan_str (escape_ascii c @ t) = map_option (\<lambda>(b, r). (escape_ascii c @ b, r)) (scan_str t)"
  by (auto simp: escape_ascii_def scan_str_u short_escape_def)

lemma unquote_ascii: "byte c < 0x80 \<Longrightarrow> unquote (escape_ascii c @ t) = c # unquote t"
  by (auto simp: escape_ascii_def unquote_short unquote_plain unquote_escape_u
      short_escape_def is_surrogate_def encode_rune_def)

lemma scan_str_high:
  "list_all (\<lambda>c. 0x80 \<le> byte c) r \<Longrightarrow>
   scan_str (r @ t) = map_option (\<lambda>(b, u). (r @ b, u)) (scan_str t)"
proof (induction r)
  case (Cons c r)
  then have "c \<noteq> dquote" "c \<noteq> backslash" "\<not> byte c < 0x20" by auto
  with Cons show ?case by (cases "scan_str t") auto
qed (cases "scan_str t"; auto)

lemma scan_str_escape:
  "scan_str (json_escape s @ dquote # t) = Some (json_escape s, t)"
proof (induction s rule: json_escape.induct)
  case (2 c cs)
  show ?case
  proof (cases "byte c < 0x80")
    case True
    with 2 show ?thesis by (simp add: scan_str_ascii)
  next
    case False
    with 2 show ?thesis
      using scan_str_high [OF rune_bytes_high]
      by (auto simp: Let_def scan_str_u)
  qed
qed simp

lemma separators:
  "encode_rune 0x2028 = [CHR 0xE2, CHR 0x80, CHR 0xA8]"
  "encode_rune 0x2029 = [CHR 0xE2, CHR 0x80, CHR 0xA9]"
  by (simp_all add: encode_rune_def char_of_eq_iff)

lemma json_escape_rune:
  assumes "\<not> byte c < 0x80" "rune_len (c # cs) \<noteq> 0"
  shows "unquote (json_escape (c # cs)) =
    take (rune_len (c # cs)) (c # cs) @ unquote (json_escape (drop (rune_len (c # cs) - 1) cs))"
proof -
  let ?r = "take (rune_len (c # cs)) (c # cs)"
  have "json_escape (c # cs) =
      (if ?r = [CHR 0xE2, CHR 0x80, CHR 0xA8] then escape_u 0x2028
       else if ?r = [CHR 0xE2, CHR 0x80, CHR 0xA9] then escape_u 0x2029
       else ?r) @ json_escape (drop (rune_len (c # cs) - 1) cs)"
    using assms by (simp only: json_escape.simps Let_def if_False)
  moreover have "unquote (escape_u 0x2028 @ t) = [CHR 0xE2, CHR 0x80, CHR 0xA8] @ unquote t"
      "unquote (escape_u 0x2029 @ t) = [CHR 0xE2, CHR 0x80, CHR 0xA9] @ unquote t" for t
    using unquote_escape_u [where n = "0x2028" and t = t] unquote_escape_u [where n = "0x2029" and t = t]
    by (simp_all add: is_surrogate_def separators)
  moreover have "unquote (?r @ t) = ?r @ unquote t" for t
    by (rule unquote_rune [OF assms(2)])
  ultimately show ?thesis by presburger
qed

lemma unquote_escape: "valid_utf8 s \<Longrightarrow> unquote (json_escape s) = s"
proof (induction s rule: json_escape.induct)
  case (2 c cs)
  show ?case
  proof (cases "byte c < 0x80")
    case True
    with 2 show ?thesis by (simp add: unquote_ascii)
  next
    case False
    let ?n = "rune_len (c # cs)"
    have n: "?n \<noteq> 0" and v: "valid_utf8 (drop (?n - 1) cs)" using "2.prems" False by auto
    have "unquote (json_escape (drop (?n - 1) cs)) = drop (?n - 1) cs"
      by (rule "2.IH"(3) [OF False refl refl n v])
    moreover have "take ?n (c # cs) @ drop (?n - 1) cs = c # cs"
      using n by (cases ?n) auto
    ultimately show ?thesis using json_escape_rune [OF False n] by simp
  qed
qed simp

end
