(* ===== verification/Proto.thy ===== *)
theory Proto
  imports Json
begin

text \<open>
  \<open>proto/handler.go\<close> and \<open>proto/proto.go\<close>: the error constants every other package
  refers to, the messages of the wire protocol, and the encoding of a process result.
\<close>

section \<open>Error constants (proto/handler.go)\<close>

definition ErrHandlerUnknownProcess :: go_error where
  "ErrHandlerUnknownProcess = Sentinel ''proto.ErrHandlerUnknownProcess'' ''unknown process''"

definition ErrHandlerInvalidArgs :: go_error where
  "ErrHandlerInvalidArgs = Sentinel ''proto.ErrHandlerInvalidArgs'' ''invalid args''"

definition ErrHandlerAuthorizationDenied :: go_error where
  "ErrHandlerAuthorizationDenied =
     Sentinel ''proto.ErrHandlerAuthorizationDenied'' ''authorization denied''"

definition ErrCancelClientGone :: go_error where
  "ErrCancelClientGone = Sentinel ''proto.ErrCancelClientGone'' ''client has gone away''"

definition ErrCancelHandlerReturn :: go_error where
  "ErrCancelHandlerReturn = Sentinel ''proto.ErrCancelHandlerReturn'' ''handler has returned''"

definition ErrCancelClientRequest :: go_error where
  "ErrCancelClientRequest =
     Sentinel ''proto.ErrCancelClientRequest'' ''client requested cancellation''"

definition ErrCancelProtocolError :: go_error where
  "ErrCancelProtocolError = Sentinel ''proto.ErrCancelProtocolError'' ''protocol error occurred''"

definition ErrCancelTimeout :: go_error where
  "ErrCancelTimeout = Sentinel ''proto.ErrCancelTimeout'' ''timeout expired''"

text \<open>The causes a process may find in its context, as the comment of \<open>Process.Do\<close> lists them.\<close>

definition cancel_causes :: "go_error list" where
  "cancel_causes = [ErrCancelClientGone, ErrCancelHandlerReturn, ErrCancelClientRequest,
     ErrCancelProtocolError, ErrCancelTimeout]"

lemmas cancel_error_defs = ErrCancelClientGone_def ErrCancelHandlerReturn_def
  ErrCancelClientRequest_def ErrCancelProtocolError_def ErrCancelTimeout_def

lemma cancel_causes_distinct: "distinct cancel_causes"
  by (simp add: cancel_causes_def cancel_error_defs)

section \<open>Messages (proto/proto.go)\<close>

record call_message =
  cm_call :: bytes
  cm_params :: "bytes list"

record signal_message =
  sm_signal :: bytes

definition SignalCancel :: bytes where
  "SignalCancel = ''cancel''"

definition SignalClose :: bytes where
  "SignalClose = ''close''"

lemma signals_distinct [simp]: "SignalCancel \<noteq> SignalClose" "SignalClose \<noteq> SignalCancel"
  by (simp_all add: SignalCancel_def SignalClose_def)

definition Subprotocol :: bytes where
  "Subprotocol = ''pow-1''"

definition ErrWrongSubprotocol :: go_error where
  "ErrWrongSubprotocol = Sentinel ''proto.ErrWrongSubprotocol''
     (''only support subprotocol '' @ [dquote] @ Subprotocol @ [dquote])"

section \<open>Results\<close>

text \<open>
  \<open>Value\<close> is any Go value, the type \<open>'v\<close> here, with \<open>None\<close> for the nil interface. What
  \<open>json.Marshal\<close> does on it is a parameter \<open>mj\<close>: it may call code of the user's type, so
  beside bytes it may give an error or panic.
\<close>

record 'v result =
  Value :: "'v option"
  Reason :: "go_error option"

datatype marshalled = MBytes bytes | MError | MPanic

definition marshal_any :: "('v \<Rightarrow> marshalled) \<Rightarrow> 'v option \<Rightarrow> marshalled" where
  "marshal_any mj v = (case v of None \<Rightarrow> MBytes ''null'' | Some x \<Rightarrow> mj x)"

text \<open>The inner closure: the empty string when marshalling fails or panics.\<close>

definition result_content :: "('v \<Rightarrow> marshalled) \<Rightarrow> 'v result \<Rightarrow> bytes" where
  "result_content mj res =
     (case (case Reason res of
              None \<Rightarrow> marshal_any mj (Value res)
            | Some e \<Rightarrow> MBytes (json_string (error_text e))) of
        MBytes b \<Rightarrow> b
      | MError \<Rightarrow> []
      | MPanic \<Rightarrow> [])"

definition Result_MarshalJSON :: "('v \<Rightarrow> marshalled) \<Rightarrow> 'v result option \<Rightarrow> bytes" where
  \<open>Result_MarshalJSON mj r =
     (case r of
        None \<Rightarrow> ''{"status":"pending"}''
      | Some res \<Rightarrow>
          let status = (if Reason res = None then ''fulfilled'' else ''rejected'');
              data = (if Reason res = None then ''value'' else ''reason'');
              content = result_content mj res
          in if content = [] then ''{"status":"'' @ status @ ''"}''
             else ''{"status":"'' @ status @ ''","'' @ data @ ''":'' @ content @ ''}'')\<close>

section \<open>Facts about the encoding\<close>

lemma result_content_rejected:
  "Reason res = Some e \<Longrightarrow> result_content mj res = json_string (error_text e)"
  by (simp add: result_content_def)

lemma Result_MarshalJSON_rejected:
  \<open>Reason res = Some e \<Longrightarrow> Result_MarshalJSON mj (Some res) =
     ''{"status":"rejected","reason":"'' @ json_escape (error_text e) @ ''"}''\<close>
  by (simp add: Result_MarshalJSON_def result_content_rejected json_string_def Let_def)

lemma Result_MarshalJSON_fulfilled:
  \<open>Reason res = None \<Longrightarrow> marshal_any mj (Value res) = MBytes b \<Longrightarrow> b \<noteq> [] \<Longrightarrow>
   Result_MarshalJSON mj (Some res) = ''{"status":"fulfilled","value":'' @ b @ ''}''\<close>
  by (simp add: Result_MarshalJSON_def result_content_def)

text \<open>What a client reads: the status field is the first member of the object.\<close>

definition status_of :: "bytes \<Rightarrow> bytes" where
  \<open>status_of msg = takeWhile (\<lambda>c. c \<noteq> dquote) (drop (length ''{"status":"'') msg)\<close>

section \<open>Properties\<close>

text \<open>
  A client can tell from the status field alone whether the process is still
  running, succeeded or failed: the field says \<open>pending\<close> for a nil result, \<open>fulfilled\<close>
  when there is no error and \<open>rejected\<close> otherwise, whatever the value is and whether or not
  it can be marshalled.
\<close>

theorem result_status:
  "status_of (Result_MarshalJSON mj r) =
     (case r of None \<Rightarrow> ''pending''
      | Some res \<Rightarrow> (if Reason res = None then ''fulfilled'' else ''rejected''))"
  by (auto simp: status_of_def Result_MarshalJSON_def Let_def split: option.splits)

text \<open>
  A failure arrives at the client word for word: reading the string literal
  that follows the \<open>reason\<close> key of the encoded result gives back the error's text, for every
  error whose text is valid UTF-8, and what follows the literal is exactly the closing brace.
\<close>

theorem result_reason_roundtrip:
  assumes "Reason res = Some e" and "valid_utf8 (error_text e)"
  shows \<open>map_option (\<lambda>(raw, rest). (unquote raw, rest))
      (scan_str (drop (length ''{"status":"rejected","reason":"'') (Result_MarshalJSON mj (Some res))))
    = Some (error_text e, ''}'')\<close>
  using assms scan_str_escape [of "error_text e" "''}''"]
  by (simp add: Result_MarshalJSON_rejected unquote_escape)

theorem result_reason_roundtrip_witness:
  \<open>map_option (\<lambda>(raw, rest). (unquote raw, rest))
      (scan_str (drop (length ''{"status":"rejected","reason":"'')
        (Result_MarshalJSON (\<lambda>_ :: unit. MPanic) (Some \<lparr>Value = None,
           Reason = Some (Errorf ''failed to get process: '' ErrHandlerUnknownProcess [])\<rparr>))))
    = Some (''failed to get process: unknown process'', ''}'')\<close>
proof -
  let ?e = "Errorf ''failed to get process: '' ErrHandlerUnknownProcess []"
  have t: "error_text ?e = ''failed to get process: unknown process''"
    by (simp add: ErrHandlerUnknownProcess_def)
  have r: "Reason \<lparr>Value = None, Reason = Some ?e\<rparr> = Some ?e" by simp
  have v: "valid_utf8 (error_text ?e)" by (simp add: ErrHandlerUnknownProcess_def)
  show ?thesis
    using result_reason_roundtrip [OF r v, of "\<lambda>_ :: unit. MPanic"] by (simp only: t)
qed

end
