(* ===== verification/Finbuf.thy ===== *)
theory Finbuf
  imports Prelude
begin

text \<open>
  \<open>internal/finbuf/buffer.go\<close>: the output of a REST session, which keeps only the last
  \<open>MaxLines\<close> complete lines. The ring buffer and the line splitter come from a third-party
  package (pkglib): they are the record \<open>buf_ops\<close> of operations here, and \<open>ring_laws\<close> and
  \<open>line_laws\<close> state what their documentation promises. A write adds its lines one by one,
  each under the lock; what \<open>String\<close> shows between two of them is what it shows after a shorter
  write, so a write is one step here and the lemmas hold for every cut of the output into writes.
  \<open>sync.Once\<close> is the flag \<open>fb_inited\<close>.
\<close>

section \<open>The third-party operations\<close>

record ('rb, 'lb) buf_ops =
  bo_make :: "int \<Rightarrow> 'rb"                                  \<comment> \<open>ringbuffer.MakeRingBuffer\<close>
  bo_add :: "bytes \<Rightarrow> 'rb \<Rightarrow> 'rb"                         \<comment> \<open>(*RingBuffer).Add\<close>
  bo_join :: "'rb \<Rightarrow> bytes \<Rightarrow> bytes"                      \<comment> \<open>ringbuffer.Join\<close>
  bo_zero :: "'lb"                                        \<comment> \<open>the zero status.LineBuffer\<close>
  bo_write :: "bytes \<Rightarrow> 'lb \<Rightarrow> bytes list \<times> 'lb \<times> nat \<times> go_error option"
    \<comment> \<open>(*LineBuffer).Write: the lines it passes to the callback, then the results\<close>

section \<open>FiniteBuffer\<close>

record ('rb, 'lb) finbuf =
  fb_buf :: 'lb
  fb_inited :: bool
  fb_MaxLines :: int
  fb_lines :: "'rb option"

definition fb_new :: "('rb, 'lb) buf_ops \<Rightarrow> int \<Rightarrow> ('rb, 'lb) finbuf" where
  "fb_new ops m = \<lparr>fb_buf = bo_zero ops, fb_inited = False, fb_MaxLines = m, fb_lines = None\<rparr>"

definition fb_init :: "('rb, 'lb) buf_ops \<Rightarrow> ('rb, 'lb) finbuf \<Rightarrow> ('rb, 'lb) finbuf" where
  "fb_init ops fb =
     (if fb_inited fb then fb
      else fb\<lparr>fb_lines := Some (bo_make ops (fb_MaxLines fb)), fb_inited := True\<rparr>)"

definition fb_line :: "('rb, 'lb) buf_ops \<Rightarrow> bytes \<Rightarrow> ('rb, 'lb) finbuf \<Rightarrow> ('rb, 'lb) finbuf" where
  "fb_line ops line fb = fb\<lparr>fb_lines := map_option (bo_add ops line) (fb_lines fb)\<rparr>"

definition fb_Write :: "('rb, 'lb) buf_ops \<Rightarrow> bytes \<Rightarrow> ('rb, 'lb) finbuf \<Rightarrow>
    ('rb, 'lb) finbuf \<times> nat \<times> go_error option" where
  "fb_Write ops data fb0 =
     (let fb = fb_init ops fb0;
          (lines, lb, n, err) = bo_write ops data (fb_buf fb);
          fb' = fold (fb_line ops) lines (fb\<lparr>fb_buf := lb\<rparr>)
      in (fb', n, map_option (\<lambda>e. Errorf ''failed to read from buffer: '' e []) err))"

definition fb_String :: "('rb, 'lb) buf_ops \<Rightarrow> ('rb, 'lb) finbuf \<Rightarrow> ('rb, 'lb) finbuf \<times> bytes" where
  "fb_String ops fb0 =
     (let fb = fb_init ops fb0
      in (fb, (case fb_lines fb of None \<Rightarrow> [] | Some rb \<Rightarrow> bo_join ops rb [newline])))"

section \<open>What the operations promise\<close>

text \<open>The last \<open>n\<close> elements of a list, and the lines a newline has completed.\<close>

definition lastn :: "nat \<Rightarrow> 'a list \<Rightarrow> 'a list" where
  "lastn n xs = drop (length xs - n) xs"

definition complete_lines :: "bytes \<Rightarrow> bytes list" where
  "complete_lines d = butlast (split_on newline d)"

definition partial_line :: "bytes \<Rightarrow> bytes" where
  "partial_line d = last (split_on newline d)"

text \<open>
  A ring buffer made with capacity \<open>n\<close> holds the last \<open>n\<close> elements added, oldest first, and
  joins them in that order.
\<close>

definition ring_laws :: "('rb, 'lb) buf_ops \<Rightarrow> ('rb \<Rightarrow> bytes list) \<Rightarrow> ('rb \<Rightarrow> nat) \<Rightarrow> bool" where
  "ring_laws ops items cap \<longleftrightarrow>
     (\<forall>n \<ge> 1. items (bo_make ops n) = [] \<and> cap (bo_make ops n) = nat n) \<and>
     (\<forall>x r. items (bo_add ops x r) = lastn (cap r) (items r @ [x]) \<and> cap (bo_add ops x r) = cap r) \<and>
     (\<forall>r sep. bo_join ops r sep = join_with sep (items r))"

text \<open>
  A line buffer accepts every write in full, passes each line to its callback when the
  newline that ends it arrives, without the newline, and keeps the rest.
\<close>

definition line_laws :: "('rb, 'lb) buf_ops \<Rightarrow> ('lb \<Rightarrow> bytes) \<Rightarrow> bool" where
  "line_laws ops pend \<longleftrightarrow>
     pend (bo_zero ops) = [] \<and>
     (\<forall>d lb. case bo_write ops d lb of (lines, lb', n, err) \<Rightarrow>
        lines = complete_lines (pend lb @ d) \<and> pend lb' = partial_line (pend lb @ d) \<and>
        n = length d \<and> err = None)"

lemma lastn_append [simp]: "lastn n (lastn n xs @ ys) = lastn n (xs @ ys)"
  by (cases "n \<le> length xs") (auto simp: lastn_def add.commute)

lemma length_lastn [simp]: "length (lastn n xs) = min n (length xs)"
  by (simp add: lastn_def min_def)

lemma complete_lines_append:
  "complete_lines (s @ t) = complete_lines s @ complete_lines (partial_line s @ t)"
  by (simp add: complete_lines_def partial_line_def split_on_append2 [of newline s t] butlast_append)

lemma partial_line_append: "partial_line (s @ t) = partial_line (partial_line s @ t)"
  by (simp add: partial_line_def split_on_append2 [of newline s t])

section \<open>The contents of a buffer\<close>

definition fb_write_all :: "('rb, 'lb) buf_ops \<Rightarrow> bytes list \<Rightarrow> ('rb, 'lb) finbuf \<Rightarrow> ('rb, 'lb) finbuf" where
  "fb_write_all ops ds fb = fold (\<lambda>d fb. fst (fb_Write ops d fb)) ds fb"

text \<open>The abstraction: a buffer stands for the lines it shows and the line not yet complete.\<close>

definition fb_shows ::
  "('rb \<Rightarrow> bytes list) \<Rightarrow> ('rb \<Rightarrow> nat) \<Rightarrow> ('lb \<Rightarrow> bytes) \<Rightarrow> ('rb, 'lb) finbuf \<Rightarrow> bytes \<Rightarrow> bool" where
  "fb_shows items cap pend fb d \<longleftrightarrow>
     pend (fb_buf fb) = partial_line d \<and>
     (case fb_lines fb of
        None \<Rightarrow> \<not> fb_inited fb \<and> complete_lines d = []
      | Some rb \<Rightarrow> fb_inited fb \<and> cap rb = nat (fb_MaxLines fb) \<and>
          items rb = lastn (nat (fb_MaxLines fb)) (complete_lines d))"

lemma fold_fb_line:
  "fold (fb_line ops) ls fb = fb\<lparr>fb_lines := map_option (fold (bo_add ops) ls) (fb_lines fb)\<rparr>"
proof (induction ls arbitrary: fb)
  case Nil
  then show ?case by (cases fb) (simp add: option.map_ident id_def)
next
  case (Cons l ls)
  then show ?case by (simp add: fb_line_def option.map_comp comp_def)
qed

lemma fold_bo_add:
  assumes "ring_laws ops items cap"
  shows "items rb = lastn (cap rb) xs \<Longrightarrow>
    items (fold (bo_add ops) ls rb) = lastn (cap rb) (xs @ ls) \<and>
    cap (fold (bo_add ops) ls rb) = cap rb"
proof (induction ls arbitrary: rb xs)
  case (Cons l ls)
  have "items (bo_add ops l rb) = lastn (cap rb) (xs @ [l])" "cap (bo_add ops l rb) = cap rb"
    using assms Cons.prems by (simp_all add: ring_laws_def)
  with Cons.IH [of "bo_add ops l rb" "xs @ [l]"] show ?case by simp
qed simp

lemma fb_init_shows:
  assumes "ring_laws ops items cap" "1 \<le> fb_MaxLines fb" "fb_shows items cap pend fb d"
  shows "fb_shows items cap pend (fb_init ops fb) d \<and> fb_inited (fb_init ops fb) \<and>
    fb_MaxLines (fb_init ops fb) = fb_MaxLines fb \<and> fb_buf (fb_init ops fb) = fb_buf fb"
  using assms by (auto simp: fb_shows_def fb_init_def ring_laws_def lastn_def split: option.splits)

lemma fb_Write_shows:
  assumes laws: "ring_laws ops items cap" "line_laws ops pend"
    and m: "1 \<le> fb_MaxLines fb" and sh: "fb_shows items cap pend fb d"
  shows "fb_shows items cap pend (fst (fb_Write ops e fb)) (d @ e) \<and>
    fb_MaxLines (fst (fb_Write ops e fb)) = fb_MaxLines fb \<and>
    snd (fb_Write ops e fb) = (length e, None)"
proof -
  let ?fb = "fb_init ops fb"
  obtain ls lb n err where w: "bo_write ops e (fb_buf ?fb) = (ls, lb, n, err)"
    by (cases "bo_write ops e (fb_buf ?fb)") auto
  have i: "fb_shows items cap pend ?fb d" "fb_inited ?fb" "fb_MaxLines ?fb = fb_MaxLines fb"
    using fb_init_shows [OF laws(1) m sh] by auto
  obtain rb where rb: "fb_lines ?fb = Some rb" "cap rb = nat (fb_MaxLines fb)"
      "items rb = lastn (nat (fb_MaxLines fb)) (complete_lines d)"
    and p: "pend (fb_buf ?fb) = partial_line d"
    using i by (auto simp: fb_shows_def split: option.splits)
  have l: "ls = complete_lines (partial_line d @ e)" "pend lb = partial_line (partial_line d @ e)"
      "n = length e" "err = None"
    using spec [OF spec [OF conjunct2 [OF laws(2) [unfolded line_laws_def]], of e], of "fb_buf ?fb"] w p
    by simp_all
  have "items (fold (bo_add ops) ls rb) = lastn (nat (fb_MaxLines fb)) (complete_lines (d @ e))"
      "cap (fold (bo_add ops) ls rb) = nat (fb_MaxLines fb)" "partial_line (d @ e) = pend lb"
    using fold_bo_add [OF laws(1), of rb "complete_lines d" ls] rb l
      complete_lines_append [of d e] partial_line_append [of d e] by simp_all
  then show ?thesis
    using w l i rb by (simp add: fb_Write_def Let_def fb_shows_def fold_fb_line)
qed

lemma fb_write_all_shows:
  assumes "ring_laws ops items cap" "line_laws ops pend"
  shows "1 \<le> fb_MaxLines fb \<Longrightarrow> fb_shows items cap pend fb d \<Longrightarrow>
    fb_shows items cap pend (fb_write_all ops ds fb) (d @ concat ds) \<and>
    fb_MaxLines (fb_write_all ops ds fb) = fb_MaxLines fb"
proof (induction ds arbitrary: fb d)
  case (Cons e ds)
  let ?fb = "fst (fb_Write ops e fb)"
  have "fb_shows items cap pend ?fb (d @ e)" "fb_MaxLines ?fb = fb_MaxLines fb"
    using fb_Write_shows [OF assms Cons.prems, of e] by auto
  with Cons.IH [of ?fb "d @ e"] Cons.prems show ?case by (simp add: fb_write_all_def)
qed (simp add: fb_write_all_def)

lemma fb_new_MaxLines [simp]: "fb_MaxLines (fb_new ops m) = m"
  by (simp add: fb_new_def)

lemma fb_new_shows: "line_laws ops pend \<Longrightarrow> fb_shows items cap pend (fb_new ops m) []"
  by (simp add: fb_shows_def fb_new_def line_laws_def partial_line_def complete_lines_def)

lemma fb_String_shows:
  assumes "ring_laws ops items cap" "1 \<le> fb_MaxLines fb" "fb_shows items cap pend fb d"
  shows "snd (fb_String ops fb) = join_with [newline] (lastn (nat (fb_MaxLines fb)) (complete_lines d))"
  using fb_init_shows [OF assms] assms(1)
  by (auto simp: fb_String_def Let_def fb_shows_def ring_laws_def split: option.splits)

text \<open>A concrete ring and line buffer that keep the laws, over lists.\<close>

definition list_ops :: "(nat \<times> bytes list, bytes) buf_ops" where
  "list_ops = \<lparr>bo_make = (\<lambda>n. (nat n, [])), bo_add = (\<lambda>x (n, xs). (n, lastn n (xs @ [x]))),
     bo_join = (\<lambda>(n, xs) sep. join_with sep xs), bo_zero = [],
     bo_write = (\<lambda>d p. (complete_lines (p @ d), partial_line (p @ d), length d, None))\<rparr>"

lemma list_ops_laws: "ring_laws list_ops snd fst" "line_laws list_ops id"
  by (auto simp: ring_laws_def line_laws_def list_ops_def)

section \<open>Properties\<close>

text \<open>
  Property C17. However the output of a process is cut into writes, the text the buffer shows
  is the last \<open>MaxLines\<close> complete lines of all the bytes written, in order, joined by newlines:
  a line that is not yet ended is not shown, and no complete line is lost before it is pushed
  out by \<open>MaxLines\<close> younger ones.
\<close>

theorem finbuf_shows_last_lines:
  assumes "ring_laws ops items cap" and "line_laws ops pend" and "1 \<le> m"
  shows "snd (fb_String ops (fb_write_all ops ds (fb_new ops m))) =
    join_with [newline] (lastn (nat m) (complete_lines (concat ds)))"
proof -
  have "fb_shows items cap pend (fb_write_all ops ds (fb_new ops m)) (concat ds)"
      "fb_MaxLines (fb_write_all ops ds (fb_new ops m)) = m"
    using fb_write_all_shows [OF assms(1,2) _ fb_new_shows [OF assms(2)], of m ds] assms(3) by simp_all
  with fb_String_shows [OF assms(1)] assms(3) show ?thesis by fastforce
qed

theorem finbuf_shows_last_lines_witness:
  "snd (fb_String list_ops (fb_write_all list_ops
      [''3'' @ [newline, CHR ''2''], [newline], ''1'' @ [newline] @ ''x''] (fb_new list_ops 2))) =
    ''2'' @ [newline] @ ''1''"
  using finbuf_shows_last_lines [OF list_ops_laws, of 2]
  by (simp add: complete_lines_def lastn_def)

text \<open>
  A write to the buffer always reports the whole length and no error, so a process
  that writes its output through it never sees a short write.
\<close>

theorem finbuf_write_total:
  assumes "ring_laws ops items cap" and "line_laws ops pend" and "1 \<le> m"
  shows "snd (fb_Write ops e (fb_write_all ops ds (fb_new ops m))) = (length e, None)"
proof -
  have "fb_shows items cap pend (fb_write_all ops ds (fb_new ops m)) (concat ds)"
      "fb_MaxLines (fb_write_all ops ds (fb_new ops m)) = m"
    using fb_write_all_shows [OF assms(1,2) _ fb_new_shows [OF assms(2)], of m ds] assms(3) by simp_all
  with fb_Write_shows [OF assms(1,2)] assms(3) show ?thesis by fastforce
qed

theorem finbuf_write_total_witness:
  "snd (fb_Write list_ops ''ab'' (fb_write_all list_ops [''c''] (fb_new list_ops 1))) = (2, None)"
  using finbuf_write_total [OF list_ops_laws, of 1 "''ab''" "[''c'']"] by simp

end
