(* ===== verification/Pipe.thy ===== *)
theory Pipe
  imports Prelude
begin

text \<open>
  The standard library's \<open>io.Pipe\<close>, through which both servers feed a process its input. A
  pipe has no buffer: a write waits until readers have taken all of it or the pipe is closed.
  Its two ends are the same object, so closing one is visible at the other; which error a
  reader then gets depends on which ends were closed, and both servers depend on that.
\<close>

section \<open>State and operations\<close>

text \<open>
  \<open>p_rerr\<close> and \<open>p_werr\<close> are the two \<open>onceError\<close> fields, \<open>p_done\<close> is the closed \<open>done\<close>
  channel, \<open>p_pend\<close> the write in progress (its holder owns \<open>wrMu\<close>): bytes taken so far,
  bytes left, and whether the slice was handed over at least once.
\<close>

record pipe =
  p_rerr :: "go_error option"
  p_werr :: "go_error option"
  p_done :: bool
  p_pend :: "(nat \<times> bytes \<times> bool) option"

definition pipe_new :: pipe where
  "pipe_new = \<lparr>p_rerr = None, p_werr = None, p_done = False, p_pend = None\<rparr>"

text \<open>\<open>(*onceError).Store\<close> keeps the first error.\<close>

definition store_once :: "go_error \<Rightarrow> go_error option \<Rightarrow> go_error option" where
  "store_once e slot = (case slot of None \<Rightarrow> Some e | Some e' \<Rightarrow> Some e')"

text \<open>\<open>PipeReader.Close\<close> and \<open>PipeWriter.Close\<close>; both always return nil.\<close>

definition close_read :: "pipe \<Rightarrow> pipe" where
  "close_read p = p\<lparr>p_rerr := store_once io_ErrClosedPipe (p_rerr p), p_done := True\<rparr>"

definition close_write :: "pipe \<Rightarrow> pipe" where
  "close_write p = p\<lparr>p_werr := store_once io_EOF (p_werr p), p_done := True\<rparr>"

definition read_close_error :: "pipe \<Rightarrow> go_error" where
  "read_close_error p =
     (case (p_rerr p, p_werr p) of (None, Some e) \<Rightarrow> e | _ \<Rightarrow> io_ErrClosedPipe)"

definition write_close_error :: "pipe \<Rightarrow> go_error" where
  "write_close_error p =
     (case (p_werr p, p_rerr p) of (None, Some e) \<Rightarrow> e | _ \<Rightarrow> io_ErrClosedPipe)"

datatype read_result = ReadBlocks | ReadData bytes | ReadErr go_error

text \<open>One \<open>Read\<close> into a buffer of \<open>k\<close> bytes.\<close>

definition pipe_read :: "nat \<Rightarrow> pipe \<Rightarrow> read_result \<times> pipe" where
  "pipe_read k p =
     (if p_done p then (ReadErr (read_close_error p), p)
      else case p_pend p of
        None \<Rightarrow> (ReadBlocks, p)
      | Some (n, b, offered) \<Rightarrow>
          if offered \<and> b = [] then (ReadBlocks, p)
          else (ReadData (take k b), p\<lparr>p_pend := Some (n + length (take k b), drop k b, True)\<rparr>))"

text \<open>
  A \<open>Write\<close> in two steps. It begins by testing \<open>done\<close> and taking the writer's mutex
  (\<open>None\<close>: another write holds it, so this one waits). It ends when readers have taken
  everything or the pipe is closed.
\<close>

datatype write_result = WriteBlocks | WriteDone nat "go_error option"

definition write_begin :: "bytes \<Rightarrow> pipe \<Rightarrow> (write_result \<times> pipe) option" where
  "write_begin b p =
     (if p_done p then Some (WriteDone 0 (Some (write_close_error p)), p)
      else case p_pend p of
        None \<Rightarrow> Some (WriteBlocks, p\<lparr>p_pend := Some (0, b, False)\<rparr>)
      | Some _ \<Rightarrow> None)"

definition write_end :: "pipe \<Rightarrow> write_result \<times> pipe" where
  "write_end p =
     (case p_pend p of
        None \<Rightarrow> (WriteBlocks, p)
      | Some (n, b, offered) \<Rightarrow>
          if offered \<and> b = [] then (WriteDone n None, p\<lparr>p_pend := None\<rparr>)
          else if p_done p then (WriteDone n (Some (write_close_error p)), p\<lparr>p_pend := None\<rparr>)
          else (WriteBlocks, p))"

lemmas pipe_defs = pipe_new_def close_read_def close_write_def pipe_read_def write_begin_def
  write_end_def store_once_def

section \<open>Closing\<close>

lemma close_done [simp]: "p_done (close_read p)" "p_done (close_write p)"
  by (simp_all add: close_read_def close_write_def)

lemma close_pend [simp]: "p_pend (close_read p) = p_pend p" "p_pend (close_write p) = p_pend p"
  by (simp_all add: close_read_def close_write_def)

lemma read_closed [simp]: "p_done p \<Longrightarrow> pipe_read k p = (ReadErr (read_close_error p), p)"
  by (simp add: pipe_read_def)

lemma write_begin_closed [simp]:
  "p_done p \<Longrightarrow> write_begin b p = Some (WriteDone 0 (Some (write_close_error p)), p)"
  by (simp add: write_begin_def)

text \<open>
  An orderly end of input: only the writer's end was closed, so readers get \<open>io.EOF\<close>. Once
  the reader's end is closed as well, they get \<open>io.ErrClosedPipe\<close> instead.
\<close>

definition ends_in_eof :: "pipe \<Rightarrow> bool" where
  "ends_in_eof p \<longleftrightarrow> p_done p \<and> p_rerr p = None \<and> p_werr p = Some io_EOF"

lemma ends_in_eof_read: "ends_in_eof p \<Longrightarrow> fst (pipe_read k p) = ReadErr io_EOF"
  by (simp add: ends_in_eof_def read_close_error_def)

lemma close_read_error: "read_close_error (close_read p) = io_ErrClosedPipe" if "p_rerr p \<in> {None, Some io_ErrClosedPipe}"
  using that by (auto simp: read_close_error_def close_read_def store_once_def)

text \<open>The error slots only ever hold the errors the two closes store, and say whether \<open>done\<close> is closed.\<close>

definition pipe_ok :: "pipe \<Rightarrow> bool" where
  "pipe_ok p \<longleftrightarrow> p_rerr p \<in> {None, Some io_ErrClosedPipe} \<and> p_werr p \<in> {None, Some io_EOF} \<and>
     p_done p = (p_rerr p \<noteq> None \<or> p_werr p \<noteq> None)"

lemma pipe_ok_new [simp]: "pipe_ok pipe_new"
  by (simp add: pipe_ok_def pipe_new_def)

lemma pipe_ok_close [simp]: "pipe_ok p \<Longrightarrow> pipe_ok (close_read p)" "pipe_ok p \<Longrightarrow> pipe_ok (close_write p)"
  by (auto simp: pipe_ok_def close_read_def close_write_def store_once_def)

lemma close_slots [simp]:
  "p_werr (close_write p) \<noteq> None" "p_rerr (close_read p) \<noteq> None"
  "p_werr (close_read p) = p_werr p" "p_rerr (close_write p) = p_rerr p"
  by (simp_all add: close_read_def close_write_def store_once_def split: option.splits)

lemma close_keeps [simp]:
  "p_werr p = Some e \<Longrightarrow> p_werr (close_write p) = Some e"
  "p_rerr p = Some e \<Longrightarrow> p_rerr (close_read p) = Some e"
  by (simp_all add: close_read_def close_write_def store_once_def)

text \<open>Reads and writes leave the ends alone, and move bytes from the pending write to the reader.\<close>

definition same_ends :: "pipe \<Rightarrow> pipe \<Rightarrow> bool" where
  "same_ends p q \<longleftrightarrow> p_rerr q = p_rerr p \<and> p_werr q = p_werr p \<and> p_done q = p_done p"

definition pending_bytes :: "pipe \<Rightarrow> bytes" where
  "pending_bytes p = (case p_pend p of None \<Rightarrow> [] | Some (_, b, _) \<Rightarrow> b)"

lemma same_ends_refl [simp]: "same_ends p p"
  by (simp add: same_ends_def)

lemma same_endsD: "same_ends p q \<Longrightarrow> p_done q = p_done p \<and> p_rerr q = p_rerr p \<and>
    p_werr q = p_werr p \<and> pipe_ok q = pipe_ok p"
  by (simp add: pipe_ok_def same_ends_def)

lemma pending_close [simp]:
  "pending_bytes (close_read p) = pending_bytes p" "pending_bytes (close_write p) = pending_bytes p"
  by (simp_all add: pending_bytes_def)

lemma pipe_read_data:
  "pipe_read k p = (ReadData d, q) \<Longrightarrow>
   \<not> p_done p \<and> same_ends p q \<and> pending_bytes p = d @ pending_bytes q"
  by (auto simp: pipe_read_def pending_bytes_def same_ends_def split: option.splits if_splits)

lemma pipe_read_err: "pipe_read k p = (ReadErr e, q) \<Longrightarrow> p_done p \<and> q = p \<and> e = read_close_error p"
  by (auto simp: pipe_read_def split: option.splits if_splits)

lemma write_begin_wait:
  "write_begin b p = Some (WriteBlocks, q) \<Longrightarrow>
   \<not> p_done p \<and> same_ends p q \<and> pending_bytes p = [] \<and> pending_bytes q = b"
  by (auto simp: write_begin_def pending_bytes_def same_ends_def split: option.splits if_splits)

lemma write_begin_err: "write_begin b p = Some (WriteDone n e, q) \<Longrightarrow> p_done p \<and> q = p"
  by (auto simp: write_begin_def split: option.splits if_splits)

lemma write_end_done:
  "write_end p = (WriteDone n e, q) \<Longrightarrow>
   same_ends p q \<and> pending_bytes q = [] \<and> (p_done p \<or> pending_bytes p = [])"
  by (auto simp: write_end_def pending_bytes_def same_ends_def split: option.splits if_splits)

lemma same_ends_read: "same_ends p (snd (pipe_read k p))"
  by (simp add: same_ends_def pipe_read_def split: option.split)

lemma same_ends_write_begin: "write_begin d p = Some (r, q) \<Longrightarrow> same_ends p q"
  by (auto simp: same_ends_def write_begin_def split: option.splits if_splits)

lemma same_ends_write_end: "same_ends p (snd (write_end p))"
  by (simp add: same_ends_def write_end_def split: option.split)

section \<open>What every operation keeps\<close>

text \<open>
  The operations as one step function, with ghost fields for what was offered by accepted
  writes and what readers have received.
\<close>

datatype pipe_op = PRead nat | PBegin bytes | PEnd | PCloseRead | PCloseWrite

record pipe_hist =
  ph_pipe :: pipe
  ph_offered :: bytes
  ph_read :: bytes

definition hist_new :: pipe_hist where
  "hist_new = \<lparr>ph_pipe = pipe_new, ph_offered = [], ph_read = []\<rparr>"

fun pipe_step :: "pipe_op \<Rightarrow> pipe_hist \<Rightarrow> pipe_hist option" where
  "pipe_step (PRead k) h =
     (case pipe_read k (ph_pipe h) of
        (ReadBlocks, _) \<Rightarrow> None
      | (ReadData d, p) \<Rightarrow> Some (h\<lparr>ph_pipe := p, ph_read := ph_read h @ d\<rparr>)
      | (ReadErr _, p) \<Rightarrow> Some (h\<lparr>ph_pipe := p\<rparr>))"
| "pipe_step (PBegin b) h =
     (case write_begin b (ph_pipe h) of
        None \<Rightarrow> None
      | Some (WriteBlocks, p) \<Rightarrow> Some (h\<lparr>ph_pipe := p, ph_offered := ph_offered h @ b\<rparr>)
      | Some (WriteDone _ _, p) \<Rightarrow> Some (h\<lparr>ph_pipe := p\<rparr>))"
| "pipe_step PEnd h =
     (case write_end (ph_pipe h) of
        (WriteBlocks, _) \<Rightarrow> None
      | (WriteDone _ _, p) \<Rightarrow> Some (h\<lparr>ph_pipe := p\<rparr>))"
| "pipe_step PCloseRead h = Some (h\<lparr>ph_pipe := close_read (ph_pipe h)\<rparr>)"
| "pipe_step PCloseWrite h = Some (h\<lparr>ph_pipe := close_write (ph_pipe h)\<rparr>)"

text \<open>
  Until the pipe is closed, what was offered is what was read and what is still pending.
\<close>

definition hist_inv :: "pipe_hist \<Rightarrow> bool" where
  "hist_inv h \<longleftrightarrow>
     prefix (ph_read h) (ph_offered h) \<and>
     (\<not> p_done (ph_pipe h) \<longrightarrow> ph_offered h = ph_read h @ pending_bytes (ph_pipe h)) \<and>
     pipe_ok (ph_pipe h)"

lemma hist_inv_new: "hist_inv hist_new"
  by (simp add: hist_inv_def hist_new_def pending_bytes_def) (simp add: pipe_new_def)

lemma hist_inv_step:
  assumes inv: "hist_inv h" and st: "pipe_step e h = Some h'"
  shows "hist_inv h'"
proof (cases e)
  case (PRead k)
  then show ?thesis
    using inv st by (auto simp: hist_inv_def dest!: pipe_read_data pipe_read_err same_endsD
        split: prod.splits read_result.splits)
next
  case (PBegin b)
  then show ?thesis
    using inv st by (auto simp: hist_inv_def dest!: write_begin_wait write_begin_err same_endsD
        split: prod.splits option.splits write_result.splits)
next
  case PEnd
  then show ?thesis
    using inv st by (auto simp: hist_inv_def dest!: write_end_done same_endsD
        split: prod.splits write_result.splits)
qed (use inv st in \<open>auto simp: hist_inv_def\<close>)

definition hist_le :: "pipe_hist \<Rightarrow> pipe_hist \<Rightarrow> bool" where
  "hist_le h h' \<longleftrightarrow> prefix (ph_read h) (ph_read h') \<and>
     (p_done (ph_pipe h) \<longrightarrow> p_done (ph_pipe h') \<and> ph_read h' = ph_read h \<and> ph_offered h' = ph_offered h) \<and>
     (p_rerr (ph_pipe h) \<noteq> None \<longrightarrow> p_rerr (ph_pipe h') = p_rerr (ph_pipe h)) \<and>
     (p_werr (ph_pipe h) \<noteq> None \<longrightarrow> p_werr (ph_pipe h') = p_werr (ph_pipe h))"

lemma hist_le_step: "pipe_step e h = Some h' \<Longrightarrow> hist_le h h'"
  by (cases e) (auto simp: hist_le_def pipe_defs split: if_splits option.splits)

interpretation pipe_sys: monotone_system "\<lambda>h. h = hist_new" pipe_step hist_inv hist_le
proof unfold_locales
  show "h = hist_new \<Longrightarrow> hist_inv h" for h by (simp add: hist_inv_new)
  show "hist_inv h \<Longrightarrow> pipe_step e h = Some h' \<Longrightarrow> hist_inv h'" for h h' e by (rule hist_inv_step)
  show "hist_le h h" for h by (simp add: hist_le_def)
  show "hist_le h i \<Longrightarrow> hist_le i j \<Longrightarrow> hist_le h j" for h i j
    by (auto simp: hist_le_def intro: prefix_order.trans)
  show "hist_le h h'" if "hist_inv h" "pipe_step e h = Some h'" for h h' e
    using that(2) by (rule hist_le_step)
qed

lemma pipe_fifo: "run_events pipe_step es hist_new = Some h \<Longrightarrow> prefix (ph_read h) (ph_offered h)"
  using pipe_sys.run_inv [OF hist_inv_new, of es h]
  by (auto simp: hist_inv_def split: if_splits)

end
