(* ===== verification/Session.thy ===== *)
theory Session
  imports Proto Finbuf Pipe
begin

text \<open>
  \<open>internal/rest_impl/session.go\<close>: one process started over REST. The first half holds the
  methods of \<open>Session\<close> as functions on its state, each one critical section of the mutex or
  one operation of a channel, context or pipe; the second half is the system of goroutines
  that use a session: the one that runs the process and the requests that close it.
\<close>

section \<open>State\<close>

datatype stage = stageInit | stageRunning | stageFinished

text \<open>The stages are consecutive constants of a \<open>uint8\<close>.\<close>

fun stage_num :: "stage \<Rightarrow> nat" where
  "stage_num stageInit = 0"
| "stage_num stageRunning = 1"
| "stage_num stageFinished = 2"

lemma stage_num_inj: "stage_num a = stage_num b \<Longrightarrow> a = b"
  by (cases a; cases b) simp_all

instantiation stage :: linorder
begin

definition "a \<le> b \<longleftrightarrow> stage_num a \<le> stage_num b"

definition "(a::stage) < b \<longleftrightarrow> stage_num a < stage_num b"

instance
  by intro_classes (simp_all add: less_eq_stage_def less_stage_def less_le_not_le stage_num_inj linear)

end

lemma stage_le_simps [simp]: "stageInit \<le> x" "x \<le> stageFinished"
  by (simp_all add: less_eq_stage_def, cases x, simp_all)

lemma stage_le_from:
  "a \<le> b \<Longrightarrow> a \<noteq> stageInit \<Longrightarrow> b \<noteq> stageInit" "a \<le> b \<Longrightarrow> a = stageFinished \<Longrightarrow> b = stageFinished"
  by (cases a; cases b; simp add: less_eq_stage_def)+

record session_opts =
  so_MaxLines :: int

definition minMaxLines :: int where
  "minMaxLines = 1000"

definition session_SetDefaults :: "session_opts \<Rightarrow> session_opts" where
  "session_SetDefaults opt =
     (if so_MaxLines opt < minMaxLines then opt\<lparr>so_MaxLines := minMaxLines\<rparr> else opt)"

text \<open>
  \<open>ss_context\<close> is the session's own context, \<open>ss_cancel_set\<close> whether \<open>cancel\<close> is non-nil,
  \<open>ss_done\<close> whether the channel \<open>done\<close> is closed. \<open>inr\<close> and \<open>inw\<close> are the two ends of
  \<open>ss_pipe\<close>. The handler is part of the environment.
\<close>

record ('v, 'rb, 'lb) session =
  ss_stage :: stage
  ss_call :: call_message
  ss_context :: ctx
  ss_cancel_set :: bool
  ss_done :: bool
  ss_pipe :: pipe
  ss_out :: "('rb, 'lb) finbuf"
  ss_result :: "'v option"
  ss_err :: "go_error option"

definition session_zero :: "('rb, 'lb) buf_ops \<Rightarrow> ('v, 'rb, 'lb) session" where
  "session_zero ops = \<lparr>ss_stage = stageInit, ss_call = \<lparr>cm_call = [], cm_params = []\<rparr>,
     ss_context = None, ss_cancel_set = False, ss_done = False, ss_pipe = pipe_new,
     ss_out = fb_new ops 0, ss_result = None, ss_err = None\<rparr>"

section \<open>Methods\<close>

text \<open>\<open>parent\<close> is the server's context: a child of a cancelled context starts out cancelled.\<close>

definition session_Init :: "ctx \<Rightarrow> session_opts \<Rightarrow> ('v, 'rb, 'lb) session \<Rightarrow> ('v, 'rb, 'lb) session" where
  "session_Init parent opt s =
     (let opt = session_SetDefaults opt
      in s\<lparr>ss_out := (ss_out s)\<lparr>fb_MaxLines := so_MaxLines opt\<rparr>,
           ss_context := parent, ss_cancel_set := True,
           ss_done := False, ss_pipe := pipe_new\<rparr>)"

text \<open>\<open>Start\<close> answers whether it spawned the goroutine \<open>run\<close>.\<close>

definition session_Start :: "call_message \<Rightarrow> ('v, 'rb, 'lb) session \<Rightarrow> ('v, 'rb, 'lb) session \<times> bool" where
  "session_Start call s =
     (if ss_stage s \<noteq> stageInit then (s, False)
      else (s\<lparr>ss_stage := stageRunning, ss_call := call\<rparr>, True))"

definition errPanic :: go_error where
  "errPanic = Sentinel ''rest_impl.errPanic'' ''panic() in process''"

text \<open>
  The outcome of the inner closure of \<open>run\<close>: \<open>Get\<close> failed, \<open>Do\<close> returned, or one of them
  panicked (or ended the goroutine), in which case \<open>recovery.Recover\<close> may give an error.
\<close>

datatype 'v outcome = GetFailed go_error | DoReturned "'v option" "go_error option" | Panicked "go_error option"

text \<open>The values of \<open>res\<close> and \<open>err\<close> that the deferred function stores.\<close>

definition run_result :: "'v outcome \<Rightarrow> 'v option \<times> go_error option" where
  "run_result oc =
     (case oc of
        GetFailed e \<Rightarrow> (None, Some (Errorf ''failed to get process: '' e []))
      | DoReturned v e \<Rightarrow> (v, e)
      | Panicked r \<Rightarrow> (None, Some (case r of None \<Rightarrow> errPanic | Some e \<Rightarrow> e)))"

definition run_store :: "'v outcome \<Rightarrow> ('v, 'rb, 'lb) session \<Rightarrow> ('v, 'rb, 'lb) session" where
  "run_store oc s = s\<lparr>ss_result := fst (run_result oc), ss_err := snd (run_result oc),
     ss_stage := stageFinished\<rparr>"

definition session_cancel :: "go_error \<Rightarrow> ('v, 'rb, 'lb) session \<Rightarrow> ('v, 'rb, 'lb) session" where
  "session_cancel e s = s\<lparr>ss_context := cancel_with e (ss_context s)\<rparr>"

text \<open>\<open>CloseInput\<close> closes both ends, the writer's first; both closes return nil.\<close>

definition inw_Close :: "('v, 'rb, 'lb) session \<Rightarrow> ('v, 'rb, 'lb) session \<times> go_error option" where
  "inw_Close s = (s\<lparr>ss_pipe := close_write (ss_pipe s)\<rparr>, None)"

definition inr_Close :: "('v, 'rb, 'lb) session \<Rightarrow> ('v, 'rb, 'lb) session \<times> go_error option" where
  "inr_Close s = (s\<lparr>ss_pipe := close_read (ss_pipe s)\<rparr>, None)"

definition session_CloseInput :: "('v, 'rb, 'lb) session \<Rightarrow> ('v, 'rb, 'lb) session \<times> go_error option" where
  "session_CloseInput s =
     (let (s1, e1) = inw_Close s; (s2, e2) = inr_Close s1 in (s2, errors_Join [e1, e2]))"

text \<open>
  \<open>Write\<close> begins and ends with the write to the pipe. The result \<open>None\<close> of \<open>session_Write\<close>
  means that another write holds the pipe, \<open>WriteBlocks\<close> that this one waits for the reader.
\<close>

definition wrap_write :: "write_result \<Rightarrow> write_result" where
  "wrap_write r = (case r of
       WriteDone n (Some e) \<Rightarrow> WriteDone n (Some (Errorf ''failed to write input: '' e []))
     | _ \<Rightarrow> r)"

definition session_Write :: "bytes \<Rightarrow> ('v, 'rb, 'lb) session \<Rightarrow>
    (write_result \<times> ('v, 'rb, 'lb) session) option" where
  "session_Write data s =
     map_option (\<lambda>(r, p). (wrap_write r, s\<lparr>ss_pipe := p\<rparr>)) (write_begin data (ss_pipe s))"

definition session_Write_end :: "('v, 'rb, 'lb) session \<Rightarrow> write_result \<times> ('v, 'rb, 'lb) session" where
  "session_Write_end s =
     (let (r, p) = write_end (ss_pipe s) in (wrap_write r, s\<lparr>ss_pipe := p\<rparr>))"

text \<open>The select of \<open>Wait\<close>: the possible answers, none while both channels are open.\<close>

definition session_Wait :: "ctx \<Rightarrow> go_error \<Rightarrow> ('v, 'rb, 'lb) session \<Rightarrow> ('v option \<times> go_error option) list" where
  "session_Wait c ctx_err s =
     (if ss_done s then [(ss_result s, ss_err s)] else []) @
     (if c \<noteq> None then [(None, Some ctx_err)] else [])"

definition session_Stage :: "('v, 'rb, 'lb) session \<Rightarrow> bool \<times> bool" where
  "session_Stage s =
     (case ss_stage s of
        stageInit \<Rightarrow> (False, False)
      | stageRunning \<Rightarrow> (True, False)
      | stageFinished \<Rightarrow> (False, True))"

record 'v status =
  st_Buffer :: bytes
  st_Result :: "'v result option"

definition session_Status :: "('rb, 'lb) buf_ops \<Rightarrow> ('v, 'rb, 'lb) session \<Rightarrow>
    ('v, 'rb, 'lb) session \<times> 'v status" where
  "session_Status ops s =
     (case ss_stage s of
        stageInit \<Rightarrow> (s, \<lparr>st_Buffer = [], st_Result = None\<rparr>)
      | stageRunning \<Rightarrow>
          (let (fb, str) = fb_String ops (ss_out s)
           in (s\<lparr>ss_out := fb\<rparr>, \<lparr>st_Buffer = str, st_Result = None\<rparr>))
      | stageFinished \<Rightarrow>
          (let (fb, str) = fb_String ops (ss_out s)
           in (s\<lparr>ss_out := fb\<rparr>,
               \<lparr>st_Buffer = str, st_Result = Some \<lparr>Value = ss_result s, Reason = ss_err s\<rparr>\<rparr>)))"

text \<open>
  \<open>Status.MarshalJSON\<close>: an empty buffer is omitted. The raw result was made by
  \<open>json.Marshal\<close>, so it is compact already and the outer \<open>Marshal\<close> copies it.
\<close>

definition Status_MarshalJSON :: "('v \<Rightarrow> marshalled) \<Rightarrow> 'v status \<Rightarrow> bytes" where
  \<open>Status_MarshalJSON mj st =
     ''{'' @ (if st_Buffer st = [] then [] else ''"buffer":'' @ json_string (st_Buffer st) @ '','') @
     ''"result":'' @ Result_MarshalJSON mj (st_Result st) @ ''}''\<close>

interpretation session_cancel: cancellable ss_context session_cancel
  by unfold_locales (simp add: session_cancel_def)

section \<open>The goroutines around a session\<close>

text \<open>
  \<open>run\<close> is at one of these points; after the closure it runs its deferred calls, last one
  first: close the input, cancel the context, store the result, close \<open>done\<close>.
\<close>

datatype run_pc = RunNone | RunGet | RunDo | RunCloseIn | RunCancel | RunStore | RunCloseDone | RunEnd

text \<open>
  A request that calls \<open>CloseWith\<close> holds the read lock while it cancels and closes both ends
  of the input, then waits for \<open>done\<close>; one that calls \<open>CloseInput\<close> closes both ends.
\<close>

datatype client_pc =
    Idle
  | CW_locked go_error | CW_cancelled | CW_inw_closed | CW_wait | CW_returned
  | CI_inw_closed | CI_returned

record ('v, 'rb, 'lb) sess_sys =
  sy_s :: "('v, 'rb, 'lb) session"
  sy_run :: run_pc
  sy_outcome :: "'v outcome option"
  sy_clients :: "client_pc list"
  sy_gets :: nat  \<comment> \<open>calls of \<open>handler.Get\<close> so far\<close>
  sy_dos :: nat   \<comment> \<open>calls of \<open>process.Do\<close> so far\<close>

fun holds_rlock :: "client_pc \<Rightarrow> bool" where
  "holds_rlock (CW_locked e) = True"
| "holds_rlock CW_cancelled = True"
| "holds_rlock CW_inw_closed = True"
| "holds_rlock _ = False"

definition rlocked :: "('v, 'rb, 'lb) sess_sys \<Rightarrow> bool" where
  "rlocked y \<longleftrightarrow> list_ex holds_rlock (sy_clients y)"

text \<open>
  What can happen next: a request starts the session; \<open>Get\<close> or \<open>Do\<close> of the user's handler
  returns, panics, reads or writes; \<open>run\<close> does its next deferred call; the parent context is
  cancelled; client \<open>i\<close> calls \<open>CloseWith\<close> or \<open>CloseInput\<close> and moves on; a request writes
  input or asks for the status.
\<close>

datatype 'v sess_event =
    EStart call_message
  | EGetOk | EGetErr go_error | EPanic "go_error option"
  | EDoRead nat | EDoWrite bytes | EDoReturn "'v option" "go_error option"
  | ERun
  | EParentCancel go_error
  | ECloseWith nat go_error | ECloseInput nat | EClient nat
  | EWrite bytes | EWriteEnd | EStatus

definition end_closure :: "'v outcome \<Rightarrow> ('v, 'rb, 'lb) sess_sys \<Rightarrow> ('v, 'rb, 'lb) sess_sys" where
  "end_closure oc y = y\<lparr>sy_run := RunCloseIn, sy_outcome := Some oc\<rparr>"

text \<open>The next deferred call of \<open>run\<close>; storing the result needs the write lock.\<close>

definition run_step :: "('v, 'rb, 'lb) sess_sys \<Rightarrow> ('v, 'rb, 'lb) sess_sys option" where
  "run_step y =
     (case sy_run y of
        RunCloseIn \<Rightarrow> Some (y\<lparr>sy_s := fst (inw_Close (sy_s y)), sy_run := RunCancel\<rparr>)
      | RunCancel \<Rightarrow> Some (y\<lparr>sy_s := session_cancel ErrCancelHandlerReturn (sy_s y), sy_run := RunStore\<rparr>)
      | RunStore \<Rightarrow>
          (if rlocked y then None
           else (case sy_outcome y of
               None \<Rightarrow> None
             | Some oc \<Rightarrow> Some (y\<lparr>sy_s := run_store oc (sy_s y), sy_run := RunCloseDone\<rparr>)))
      | RunCloseDone \<Rightarrow> Some (y\<lparr>sy_s := (sy_s y)\<lparr>ss_done := True\<rparr>, sy_run := RunEnd\<rparr>)
      | _ \<Rightarrow> None)"

definition set_client :: "nat \<Rightarrow> client_pc \<Rightarrow> ('v, 'rb, 'lb) sess_sys \<Rightarrow> ('v, 'rb, 'lb) sess_sys" where
  "set_client i pc y = y\<lparr>sy_clients := (sy_clients y)[i := pc]\<rparr>"

definition client_step :: "nat \<Rightarrow> ('v, 'rb, 'lb) sess_sys \<Rightarrow> ('v, 'rb, 'lb) sess_sys option" where
  "client_step i y =
     (if i < length (sy_clients y) then
        (case sy_clients y ! i of
           CW_locked e \<Rightarrow>
             Some (set_client i CW_cancelled
               (if ss_cancel_set (sy_s y) then y\<lparr>sy_s := session_cancel e (sy_s y)\<rparr> else y))
         | CW_cancelled \<Rightarrow> Some (set_client i CW_inw_closed (y\<lparr>sy_s := fst (inw_Close (sy_s y))\<rparr>))
         | CW_inw_closed \<Rightarrow> Some (set_client i CW_wait (y\<lparr>sy_s := fst (inr_Close (sy_s y))\<rparr>))
         | CW_wait \<Rightarrow> (if ss_done (sy_s y) then Some (set_client i CW_returned y) else None)
         | CI_inw_closed \<Rightarrow> Some (set_client i CI_returned (y\<lparr>sy_s := fst (inr_Close (sy_s y))\<rparr>))
         | _ \<Rightarrow> None)
      else None)"

fun sess_step :: "('rb, 'lb) buf_ops \<Rightarrow> 'v sess_event \<Rightarrow> ('v, 'rb, 'lb) sess_sys \<Rightarrow>
    ('v, 'rb, 'lb) sess_sys option" where
  "sess_step ops (EStart call) y =
     (if rlocked y then None
      else (let (s, ok) = session_Start call (sy_s y)
            in Some (y\<lparr>sy_s := s, sy_run := (if ok then RunGet else sy_run y)\<rparr>)))"
| "sess_step ops EGetOk y =
     (if sy_run y = RunGet
      then Some (y\<lparr>sy_run := RunDo, sy_gets := Suc (sy_gets y), sy_dos := Suc (sy_dos y)\<rparr>) else None)"
| "sess_step ops (EGetErr e) y =
     (if sy_run y = RunGet
      then Some (end_closure (GetFailed e) (y\<lparr>sy_gets := Suc (sy_gets y)\<rparr>)) else None)"
| "sess_step ops (EPanic r) y =
     (if sy_run y = RunGet then Some (end_closure (Panicked r) (y\<lparr>sy_gets := Suc (sy_gets y)\<rparr>))
      else if sy_run y = RunDo then Some (end_closure (Panicked r) y) else None)"
| "sess_step ops (EDoRead k) y =
     (if sy_run y = RunDo then
        (case pipe_read k (ss_pipe (sy_s y)) of
           (ReadBlocks, _) \<Rightarrow> None
         | (_, p) \<Rightarrow> Some (y\<lparr>sy_s := (sy_s y)\<lparr>ss_pipe := p\<rparr>\<rparr>))
      else None)"
| "sess_step ops (EDoWrite d) y =
     (if sy_run y = RunDo
      then Some (y\<lparr>sy_s := (sy_s y)\<lparr>ss_out := fst (fb_Write ops d (ss_out (sy_s y)))\<rparr>\<rparr>) else None)"
| "sess_step ops (EDoReturn v e) y =
     (if sy_run y = RunDo then Some (end_closure (DoReturned v e) y) else None)"
| "sess_step ops ERun y = run_step y"
| "sess_step ops (EParentCancel e) y = Some (y\<lparr>sy_s := session_cancel e (sy_s y)\<rparr>)"
| "sess_step ops (ECloseWith i e) y =
     (if i < length (sy_clients y) \<and> sy_clients y ! i = Idle
      then Some (set_client i (CW_locked e) y) else None)"
| "sess_step ops (ECloseInput i) y =
     (if i < length (sy_clients y) \<and> sy_clients y ! i = Idle
      then Some (set_client i CI_inw_closed (y\<lparr>sy_s := fst (inw_Close (sy_s y))\<rparr>)) else None)"
| "sess_step ops (EClient i) y = client_step i y"
| "sess_step ops (EWrite d) y =
     map_option (\<lambda>(_, s). y\<lparr>sy_s := s\<rparr>) (session_Write d (sy_s y))"
| "sess_step ops EWriteEnd y =
     (case session_Write_end (sy_s y) of
        (WriteBlocks, _) \<Rightarrow> None
      | (_, s) \<Rightarrow> Some (y\<lparr>sy_s := s\<rparr>))"
| "sess_step ops EStatus y = Some (y\<lparr>sy_s := fst (session_Status ops (sy_s y))\<rparr>)"

text \<open>The system begins with an initialised session and any number of idle clients.\<close>

definition sess_start :: "('rb, 'lb) buf_ops \<Rightarrow> ('v, 'rb, 'lb) sess_sys \<Rightarrow> bool" where
  "sess_start ops y \<longleftrightarrow>
     (\<exists>parent opt n. y = \<lparr>sy_s = session_Init parent opt (session_zero ops), sy_run = RunNone,
        sy_outcome = None, sy_clients = replicate n Idle, sy_gets = 0, sy_dos = 0\<rparr>)"

abbreviation sess_reachable :: "('rb, 'lb) buf_ops \<Rightarrow> ('v, 'rb, 'lb) sess_sys \<Rightarrow> bool" where
  "sess_reachable ops \<equiv> reachable_in (sess_start ops) (sess_step ops)"

end
