(* ===== verification/SessionInv.thy ===== *)
theory SessionInv
  imports Session
begin

text \<open>
  The invariants of the goroutines around a session (control, input pipe, clients), the facts
  that never change back, and the properties of \<open>Session\<close> that follow from them.
\<close>

section \<open>The transitions, one rule each\<close>

text \<open>
  \<open>sess_trans\<close> lists what a step can change, without the data that invariants do not look
  at. Every step of the system is one of these transitions (\<open>sess_step_trans\<close>), so an
  invariant is proved by one case per rule.
\<close>

inductive sess_trans :: "('v, 'rb, 'lb) sess_sys \<Rightarrow> ('v, 'rb, 'lb) sess_sys \<Rightarrow> bool" where
  stutter: "sess_trans y y"
| start: "\<not> rlocked y \<Longrightarrow> ss_stage (sy_s y) = stageInit \<Longrightarrow>
    sess_trans y (y\<lparr>sy_s := (sy_s y)\<lparr>ss_stage := stageRunning, ss_call := c\<rparr>, sy_run := RunGet\<rparr>)"
| get_ok: "sy_run y = RunGet \<Longrightarrow>
    sess_trans y (y\<lparr>sy_run := RunDo, sy_gets := Suc (sy_gets y), sy_dos := Suc (sy_dos y)\<rparr>)"
| get_fail: "sy_run y = RunGet \<Longrightarrow>
    sess_trans y (y\<lparr>sy_gets := Suc (sy_gets y), sy_run := RunCloseIn, sy_outcome := Some oc\<rparr>)"
| do_end: "sy_run y = RunDo \<Longrightarrow>
    sess_trans y (y\<lparr>sy_run := RunCloseIn, sy_outcome := Some oc\<rparr>)"
| feed: "same_ends (ss_pipe (sy_s y)) p \<Longrightarrow> sess_trans y (y\<lparr>sy_s := (sy_s y)\<lparr>ss_pipe := p\<rparr>\<rparr>)"
| emit: "sess_trans y (y\<lparr>sy_s := (sy_s y)\<lparr>ss_out := fb\<rparr>\<rparr>)"
| run_close: "sy_run y = RunCloseIn \<Longrightarrow>
    sess_trans y (y\<lparr>sy_s := (sy_s y)\<lparr>ss_pipe := close_write (ss_pipe (sy_s y))\<rparr>, sy_run := RunCancel\<rparr>)"
| run_cancel: "sy_run y = RunCancel \<Longrightarrow>
    sess_trans y (y\<lparr>sy_s := session_cancel ErrCancelHandlerReturn (sy_s y), sy_run := RunStore\<rparr>)"
| run_store: "sy_run y = RunStore \<Longrightarrow> \<not> rlocked y \<Longrightarrow> sy_outcome y = Some oc \<Longrightarrow>
    sess_trans y (y\<lparr>sy_s := run_store oc (sy_s y), sy_run := RunCloseDone\<rparr>)"
| run_done: "sy_run y = RunCloseDone \<Longrightarrow>
    sess_trans y (y\<lparr>sy_s := (sy_s y)\<lparr>ss_done := True\<rparr>, sy_run := RunEnd\<rparr>)"
| parent: "sess_trans y (y\<lparr>sy_s := session_cancel e (sy_s y)\<rparr>)"
| cw_begin: "i < length (sy_clients y) \<Longrightarrow> sy_clients y ! i = Idle \<Longrightarrow>
    sess_trans y (y\<lparr>sy_clients := (sy_clients y)[i := CW_locked e]\<rparr>)"
| cw_cancel: "i < length (sy_clients y) \<Longrightarrow> sy_clients y ! i = CW_locked e \<Longrightarrow> ss_cancel_set (sy_s y) \<Longrightarrow>
    sess_trans y (y\<lparr>sy_s := session_cancel e (sy_s y), sy_clients := (sy_clients y)[i := CW_cancelled]\<rparr>)"
| cw_cancel_unset: "i < length (sy_clients y) \<Longrightarrow> sy_clients y ! i = CW_locked e \<Longrightarrow>
    \<not> ss_cancel_set (sy_s y) \<Longrightarrow> sess_trans y (y\<lparr>sy_clients := (sy_clients y)[i := CW_cancelled]\<rparr>)"
| cw_inw: "i < length (sy_clients y) \<Longrightarrow> sy_clients y ! i = CW_cancelled \<Longrightarrow>
    sess_trans y (y\<lparr>sy_s := (sy_s y)\<lparr>ss_pipe := close_write (ss_pipe (sy_s y))\<rparr>,
      sy_clients := (sy_clients y)[i := CW_inw_closed]\<rparr>)"
| cw_inr: "i < length (sy_clients y) \<Longrightarrow> sy_clients y ! i = CW_inw_closed \<Longrightarrow>
    sess_trans y (y\<lparr>sy_s := (sy_s y)\<lparr>ss_pipe := close_read (ss_pipe (sy_s y))\<rparr>,
      sy_clients := (sy_clients y)[i := CW_wait]\<rparr>)"
| cw_return: "i < length (sy_clients y) \<Longrightarrow> sy_clients y ! i = CW_wait \<Longrightarrow> ss_done (sy_s y) \<Longrightarrow>
    sess_trans y (y\<lparr>sy_clients := (sy_clients y)[i := CW_returned]\<rparr>)"
| ci_begin: "i < length (sy_clients y) \<Longrightarrow> sy_clients y ! i = Idle \<Longrightarrow>
    sess_trans y (y\<lparr>sy_s := (sy_s y)\<lparr>ss_pipe := close_write (ss_pipe (sy_s y))\<rparr>,
      sy_clients := (sy_clients y)[i := CI_inw_closed]\<rparr>)"
| ci_inr: "i < length (sy_clients y) \<Longrightarrow> sy_clients y ! i = CI_inw_closed \<Longrightarrow>
    sess_trans y (y\<lparr>sy_s := (sy_s y)\<lparr>ss_pipe := close_read (ss_pipe (sy_s y))\<rparr>,
      sy_clients := (sy_clients y)[i := CI_returned]\<rparr>)"

lemma run_step_trans: "run_step y = Some y' \<Longrightarrow> sess_trans y y'"
  by (auto simp: run_step_def inw_Close_def intro: sess_trans.intros
      split: run_pc.splits if_splits option.splits)

lemma client_step_trans: "client_step i y = Some y' \<Longrightarrow> sess_trans y y'"
  by (auto simp: client_step_def set_client_def inw_Close_def inr_Close_def intro: sess_trans.intros
      split: client_pc.splits if_splits)

lemma status_trans: "sess_trans y (y\<lparr>sy_s := fst (session_Status ops (sy_s y))\<rparr>)"
proof (cases "ss_stage (sy_s y)")
  case stageInit
  then show ?thesis by (simp add: session_Status_def stutter)
qed (simp_all add: session_Status_def Let_def case_prod_unfold emit)

lemma read_trans: "sess_step ops (EDoRead k) y = Some y' \<Longrightarrow> sess_trans y y'"
  using same_ends_read [of "ss_pipe (sy_s y)" k]
  by (cases "pipe_read k (ss_pipe (sy_s y))")
     (auto intro: feed split: if_splits read_result.splits)

lemma sess_step_trans: "sess_step ops e y = Some y' \<Longrightarrow> sess_trans y y'"
proof (cases e)
  case (EStart call)
  then show "sess_step ops e y = Some y' \<Longrightarrow> ?thesis"
    by (auto simp: session_Start_def intro: start stutter split: if_splits)
next
  case (EDoRead k)
  then show "sess_step ops e y = Some y' \<Longrightarrow> ?thesis" using read_trans by blast
next
  case (EWrite d)
  then show "sess_step ops e y = Some y' \<Longrightarrow> ?thesis"
    by (auto simp: session_Write_def intro: feed dest: same_ends_write_begin)
next
  case EWriteEnd
  then show "sess_step ops e y = Some y' \<Longrightarrow> ?thesis"
    using same_ends_write_end [of "ss_pipe (sy_s y)"]
    by (cases "write_end (ss_pipe (sy_s y))")
       (auto simp: session_Write_end_def Let_def intro: feed split: write_result.splits)
next
  case EStatus
  then show "sess_step ops e y = Some y' \<Longrightarrow> ?thesis" using status_trans by auto
qed (auto simp: end_closure_def set_client_def inw_Close_def
      intro: sess_trans.intros run_step_trans client_step_trans split: if_splits)

lemma session_fields [simp]:
  "ss_pipe (session_cancel e s) = ss_pipe s" "ss_pipe (run_store oc s) = ss_pipe s"
  "ss_stage (session_cancel e s) = ss_stage s" "ss_context (session_cancel e s) = cancel_with e (ss_context s)"
  "ss_done (session_cancel e s) = ss_done s" "ss_done (run_store oc s) = ss_done s"
  "ss_cancel_set (session_cancel e s) = ss_cancel_set s" "ss_cancel_set (run_store oc s) = ss_cancel_set s"
  "ss_result (session_cancel e s) = ss_result s" "ss_err (session_cancel e s) = ss_err s"
  "ss_stage (run_store oc s) = stageFinished" "ss_context (run_store oc s) = ss_context s"
  "ss_call (session_cancel e s) = ss_call s" "ss_call (run_store oc s) = ss_call s"
  by (simp_all add: session_cancel_def run_store_def)

section \<open>Control\<close>

text \<open>The stage, the channel \<open>done\<close> and the stored result follow the goroutine \<open>run\<close>.\<close>

fun run_ok :: "run_pc \<Rightarrow> ('v, 'rb, 'lb) sess_sys \<Rightarrow> bool" where
  "run_ok RunNone y = (ss_stage (sy_s y) = stageInit \<and> \<not> ss_done (sy_s y) \<and> sy_outcome y = None \<and>
     sy_gets y = 0 \<and> sy_dos y = 0)"
| "run_ok RunGet y = (ss_stage (sy_s y) = stageRunning \<and> \<not> ss_done (sy_s y) \<and> sy_outcome y = None \<and>
     sy_gets y = 0 \<and> sy_dos y = 0)"
| "run_ok RunDo y = (ss_stage (sy_s y) = stageRunning \<and> \<not> ss_done (sy_s y) \<and> sy_outcome y = None \<and>
     sy_gets y = 1 \<and> sy_dos y = 1)"
| "run_ok RunCloseIn y = (ss_stage (sy_s y) = stageRunning \<and> \<not> ss_done (sy_s y) \<and> sy_outcome y \<noteq> None \<and>
     sy_gets y = 1 \<and> sy_dos y \<le> 1)"
| "run_ok RunCancel y = (ss_stage (sy_s y) = stageRunning \<and> \<not> ss_done (sy_s y) \<and> sy_outcome y \<noteq> None \<and>
     sy_gets y = 1 \<and> sy_dos y \<le> 1)"
| "run_ok RunStore y = (ss_stage (sy_s y) = stageRunning \<and> \<not> ss_done (sy_s y) \<and> sy_outcome y \<noteq> None \<and>
     sy_gets y = 1 \<and> sy_dos y \<le> 1 \<and> ss_context (sy_s y) \<noteq> None)"
| "run_ok RunCloseDone y = (ss_stage (sy_s y) = stageFinished \<and> \<not> ss_done (sy_s y) \<and>
     sy_gets y = 1 \<and> sy_dos y \<le> 1 \<and> ss_context (sy_s y) \<noteq> None \<and>
     (\<exists>oc. sy_outcome y = Some oc \<and> (ss_result (sy_s y), ss_err (sy_s y)) = run_result oc))"
| "run_ok RunEnd y = (ss_stage (sy_s y) = stageFinished \<and> ss_done (sy_s y) \<and>
     sy_gets y = 1 \<and> sy_dos y \<le> 1 \<and> ss_context (sy_s y) \<noteq> None \<and>
     (\<exists>oc. sy_outcome y = Some oc \<and> (ss_result (sy_s y), ss_err (sy_s y)) = run_result oc))"

definition control_inv :: "('v, 'rb, 'lb) sess_sys \<Rightarrow> bool" where
  "control_inv y \<longleftrightarrow> run_ok (sy_run y) y \<and> ss_cancel_set (sy_s y)"

text \<open>The control invariant looks at the following fields only.\<close>

lemma control_inv_cong:
  assumes "control_inv y" "sy_run z = sy_run y" "sy_outcome z = sy_outcome y"
    "sy_gets z = sy_gets y" "sy_dos z = sy_dos y"
    "ss_stage (sy_s z) = ss_stage (sy_s y)" "ss_done (sy_s z) = ss_done (sy_s y)"
    "ss_result (sy_s z) = ss_result (sy_s y)" "ss_err (sy_s z) = ss_err (sy_s y)"
    "ss_cancel_set (sy_s z) = ss_cancel_set (sy_s y)"
    "ss_context (sy_s y) \<noteq> None \<longrightarrow> ss_context (sy_s z) \<noteq> None"
  shows "control_inv z"
  using assms by (cases "sy_run y") (simp_all add: control_inv_def)

lemma control_inv_running: "control_inv y \<Longrightarrow> ss_stage (sy_s y) = stageInit \<longleftrightarrow> sy_run y = RunNone"
  by (cases "sy_run y") (simp_all add: control_inv_def)

lemma control_inv_finished:
  "control_inv y \<Longrightarrow> ss_stage (sy_s y) = stageFinished \<longleftrightarrow> sy_run y \<in> {RunCloseDone, RunEnd}"
  by (cases "sy_run y") (simp_all add: control_inv_def)

lemma control_inv_trans: "sess_trans y y' \<Longrightarrow> control_inv y \<Longrightarrow> control_inv y'"
proof (induction rule: sess_trans.induct)
  case (start y c)
  then have "sy_run y = RunNone" by (simp add: control_inv_running)
  with start show ?case by (simp add: control_inv_def)
next
  case (parent y e)
  from parent show ?case by (rule control_inv_cong) simp_all
next
  case (feed y p)
  from feed(2) show ?case by (rule control_inv_cong) simp_all
next
  case (emit y fb)
  from emit show ?case by (rule control_inv_cong) simp_all
next
  case (cw_begin i y e)
  from cw_begin(3) show ?case by (rule control_inv_cong) simp_all
next
  case (cw_cancel i y e)
  from cw_cancel(4) show ?case by (rule control_inv_cong) simp_all
next
  case (cw_cancel_unset i y e)
  from cw_cancel_unset(4) show ?case by (rule control_inv_cong) simp_all
next
  case (cw_inw i y)
  from cw_inw(3) show ?case by (rule control_inv_cong) simp_all
next
  case (cw_inr i y)
  from cw_inr(3) show ?case by (rule control_inv_cong) simp_all
next
  case (cw_return i y)
  from cw_return(4) show ?case by (rule control_inv_cong) simp_all
next
  case (ci_begin i y)
  from ci_begin(3) show ?case by (rule control_inv_cong) simp_all
next
  case (ci_inr i y)
  from ci_inr(3) show ?case by (rule control_inv_cong) simp_all
qed (simp_all add: control_inv_def run_store_def)

section \<open>Input pipe and clients\<close>

definition ends_inv :: "('v, 'rb, 'lb) sess_sys \<Rightarrow> bool" where
  "ends_inv y \<longleftrightarrow> pipe_ok (ss_pipe (sy_s y)) \<and>
     (sy_run y \<in> {RunCancel, RunStore, RunCloseDone, RunEnd} \<longrightarrow> p_werr (ss_pipe (sy_s y)) \<noteq> None)"

lemma ends_inv_trans: "sess_trans y y' \<Longrightarrow> ends_inv y \<Longrightarrow> ends_inv y'"
proof (induction rule: sess_trans.induct)
  case (feed y p)
  then show ?case using same_endsD [of "ss_pipe (sy_s y)" p] by (simp add: ends_inv_def del: not_None_eq)
next
  case (start y c)
  then show ?case by (simp add: ends_inv_def)
qed (simp_all add: ends_inv_def del: not_None_eq)

text \<open>What each point of a client's call implies about the session.\<close>

fun client_ok :: "('v, 'rb, 'lb) session \<Rightarrow> client_pc \<Rightarrow> bool" where
  "client_ok s CW_cancelled = (ss_context s \<noteq> None)"
| "client_ok s CW_inw_closed = (ss_context s \<noteq> None \<and> p_werr (ss_pipe s) \<noteq> None)"
| "client_ok s CW_wait = (ss_context s \<noteq> None \<and> p_rerr (ss_pipe s) \<noteq> None)"
| "client_ok s CW_returned = (ss_context s \<noteq> None \<and> p_rerr (ss_pipe s) \<noteq> None \<and> ss_done s)"
| "client_ok s CI_inw_closed = (p_werr (ss_pipe s) \<noteq> None)"
| "client_ok s CI_returned = (p_rerr (ss_pipe s) \<noteq> None)"
| "client_ok s _ = True"

definition clients_inv :: "('v, 'rb, 'lb) sess_sys \<Rightarrow> bool" where
  "clients_inv y \<longleftrightarrow> list_all (client_ok (sy_s y)) (sy_clients y) \<and> ss_cancel_set (sy_s y)"

text \<open>What no step takes back.\<close>

definition keeps :: "'a option \<Rightarrow> 'a option \<Rightarrow> bool" where
  "keeps a b \<longleftrightarrow> (a \<noteq> None \<longrightarrow> b = a)"

lemma keeps_refl [simp]: "keeps a a"
  by (simp add: keeps_def)

lemma keeps_trans: "keeps a b \<Longrightarrow> keeps b c \<Longrightarrow> keeps a c"
  by (auto simp: keeps_def)

lemma keeps_cancel [simp]: "keeps c (cancel_with e c)"
  by (auto simp: keeps_def)

lemma keeps_close [simp]:
  "keeps (p_werr p) (p_werr (close_write p))" "keeps (p_rerr p) (p_rerr (close_read p))"
  by (auto simp: keeps_def)

definition sess_grows :: "('v, 'rb, 'lb) session \<Rightarrow> ('v, 'rb, 'lb) session \<Rightarrow> bool" where
  "sess_grows s t \<longleftrightarrow>
     ss_stage s \<le> ss_stage t \<and>
     (ss_done s \<longrightarrow> ss_done t) \<and>
     keeps (ss_context s) (ss_context t) \<and>
     keeps (p_rerr (ss_pipe s)) (p_rerr (ss_pipe t)) \<and>
     keeps (p_werr (ss_pipe s)) (p_werr (ss_pipe t)) \<and>
     (ss_stage s \<noteq> stageInit \<longrightarrow> ss_call t = ss_call s) \<and>
     (ss_stage s = stageFinished \<longrightarrow> ss_result t = ss_result s \<and> ss_err t = ss_err s)"

lemma sess_grows_refl [simp]: "sess_grows s s"
  by (simp add: sess_grows_def)

lemma sess_grows_trans:
  assumes "sess_grows s t" "sess_grows t u"
  shows "sess_grows s u"
proof -
  have "ss_stage s \<le> ss_stage u"
    using assms by (auto simp: sess_grows_def intro: order.trans)
  moreover have "ss_stage s \<noteq> stageInit \<longrightarrow> ss_call u = ss_call s"
    using assms stage_le_from(1) [of "ss_stage s" "ss_stage t"] by (auto simp: sess_grows_def)
  moreover have "ss_stage s = stageFinished \<longrightarrow> ss_result u = ss_result s \<and> ss_err u = ss_err s"
    using assms stage_le_from(2) [of "ss_stage s" "ss_stage t"] by (auto simp: sess_grows_def)
  moreover have "keeps (ss_context s) (ss_context u)"
    "keeps (p_rerr (ss_pipe s)) (p_rerr (ss_pipe u))" "keeps (p_werr (ss_pipe s)) (p_werr (ss_pipe u))"
    using assms unfolding sess_grows_def by (blast intro: keeps_trans)+
  ultimately show ?thesis using assms by (simp add: sess_grows_def)
qed

lemma sess_grows_pipe:
  "sess_grows s (s\<lparr>ss_pipe := close_write (ss_pipe s)\<rparr>)" "sess_grows s (s\<lparr>ss_pipe := close_read (ss_pipe s)\<rparr>)"
  "same_ends (ss_pipe s) p \<Longrightarrow> sess_grows s (s\<lparr>ss_pipe := p\<rparr>)"
  by (simp_all add: sess_grows_def same_ends_def)

lemma sess_grows_cancel: "sess_grows s (session_cancel e s)"
  by (simp add: sess_grows_def)

lemma sess_trans_grows: "sess_trans y y' \<Longrightarrow> control_inv y \<Longrightarrow> sess_grows (sy_s y) (sy_s y')"
proof (induction rule: sess_trans.induct)
  case (start y c)
  then show ?case by (simp add: sess_grows_def)
next
  case (run_store y oc)
  then have "ss_stage (sy_s y) = stageRunning" by (simp add: control_inv_def)
  then show ?case by (simp add: sess_grows_def)
next
  case (run_done y)
  then show ?case by (simp add: sess_grows_def)
next
  case (emit y fb)
  then show ?case by (simp add: sess_grows_def)
qed (simp_all add: sess_grows_pipe sess_grows_cancel)

lemma client_ok_grows: "sess_grows s t \<Longrightarrow> client_ok s pc \<Longrightarrow> client_ok t pc"
  by (cases pc) (auto simp: sess_grows_def keeps_def)

lemma clients_ok_grows:
  "sess_grows s t \<Longrightarrow> list_all (client_ok s) pcs \<Longrightarrow> list_all (client_ok t) pcs"
  by (auto simp: list_all_iff intro: client_ok_grows)

lemma clients_ok_update:
  "list_all (client_ok s) pcs \<Longrightarrow> client_ok s pc \<Longrightarrow> list_all (client_ok s) (pcs[i := pc])"
  by (auto simp: list_all_iff dest: set_update_subset_insert [THEN subsetD])

text \<open>The clients after a step: as before, or one of them moved on to a point that is right.\<close>

lemma sess_trans_clients:
  assumes "sess_trans y y'" "clients_inv y"
  shows "sy_clients y' = sy_clients y \<or>
    (\<exists>i pc. sy_clients y' = (sy_clients y)[i := pc] \<and> client_ok (sy_s y') pc)"
  using assms
proof (induction rule: sess_trans.induct)
  case (cw_inw i y)
  then have "client_ok (sy_s y) CW_cancelled" by (auto simp: clients_inv_def list_all_length)
  then show ?case by (intro disjI2 exI [of _ i] exI [of _ CW_inw_closed])
      (auto simp: close_write_def store_once_def split: option.splits)
next
  case (cw_inr i y)
  then have "client_ok (sy_s y) CW_inw_closed" by (auto simp: clients_inv_def list_all_length)
  then show ?case by (intro disjI2 exI [of _ i] exI [of _ CW_wait])
      (auto simp: close_read_def store_once_def split: option.splits)
next
  case (cw_return i y)
  then have "client_ok (sy_s y) CW_wait" by (auto simp: clients_inv_def list_all_length)
  with cw_return show ?case by (intro disjI2 exI [of _ i] exI [of _ CW_returned]) auto
next
  case (ci_begin i y)
  show ?case by (intro disjI2 exI [of _ i] exI [of _ CI_inw_closed])
      (auto simp: close_write_def store_once_def split: option.splits)
next
  case (ci_inr i y)
  show ?case by (intro disjI2 exI [of _ i] exI [of _ CI_returned])
      (auto simp: close_read_def store_once_def split: option.splits)
next
  case (cw_begin i y e)
  show ?case by (intro disjI2 exI [of _ i] exI [of _ "CW_locked e"]) simp
next
  case (cw_cancel i y e)
  show ?case by (intro disjI2 exI [of _ i] exI [of _ CW_cancelled]) (simp add: session_cancel_def)
next
  case (cw_cancel_unset i y e)
  then show ?case by (simp add: clients_inv_def)
qed simp_all

lemma clients_inv_trans:
  assumes "sess_trans y y'" "control_inv y" "clients_inv y"
  shows "clients_inv y'"
proof -
  have g: "sess_grows (sy_s y) (sy_s y')" using assms(1,2) by (rule sess_trans_grows)
  have "list_all (client_ok (sy_s y')) (sy_clients y)"
    using clients_ok_grows [OF g] assms(3) by (simp add: clients_inv_def)
  moreover have "ss_cancel_set (sy_s y')"
    using control_inv_trans [OF assms(1,2)] by (simp add: control_inv_def)
  ultimately show ?thesis
    using sess_trans_clients [OF assms(1,3)] by (auto simp: clients_inv_def intro: clients_ok_update)
qed

section \<open>The invariant of the system\<close>

definition sess_inv :: "('v, 'rb, 'lb) sess_sys \<Rightarrow> bool" where
  "sess_inv y \<longleftrightarrow> control_inv y \<and> ends_inv y \<and> clients_inv y"

lemma sess_inv_start: "sess_start ops y \<Longrightarrow> sess_inv y"
  by (auto simp: sess_start_def sess_inv_def control_inv_def ends_inv_def clients_inv_def
      session_Init_def session_zero_def Let_def list_all_iff)

definition sess_sys_grows :: "('v, 'rb, 'lb) sess_sys \<Rightarrow> ('v, 'rb, 'lb) sess_sys \<Rightarrow> bool" where
  "sess_sys_grows y z \<longleftrightarrow> sess_grows (sy_s y) (sy_s z)"

interpretation sess: monotone_system "sess_start ops" "sess_step ops" sess_inv sess_sys_grows
  for ops :: "('rb, 'lb) buf_ops"
proof unfold_locales
  show "sess_start ops y \<Longrightarrow> sess_inv y" for y :: "('v, 'rb, 'lb) sess_sys" by (rule sess_inv_start)
  show "sess_inv z" if "sess_inv y" "sess_step ops e y = Some z" for y z :: "('v, 'rb, 'lb) sess_sys" and e
    using that sess_step_trans [OF that(2)]
    by (auto simp: sess_inv_def intro: control_inv_trans ends_inv_trans clients_inv_trans)
  show "sess_sys_grows y y" for y :: "('v, 'rb, 'lb) sess_sys" by (simp add: sess_sys_grows_def)
  show "sess_sys_grows x y \<Longrightarrow> sess_sys_grows y z \<Longrightarrow> sess_sys_grows x z" for x y z :: "('v, 'rb, 'lb) sess_sys"
    unfolding sess_sys_grows_def by (rule sess_grows_trans)
  show "sess_sys_grows y z" if "sess_inv y" "sess_step ops e y = Some z" for y z :: "('v, 'rb, 'lb) sess_sys" and e
    using that sess_step_trans [OF that(2)] by (auto simp: sess_inv_def sess_sys_grows_def intro: sess_trans_grows)
qed

lemma reachable_inv_parts:
  assumes "sess_reachable ops y"
  shows "control_inv y" "ends_inv y" "clients_inv y"
  using sess.reachable_inv [OF assms] by (simp_all add: sess_inv_def)

lemma reachable_client_ok:
  "sess_reachable ops y \<Longrightarrow> i < length (sy_clients y) \<Longrightarrow> client_ok (sy_s y) (sy_clients y ! i)"
  using reachable_inv_parts(3) by (auto simp: clients_inv_def list_all_length)

lemma reachable_grows:
  "sess_reachable ops y \<Longrightarrow> run_events (sess_step ops) es y = Some z \<Longrightarrow> sess_grows (sy_s y) (sy_s z)"
  using sess.reachable_rel by (fastforce simp: sess_sys_grows_def)

section \<open>Finishing\<close>

text \<open>How many steps a client still has to take, and the clients that have none left.\<close>

fun cw_left :: "client_pc \<Rightarrow> nat" where
  "cw_left (CW_locked e) = 4"
| "cw_left CW_cancelled = 3"
| "cw_left CW_inw_closed = 2"
| "cw_left CW_wait = 1"
| "cw_left CI_inw_closed = 1"
| "cw_left _ = 0"

definition clients_left :: "('v, 'rb, 'lb) sess_sys \<Rightarrow> nat" where
  "clients_left y = sum_list (map cw_left (sy_clients y))"

fun internal :: "'v sess_event \<Rightarrow> bool" where
  "internal ERun = True"
| "internal (EClient i) = True"
| "internal _ = False"

definition same_run :: "('v, 'rb, 'lb) sess_sys \<Rightarrow> ('v, 'rb, 'lb) sess_sys \<Rightarrow> bool" where
  "same_run y z \<longleftrightarrow> sy_run z = sy_run y \<and> sy_outcome z = sy_outcome y \<and> ss_done (sy_s z) = ss_done (sy_s y)"

lemma sum_list_update_less:
  "i < length xs \<Longrightarrow> f v < (f (xs ! i) :: nat) \<Longrightarrow> sum_list (map f (xs[i := v])) < sum_list (map f xs)"
  by (induction xs arbitrary: i) (auto split: nat.splits)

lemma client_progress:
  assumes "i < length (sy_clients y)" "0 < cw_left (sy_clients y ! i)"
    "sy_clients y ! i = CW_wait \<longrightarrow> ss_done (sy_s y)"
  shows "\<exists>z. client_step i y = Some z \<and> same_run y z \<and> clients_left z < clients_left y"
  using assms
  by (cases "sy_clients y ! i")
     (simp_all add: client_step_def set_client_def same_run_def clients_left_def inw_Close_def
       inr_Close_def sum_list_update_less)

text \<open>Clients that hold the read lock give it up by their own steps.\<close>

lemma drain_locks:
  "\<exists>es z. list_all internal es \<and> run_events (sess_step ops) es y = Some z \<and> same_run y z \<and> \<not> rlocked z"
proof (induction "clients_left y" arbitrary: y rule: less_induct)
  case less
  show ?case
  proof (cases "rlocked y")
    case False
    then show ?thesis by (intro exI [of _ "[]"] exI [of _ y]) (simp add: same_run_def)
  next
    case True
    then obtain i where i: "i < length (sy_clients y)" "holds_rlock (sy_clients y ! i)"
      by (auto simp: rlocked_def list_ex_length)
    then have "0 < cw_left (sy_clients y ! i)" "sy_clients y ! i \<noteq> CW_wait"
      by (cases "sy_clients y ! i"; simp)+
    then obtain u where u: "client_step i y = Some u" "same_run y u" "clients_left u < clients_left y"
      using client_progress [OF i(1)] by blast
    from less [OF u(3)] obtain es z where "list_all internal es"
      "run_events (sess_step ops) es u = Some z" "same_run u z" "\<not> rlocked z" by blast
    with u show ?thesis
      by (intro exI [of _ "EClient i # es"] exI [of _ z]) (simp add: same_run_def)
  qed
qed

text \<open>Once \<open>done\<close> is closed, every client that began finishes.\<close>

lemma drain_clients:
  "ss_done (sy_s y) \<Longrightarrow> \<exists>es z. list_all internal es \<and> run_events (sess_step ops) es y = Some z \<and>
     ss_done (sy_s z) \<and> clients_left z = 0"
proof (induction "clients_left y" arbitrary: y rule: less_induct)
  case less
  show ?case
  proof (cases "clients_left y = 0")
    case True
    with less.prems show ?thesis by (intro exI [of _ "[]"] exI [of _ y]) simp
  next
    case False
    then obtain pc where "pc \<in> set (sy_clients y)" "0 < cw_left pc"
      by (auto simp: clients_left_def)
    then obtain i where i: "i < length (sy_clients y)" "0 < cw_left (sy_clients y ! i)"
      by (auto simp: in_set_conv_nth)
    then obtain u where u: "client_step i y = Some u" "same_run y u" "clients_left u < clients_left y"
      using client_progress [OF i] less.prems by blast
    from less.hyps [OF u(3)] less.prems u obtain es z where "list_all internal es"
      "run_events (sess_step ops) es u = Some z" "ss_done (sy_s z)" "clients_left z = 0"
      by (auto simp: same_run_def)
    with u show ?thesis by (intro exI [of _ "EClient i # es"] exI [of _ z]) simp
  qed
qed

text \<open>The deferred calls of \<open>run\<close>, from any of them on, when nobody holds the read lock.\<close>

lemma run_to_end:
  assumes "control_inv y" "\<not> rlocked y" "sy_run y \<in> {RunCloseIn, RunCancel, RunStore, RunCloseDone, RunEnd}"
  shows "\<exists>n z. run_events (sess_step ops) (replicate n ERun) y = Some z \<and> ss_done (sy_s z)"
proof -
  have fin: "\<exists>z. run_events (sess_step ops) [ERun] y = Some z \<and> ss_done (sy_s z)"
    if "sy_run y = RunCloseDone" for y :: "('a, 'b, 'c) sess_sys"
    using that by (simp add: run_step_def)
  have store: "\<exists>z. run_events (sess_step ops) [ERun, ERun] y = Some z \<and> ss_done (sy_s z)"
    if "sy_run y = RunStore" "control_inv y" "\<not> rlocked y" for y :: "('a, 'b, 'c) sess_sys"
    using that by (auto simp: run_step_def control_inv_def)
  have canc: "\<exists>z. run_events (sess_step ops) [ERun, ERun, ERun] y = Some z \<and> ss_done (sy_s z)"
    if "sy_run y = RunCancel" "control_inv y" "\<not> rlocked y" for y :: "('a, 'b, 'c) sess_sys"
    using that by (auto simp: run_step_def control_inv_def rlocked_def)
  have cls: "\<exists>z. run_events (sess_step ops) [ERun, ERun, ERun, ERun] y = Some z \<and> ss_done (sy_s z)"
    if "sy_run y = RunCloseIn" "control_inv y" "\<not> rlocked y" for y :: "('a, 'b, 'c) sess_sys"
    using that by (auto simp: run_step_def control_inv_def rlocked_def inw_Close_def)
  show ?thesis
  proof (cases "sy_run y")
    case RunEnd
    then have "ss_done (sy_s y)" using assms(1) by (simp add: control_inv_def)
    then show ?thesis by (intro exI [of _ 0] exI [of _ y]) simp
  next
    case RunCloseDone
    from fin [OF this] show ?thesis by (metis replicate_0 replicate_Suc)
  next
    case RunStore
    from store [OF this assms(1,2)] show ?thesis by (metis replicate_0 replicate_Suc)
  next
    case RunCancel
    from canc [OF this assms(1,2)] show ?thesis by (metis replicate_0 replicate_Suc)
  next
    case RunCloseIn
    from cls [OF this assms(1,2)] show ?thesis by (metis replicate_0 replicate_Suc)
  qed (use assms(3) in auto)
qed

lemma run_events_join:
  "run_events step es s = Some t \<Longrightarrow> run_events step fs t = Some u \<Longrightarrow> run_events step (es @ fs) s = Some u"
  by (simp add: run_events_append)

lemma finish_all:
  assumes r: "sess_reachable ops y"
    and pc: "sy_run y \<in> {RunCloseIn, RunCancel, RunStore, RunCloseDone, RunEnd}"
  shows "\<exists>es z. list_all internal es \<and> run_events (sess_step ops) es y = Some z \<and>
    ss_done (sy_s z) \<and> clients_left z = 0"
proof -
  obtain es1 u where u: "list_all internal es1" "run_events (sess_step ops) es1 y = Some u"
    "same_run y u" "\<not> rlocked u" using drain_locks by blast
  have "control_inv u" using reachable_inv_parts(1) run_events_reachable [OF r u(2)] by blast
  moreover have "sy_run u \<in> {RunCloseIn, RunCancel, RunStore, RunCloseDone, RunEnd}"
    using pc u(3) by (simp add: same_run_def)
  ultimately obtain n v where v: "run_events (sess_step ops) (replicate n ERun) u = Some v" "ss_done (sy_s v)"
    using run_to_end u(4) by blast
  obtain es2 z where z: "list_all internal es2" "run_events (sess_step ops) es2 v = Some z"
    "ss_done (sy_s z)" "clients_left z = 0" using drain_clients [OF v(2)] by blast
  have "run_events (sess_step ops) (es1 @ replicate n ERun @ es2) y = Some z"
    using u(2) v(1) z(2) by (metis run_events_join)
  moreover have "list_all internal (es1 @ replicate n ERun @ es2)"
    using u(1) z(1) by (auto simp: list_all_iff)
  ultimately show ?thesis using z by blast
qed

end
