(* ===== verification/SessionProps.thy ===== *)
theory SessionProps
  imports SessionInv
begin

text \<open>
  The properties of a REST session, from the invariants of \<open>SessionInv\<close>: its life cycle,
  what a client may rely on when \<open>CloseWith\<close> returns, which cancellation a process sees,
  what happens to its input, and that the goroutine \<open>run\<close> always finishes.
\<close>

section \<open>A session run used by the witnesses\<close>

text \<open>A session over the list buffers with \<open>n\<close> clients, before anything happened.\<close>

definition demo_start :: "nat \<Rightarrow> (nat, nat \<times> bytes list, bytes) sess_sys" where
  "demo_start n = \<lparr>sy_s = session_Init None \<lparr>so_MaxLines = 0\<rparr> (session_zero list_ops), sy_run = RunNone,
     sy_outcome = None, sy_clients = replicate n Idle, sy_gets = 0, sy_dos = 0\<rparr>"

definition demo_call :: call_message where
  "demo_call = \<lparr>cm_call = ''echo'', cm_params = []\<rparr>"

lemma demo_start_ok: "sess_start list_ops (demo_start n)"
  by (auto simp: sess_start_def demo_start_def)

lemma demo_start_reachable: "sess_reachable list_ops (demo_start n)"
  by (rule reach_start) (rule demo_start_ok)

lemma demo_reachable:
  "run_events (sess_step list_ops) es (demo_start n) = Some y \<Longrightarrow> sess_reachable list_ops y"
  by (rule run_events_reachable [OF demo_start_reachable])

lemmas demo_simps = demo_start_def demo_call_def session_Init_def session_zero_def session_Start_def
  end_closure_def run_step_def client_step_def set_client_def inw_Close_def inr_Close_def
  run_store_def rlocked_def run_result_def session_cancel_def Let_def

section \<open>Input\<close>

text \<open>
  What requests hand to the process and what it reads, gathered along a run: \<open>io_step\<close> adds
  the bytes of an accepted write and of a read that returned data.
\<close>

fun io_step :: "'v sess_event \<Rightarrow> ('v, 'rb, 'lb) sess_sys \<Rightarrow> bytes \<times> bytes \<Rightarrow> bytes \<times> bytes" where
  "io_step (EWrite d) y (off, rd) =
     (case session_Write d (sy_s y) of
        Some (WriteBlocks, _) \<Rightarrow> (off @ d, rd)
      | _ \<Rightarrow> (off, rd))"
| "io_step (EDoRead k) y (off, rd) =
     (case pipe_read k (ss_pipe (sy_s y)) of
        (ReadData d, _) \<Rightarrow> (off, rd @ d)
      | _ \<Rightarrow> (off, rd))"
| "io_step _ y io = io"

fun run_io :: "('rb, 'lb) buf_ops \<Rightarrow> 'v sess_event list \<Rightarrow> ('v, 'rb, 'lb) sess_sys \<Rightarrow>
    bytes \<times> bytes \<Rightarrow> bytes \<times> bytes" where
  "run_io ops [] y io = io"
| "run_io ops (e # es) y io =
     (case sess_step ops e y of None \<Rightarrow> io | Some z \<Rightarrow> run_io ops es z (io_step e y io))"

definition io_hist :: "('v, 'rb, 'lb) sess_sys \<Rightarrow> bytes \<times> bytes \<Rightarrow> pipe_hist" where
  "io_hist y io = \<lparr>ph_pipe = ss_pipe (sy_s y), ph_offered = fst io, ph_read = snd io\<rparr>"

text \<open>Every step of the session is at most two operations on its pipe.\<close>

lemma hist_inv_close:
  "hist_inv \<lparr>ph_pipe = p, ph_offered = a, ph_read = b\<rparr> \<Longrightarrow>
     hist_inv \<lparr>ph_pipe = close_write p, ph_offered = a, ph_read = b\<rparr>"
  "hist_inv \<lparr>ph_pipe = p, ph_offered = a, ph_read = b\<rparr> \<Longrightarrow>
     hist_inv \<lparr>ph_pipe = close_read p, ph_offered = a, ph_read = b\<rparr>"
  by (simp_all add: hist_inv_def)

lemma run_step_io: "run_step y = Some z \<Longrightarrow> hist_inv (io_hist y io) \<Longrightarrow> hist_inv (io_hist z io)"
  by (auto simp: run_step_def io_hist_def inw_Close_def hist_inv_close
      split: run_pc.splits if_splits option.splits)

lemma client_step_io: "client_step i y = Some z \<Longrightarrow> hist_inv (io_hist y io) \<Longrightarrow> hist_inv (io_hist z io)"
  by (auto simp: client_step_def set_client_def io_hist_def inw_Close_def inr_Close_def hist_inv_close
      split: client_pc.splits if_splits)

lemma write_io:
  assumes "sess_step ops (EWrite d) y = Some z" "hist_inv (io_hist y io)"
  shows "hist_inv (io_hist z (io_step (EWrite d) y io))"
proof -
  obtain r p where w: "write_begin d (ss_pipe (sy_s y)) = Some (r, p)"
    and z: "z = y\<lparr>sy_s := (sy_s y)\<lparr>ss_pipe := p\<rparr>\<rparr>"
    using assms(1) by (auto simp: session_Write_def)
  have "pipe_step (PBegin d) (io_hist y io) = Some (io_hist z (io_step (EWrite d) y io))"
    using w z by (cases io; cases r)
      (auto simp: io_hist_def session_Write_def wrap_write_def split: option.splits)
  then show ?thesis using assms(2) hist_inv_step by blast
qed

lemma read_io:
  assumes "sess_step ops (EDoRead k) y = Some z" "hist_inv (io_hist y io)"
  shows "hist_inv (io_hist z (io_step (EDoRead k) y io))"
proof -
  obtain r p where w: "pipe_read k (ss_pipe (sy_s y)) = (r, p)" "r \<noteq> ReadBlocks"
    and z: "z = y\<lparr>sy_s := (sy_s y)\<lparr>ss_pipe := p\<rparr>\<rparr>"
    using assms(1) by (auto split: if_splits read_result.splits prod.splits)
  have "pipe_step (PRead k) (io_hist y io) = Some (io_hist z (io_step (EDoRead k) y io))"
    using w z by (cases io; cases r) (auto simp: io_hist_def)
  then show ?thesis using assms(2) hist_inv_step by blast
qed

lemma write_end_io:
  assumes "sess_step ops EWriteEnd y = Some z" "hist_inv (io_hist y io)"
  shows "hist_inv (io_hist z io)"
proof -
  obtain r p where w: "write_end (ss_pipe (sy_s y)) = (r, p)" "r \<noteq> WriteBlocks"
    and z: "z = y\<lparr>sy_s := (sy_s y)\<lparr>ss_pipe := p\<rparr>\<rparr>"
    using assms(1) by (cases "write_end (ss_pipe (sy_s y))")
      (auto simp: session_Write_end_def wrap_write_def Let_def split: write_result.splits option.splits)
  have "pipe_step PEnd (io_hist y io) = Some (io_hist z io)"
    using w z by (cases r) (auto simp: io_hist_def)
  then show ?thesis using assms(2) hist_inv_step by blast
qed

lemma sess_step_io:
  assumes "sess_step ops e y = Some z" "hist_inv (io_hist y io)"
  shows "hist_inv (io_hist z (io_step e y io))"
proof (cases e)
  case (EWrite d)
  then show ?thesis using write_io assms by blast
next
  case (EDoRead k)
  then show ?thesis using read_io assms by blast
next
  case EWriteEnd
  then show ?thesis using write_end_io assms by (cases io) simp
next
  case ERun
  then show ?thesis using run_step_io assms by (cases io) simp
next
  case (EClient i)
  then show ?thesis using client_step_io assms by (cases io) simp
next
  case (ECloseInput i)
  then show ?thesis using assms
    by (cases io) (auto simp: io_hist_def set_client_def inw_Close_def hist_inv_close split: if_splits)
next
  case (EStart c)
  then show ?thesis using assms by (cases io) (auto simp: io_hist_def session_Start_def split: if_splits)
next
  case EStatus
  have "ss_pipe (fst (session_Status ops (sy_s y))) = ss_pipe (sy_s y)"
    by (simp add: session_Status_def Let_def case_prod_unfold split: stage.split)
  with EStatus show ?thesis using assms by (cases io) (auto simp: io_hist_def)
qed (use assms in \<open>cases io, auto simp: io_hist_def end_closure_def set_client_def split: if_splits\<close>)

lemma run_io_hist:
  "hist_inv (io_hist y io) \<Longrightarrow> run_events (sess_step ops) es y = Some z \<Longrightarrow>
   hist_inv (io_hist z (run_io ops es y io))"
proof (induction es arbitrary: y io)
  case (Cons e es)
  then obtain u where u: "sess_step ops e y = Some u" "run_events (sess_step ops) es u = Some z"
    by (auto split: option.splits)
  from Cons.IH [OF sess_step_io [OF u(1) Cons.prems(1)] u(2)] u(1) show ?case by simp
qed simp

lemma start_io_hist: "sess_start ops y \<Longrightarrow> hist_inv (io_hist y ([], []))"
  by (auto simp: sess_start_def io_hist_def session_Init_def hist_inv_def Let_def pending_bytes_def)
     (simp add: pipe_new_def)

section \<open>Properties\<close>

text \<open>
  Property C14. One session runs one process, once: \<open>Get\<close> is called at most once and \<open>Do\<close>
  only after it; the channel \<open>done\<close> is closed only in the final stage; and in the final
  stage the stored result and error are those of the closure, which are the error of \<open>Get\<close>
  wrapped, what \<open>Do\<close> returned, or the recovered panic.
\<close>

theorem session_lifecycle:
  assumes "sess_reachable ops y"
  shows "sy_gets y \<le> 1 \<and> sy_dos y \<le> sy_gets y \<and>
    (ss_done (sy_s y) \<longrightarrow> ss_stage (sy_s y) = stageFinished) \<and>
    (ss_stage (sy_s y) = stageFinished \<longrightarrow>
       (\<exists>oc. sy_outcome y = Some oc \<and> (ss_result (sy_s y), ss_err (sy_s y)) = run_result oc))"
  using reachable_inv_parts(1) [OF assms] by (cases "sy_run y") (auto simp: control_inv_def)

theorem session_lifecycle_witness:
  "\<exists>y. run_events (sess_step list_ops) [EStart demo_call, EGetErr ErrHandlerUnknownProcess, ERun, ERun, ERun, ERun]
      (demo_start 0) = Some y \<and>
    ss_done (sy_s y) \<and> ss_stage (sy_s y) = stageFinished \<and> sy_gets y = 1 \<and> sy_dos y = 0 \<and>
    ss_err (sy_s y) = Some (Errorf ''failed to get process: '' ErrHandlerUnknownProcess [])"
proof -
  obtain y where y: "run_events (sess_step list_ops)
      [EStart demo_call, EGetErr ErrHandlerUnknownProcess, ERun, ERun, ERun, ERun] (demo_start 0) = Some y"
    "ss_done (sy_s y)" "sy_gets y = 1" "sy_dos y = 0"
    "ss_err (sy_s y) = Some (Errorf ''failed to get process: '' ErrHandlerUnknownProcess [])"
    by (simp add: demo_simps)
  then show ?thesis using session_lifecycle [OF demo_reachable [OF y(1)]] by blast
qed

text \<open>
  A result is final: once the session reached its last stage, no later event
  (requests, cancellations, a second start, the goroutines still running) changes the stage, the
  call, the result or the error that a status reports.
\<close>

theorem session_result_final:
  assumes "sess_reachable ops y" and "ss_stage (sy_s y) = stageFinished"
    and "run_events (sess_step ops) es y = Some z"
  shows "ss_stage (sy_s z) = stageFinished \<and> ss_call (sy_s z) = ss_call (sy_s y) \<and>
    st_Result (snd (session_Status ops (sy_s z))) = st_Result (snd (session_Status ops (sy_s y)))"
proof -
  have g: "sess_grows (sy_s y) (sy_s z)" using reachable_grows [OF assms(1,3)] .
  then have "ss_stage (sy_s z) = stageFinished" using assms(2) stage_le_from(2) by (auto simp: sess_grows_def)
  with g assms(2) show ?thesis
    by (auto simp: sess_grows_def session_Status_def Let_def split: prod.splits)
qed

theorem session_result_final_witness:
  "\<exists>y z. run_events (sess_step list_ops) [EStart demo_call, EGetOk, EDoReturn (Some 7) None, ERun, ERun, ERun]
      (demo_start 1) = Some y \<and>
    run_events (sess_step list_ops) [ECloseWith 0 ErrCancelTimeout, EClient 0, ERun] y = Some z \<and>
    st_Result (snd (session_Status list_ops (sy_s z))) = Some \<lparr>Value = Some 7, Reason = None\<rparr>"
proof -
  obtain y where y: "run_events (sess_step list_ops)
      [EStart demo_call, EGetOk, EDoReturn (Some 7) None, ERun, ERun, ERun] (demo_start 1) = Some y"
    by (simp add: demo_simps)
  moreover have f: "ss_stage (sy_s y) = stageFinished"
      "st_Result (snd (session_Status list_ops (sy_s y))) = Some \<lparr>Value = Some 7, Reason = None\<rparr>"
    using y by (auto simp: demo_simps session_Status_def split: prod.splits)
  moreover obtain z where z: "run_events (sess_step list_ops)
      [ECloseWith 0 ErrCancelTimeout, EClient 0, ERun] y = Some z"
    using y by (auto simp: demo_simps)
  ultimately show ?thesis
    using session_result_final [OF demo_reachable [OF y] f(1) z] by auto
qed

text \<open>
  When \<open>CloseWith\<close> returns, the process is over and its result can be read:
  \<open>done\<close> is closed, the stage is final, the context is cancelled and the input is closed.
\<close>

theorem CloseWith_returns_after_end:
  assumes "sess_reachable ops y" and "i < length (sy_clients y)" and "sy_clients y ! i = CW_returned"
  shows "ss_done (sy_s y) \<and> ss_stage (sy_s y) = stageFinished \<and> ss_context (sy_s y) \<noteq> None \<and>
    p_done (ss_pipe (sy_s y)) \<and> session_Wait None e (sy_s y) = [(ss_result (sy_s y), ss_err (sy_s y))]"
proof -
  have ok: "ss_context (sy_s y) \<noteq> None" "p_rerr (ss_pipe (sy_s y)) \<noteq> None" "ss_done (sy_s y)"
    using reachable_client_ok [OF assms(1,2)] assms(3) by simp_all
  then have "sy_run y = RunEnd" "ss_stage (sy_s y) = stageFinished"
    using reachable_inv_parts(1) [OF assms(1)] by (cases "sy_run y"; simp add: control_inv_def)+
  moreover have "p_done (ss_pipe (sy_s y))"
    using ok reachable_inv_parts(2) [OF assms(1)] by (auto simp: ends_inv_def pipe_ok_def)
  ultimately show ?thesis using ok by (simp add: session_Wait_def)
qed

theorem CloseWith_returns_after_end_witness:
  "\<exists>y. run_events (sess_step list_ops) [EStart demo_call, EGetOk, ECloseWith 0 ErrCancelTimeout, EClient 0,
      EClient 0, EClient 0, EDoReturn None (Some ErrCancelTimeout), ERun, ERun, ERun, ERun, EClient 0]
      (demo_start 1) = Some y \<and> sy_clients y = [CW_returned] \<and>
    session_Wait None io_EOF (sy_s y) = [(None, Some ErrCancelTimeout)]"
proof -
  obtain y where y: "run_events (sess_step list_ops) [EStart demo_call, EGetOk,
      ECloseWith 0 ErrCancelTimeout, EClient 0, EClient 0, EClient 0, EDoReturn None (Some ErrCancelTimeout),
      ERun, ERun, ERun, ERun, EClient 0] (demo_start 1) = Some y" "sy_clients y = [CW_returned]"
    "ss_result (sy_s y) = None" "ss_err (sy_s y) = Some ErrCancelTimeout"
    by (simp add: demo_simps)
  then show ?thesis
    using CloseWith_returns_after_end [OF demo_reachable [OF y(1)], of 0 io_EOF] by auto
qed

text \<open>
  The first cancellation decides the cause the process sees: when a client that
  holds the read lock cancels a live session with \<open>e\<close>, the cause is \<open>e\<close> after every later
  event, whatever other clients, the parent context or the end of \<open>run\<close> cancel it with.
\<close>

theorem session_first_cancel_wins:
  assumes "sess_reachable ops y" and "i < length (sy_clients y)" and "sy_clients y ! i = CW_locked e"
    and "ss_context (sy_s y) = None" and "run_events (sess_step ops) (EClient i # es) y = Some z"
  shows "ss_context (sy_s z) = Some e"
proof -
  obtain u where u: "sess_step ops (EClient i) y = Some u" "run_events (sess_step ops) es u = Some z"
    using assms(5) by (auto split: option.splits)
  have "ss_cancel_set (sy_s y)" using reachable_inv_parts(1) [OF assms(1)] by (simp add: control_inv_def)
  with u(1) assms(2-4) have "ss_context (sy_s u) = Some e" by (auto simp: client_step_def set_client_def)
  moreover have "sess_grows (sy_s u) (sy_s z)"
    using reachable_grows [OF reach_step [OF assms(1) u(1)] u(2)] .
  ultimately show ?thesis by (simp add: sess_grows_def keeps_def)
qed

theorem session_first_cancel_wins_witness:
  "\<exists>y z. run_events (sess_step list_ops) [EStart demo_call, EGetOk, ECloseWith 0 ErrCancelTimeout,
      ECloseWith 1 ErrCancelClientRequest] (demo_start 2) = Some y \<and>
    run_events (sess_step list_ops) [EClient 0, EClient 1, EDoReturn None None, ERun, ERun] y = Some z \<and>
    ss_context (sy_s z) = Some ErrCancelTimeout"
proof -
  obtain y where y: "run_events (sess_step list_ops) [EStart demo_call, EGetOk,
      ECloseWith 0 ErrCancelTimeout, ECloseWith 1 ErrCancelClientRequest] (demo_start 2) = Some y"
    by (simp add: demo_simps numeral_2_eq_2)
  have "0 < length (sy_clients y)" "sy_clients y ! 0 = CW_locked ErrCancelTimeout" "ss_context (sy_s y) = None"
    using y by (auto simp: demo_simps numeral_2_eq_2)
  moreover obtain z where z: "run_events (sess_step list_ops)
      (EClient 0 # [EClient 1, EDoReturn None None, ERun, ERun]) y = Some z"
    using y by (auto simp: demo_simps numeral_2_eq_2)
  ultimately show ?thesis
    using session_first_cancel_wins [OF demo_reachable [OF y] _ _ _ z] y by blast
qed

text \<open>
  Property C15. A session always finishes once its process does: from every reachable state in
  which the closure has ended, in whatever way and with whatever clients in the middle of their
  calls, the remaining steps of \<open>run\<close> and of the clients alone lead to a state where \<open>done\<close>
  is closed and every client that called \<open>CloseWith\<close> or \<open>CloseInput\<close> has returned. No
  deferred call and no client can block another forever.
\<close>

theorem session_cleanup_completes:
  assumes "sess_reachable ops y" and "sy_run y \<in> {RunCloseIn, RunCancel, RunStore, RunCloseDone, RunEnd}"
  shows "\<exists>es z. list_all internal es \<and> run_events (sess_step ops) es y = Some z \<and>
    ss_done (sy_s z) \<and> clients_left z = 0"
  by (rule finish_all [OF assms])

theorem session_cleanup_completes_witness:
  "\<exists>y es z. run_events (sess_step list_ops) [EStart demo_call, EGetOk, ECloseWith 0 ErrCancelTimeout,
      EPanic None] (demo_start 1) = Some y \<and>
    list_all internal es \<and> run_events (sess_step list_ops) es y = Some z \<and>
    ss_done (sy_s z) \<and> clients_left z = 0"
proof -
  obtain y where y: "run_events (sess_step list_ops) [EStart demo_call, EGetOk,
      ECloseWith 0 ErrCancelTimeout, EPanic None] (demo_start 1) = Some y" "sy_run y = RunCloseIn"
    by (simp add: demo_simps)
  then show ?thesis using session_cleanup_completes [OF demo_reachable [OF y(1)]] by blast
qed

text \<open>
  Property C16. \<open>CloseInput\<close> closes the reader's end too, so a process never gets the end of
  file from it: after a client's \<open>CloseInput\<close> or \<open>CloseWith\<close> has gone through both closes,
  every read of the process fails with \<open>io.ErrClosedPipe\<close>, now and after any later events.
\<close>

theorem CloseInput_read_error:
  assumes "sess_reachable ops y" and "i < length (sy_clients y)"
    and "sy_clients y ! i \<in> {CI_returned, CW_wait, CW_returned}"
    and "run_events (sess_step ops) es y = Some z"
  shows "fst (pipe_read k (ss_pipe (sy_s z))) = ReadErr io_ErrClosedPipe"
proof -
  have "p_rerr (ss_pipe (sy_s y)) \<noteq> None"
    using reachable_client_ok [OF assms(1,2)] assms(3) by auto
  then have "p_rerr (ss_pipe (sy_s z)) \<noteq> None"
    using reachable_grows [OF assms(1,4)] by (simp add: sess_grows_def keeps_def)
  moreover have "pipe_ok (ss_pipe (sy_s z))"
    using reachable_inv_parts(2) [OF run_events_reachable [OF assms(1,4)]] by (simp add: ends_inv_def)
  ultimately show ?thesis by (auto simp: pipe_ok_def read_close_error_def)
qed

theorem CloseInput_read_error_witness:
  "\<exists>y. run_events (sess_step list_ops) [EStart demo_call, EGetOk, ECloseInput 0, EClient 0]
      (demo_start 1) = Some y \<and> sy_run y = RunDo \<and>
    fst (pipe_read 512 (ss_pipe (sy_s y))) = ReadErr io_ErrClosedPipe"
proof -
  obtain y where y: "run_events (sess_step list_ops) [EStart demo_call, EGetOk, ECloseInput 0, EClient 0]
      (demo_start 1) = Some y" "sy_run y = RunDo" "sy_clients y = [CI_returned]"
    by (simp add: demo_simps)
  then show ?thesis
    using CloseInput_read_error [OF demo_reachable [OF y(1)], of 0 "[]" y 512] by auto
qed

text \<open>
  Input is delivered in order and without gaps: what the process has read at any
  time is a prefix of what the accepted writes of all requests offered, in the order in which
  they began.
\<close>

theorem session_input_fifo:
  assumes "sess_start ops y" and "run_events (sess_step ops) es y = Some z"
  shows "prefix (snd (run_io ops es y ([], []))) (fst (run_io ops es y ([], [])))"
  using run_io_hist [OF start_io_hist [OF assms(1)] assms(2)] by (simp add: hist_inv_def io_hist_def)

theorem session_input_fifo_witness:
  "prefix (snd (run_io list_ops [EStart demo_call, EGetOk, EWrite ''abc'', EDoRead 2] (demo_start 0) ([], [])))
     (fst (run_io list_ops [EStart demo_call, EGetOk, EWrite ''abc'', EDoRead 2] (demo_start 0) ([], []))) \<and>
   run_io list_ops [EStart demo_call, EGetOk, EWrite ''abc'', EDoRead 2] (demo_start 0) ([], []) = (''abc'', ''ab'')"
proof -
  have "\<exists>z. run_events (sess_step list_ops) [EStart demo_call, EGetOk, EWrite ''abc'', EDoRead 2]
      (demo_start 0) = Some z"
    by (simp add: demo_simps session_Write_def pipe_defs wrap_write_def)
  then obtain z where "run_events (sess_step list_ops) [EStart demo_call, EGetOk, EWrite ''abc'', EDoRead 2]
      (demo_start 0) = Some z" by blast
  from session_input_fifo [OF demo_start_ok this] show ?thesis
    by (simp add: demo_simps session_Write_def pipe_defs wrap_write_def)
qed

text \<open>
  \<open>CloseWith\<close> on a session that was never started waits forever: as long as no
  request starts it, \<open>done\<close> stays open and no call of \<open>CloseWith\<close> returns.
\<close>

theorem CloseWith_needs_start:
  assumes "sess_reachable ops y" and "ss_stage (sy_s y) = stageInit"
    and "run_events (sess_step ops) es y = Some z" and "list_all (\<lambda>e. \<not> (\<exists>c. e = EStart c)) es"
  shows "\<not> ss_done (sy_s z) \<and> CW_returned \<notin> set (sy_clients z)"
proof -
  have step: "ss_stage (sy_s v) = stageInit"
    if "ss_stage (sy_s u) = stageInit" "sess_inv u" "sess_step ops e u = Some v" "\<not> (\<exists>c. e = EStart c)" for u v e
  proof -
    have n: "sy_run u = RunNone" using that(1,2) by (simp add: sess_inv_def control_inv_running)
    have "sy_run v = RunNone"
      using that(3,4) n
      by (cases e; cases "session_Write_end (sy_s u)")
        (auto simp: run_step_def client_step_def set_client_def
          split: client_pc.splits if_splits write_result.splits)
    moreover have "control_inv v" using sess.step_inv [OF that(2,3)] by (simp add: sess_inv_def)
    ultimately show ?thesis by (simp add: control_inv_running)
  qed
  have init: "ss_stage (sy_s z) = stageInit"
    using assms(2-4) sess.reachable_inv [OF assms(1)]
  proof (induction es arbitrary: y)
    case (Cons e es)
    from Cons.prems(2) obtain u where u: "sess_step ops e y = Some u" "run_events (sess_step ops) es u = Some z"
      by (auto split: option.splits)
    have "ss_stage (sy_s u) = stageInit"
      using step [OF Cons.prems(1) Cons.prems(4) u(1)] Cons.prems(3) by simp
    then show ?case
      using Cons.IH [OF _ u(2)] Cons.prems(3) sess.step_inv [OF Cons.prems(4) u(1)] by simp
  qed simp
  have z: "sess_reachable ops z" using run_events_reachable [OF assms(1,3)] .
  have nd: "\<not> ss_done (sy_s z)"
    using init reachable_inv_parts(1) [OF z] by (cases "sy_run z") (auto simp: control_inv_def)
  moreover have "CW_returned \<notin> set (sy_clients z)"
    using nd reachable_inv_parts(3) [OF z] by (auto simp: clients_inv_def list_all_iff)
  ultimately show ?thesis by simp
qed

theorem CloseWith_needs_start_witness:
  "\<exists>z. run_events (sess_step list_ops) [ECloseWith 0 ErrCancelTimeout, EClient 0, EClient 0, EClient 0]
      (demo_start 1) = Some z \<and> sy_clients z = [CW_wait] \<and> \<not> ss_done (sy_s z)"
proof -
  obtain z where z: "run_events (sess_step list_ops)
      [ECloseWith 0 ErrCancelTimeout, EClient 0, EClient 0, EClient 0] (demo_start 1) = Some z"
    "sy_clients z = [CW_wait]"
    by (simp add: demo_simps)
  have i: "ss_stage (sy_s (demo_start 1)) = stageInit" by (simp add: demo_simps)
  show ?thesis
    using CloseWith_needs_start [OF demo_start_reachable i z(1)] z by simp
qed

end
