(* ===== verification/Vapor.thy ===== *)
theory Vapor
  imports Prelude
begin

text \<open>
  \<open>internal/vapor/vapor.go\<close>: elements that disappear after a while. The store itself is
  \<open>ttlcache\<close>, a third-party package: it is the record \<open>cache_ops\<close> of operations here and
  \<open>cache_laws\<close> states what its documentation promises. The entries live in a heap, so that an
  entry keeps its identity when the cache evicts it; what evictions do happens later, on
  goroutines of the cache, and is a list of pending callbacks in the system of this theory.
\<close>

section \<open>The third-party cache\<close>

datatype eviction_reason =
    EvictionReasonDeleted | EvictionReasonCapacityReached | EvictionReasonExpired
  | EvictionReasonMaxCostExceeded

text \<open>
  Operations take the time at which they look at the clock. Values are addresses of entries.
  Evictions are reported as pairs of a reason and the value, for the \<open>OnEviction\<close> callback.
\<close>

record 'c cache_ops =
  tc_New :: 'c
  tc_GetOrSet :: "int \<Rightarrow> bytes \<Rightarrow> nat \<Rightarrow> int \<Rightarrow> 'c \<Rightarrow> 'c \<times> nat \<times> bool"
    \<comment> \<open>time, key, value, \<open>WithTTL\<close>; with \<open>WithDisableTouchOnHit\<close>\<close>
  tc_Get :: "bool \<Rightarrow> int \<Rightarrow> bytes \<Rightarrow> 'c \<Rightarrow> 'c \<times> nat option"
    \<comment> \<open>whether a hit touches the item, time, key\<close>
  tc_Delete :: "bytes \<Rightarrow> 'c \<Rightarrow> 'c \<times> (eviction_reason \<times> nat) list"
  tc_DeleteAll :: "'c \<Rightarrow> 'c \<times> (eviction_reason \<times> nat) list"
  tc_DeleteExpired :: "int \<Rightarrow> 'c \<Rightarrow> 'c \<times> (eviction_reason \<times> nat) list"
  tc_Keys :: "int \<Rightarrow> 'c \<Rightarrow> bytes list"

text \<open>An item: the value, its time to live, and when it expires (\<open>None\<close> for never).\<close>

type_synonym item = "nat \<times> int \<times> int option"

definition unexpired :: "int \<Rightarrow> item \<Rightarrow> bool" where
  "unexpired now it = (case it of (e, d, x) \<Rightarrow> (case x of None \<Rightarrow> True | Some t \<Rightarrow> now \<le> t))"

definition touch_item :: "int \<Rightarrow> item \<Rightarrow> item" where
  "touch_item now it = (case it of (e, d, x) \<Rightarrow> (e, d, if 0 < d then Some (now + d) else x))"

definition lookup_live :: "int \<Rightarrow> (bytes \<rightharpoonup> item) \<Rightarrow> bytes \<rightharpoonup> item" where
  "lookup_live now m k = (case m k of None \<Rightarrow> None | Some it \<Rightarrow> if unexpired now it then Some it else None)"

text \<open>The callbacks for the items of some keys, all evicted for one reason.\<close>

definition evictions :: "eviction_reason \<Rightarrow> (bytes \<rightharpoonup> item) \<Rightarrow> bytes list \<Rightarrow> (eviction_reason \<times> nat) list" where
  "evictions r m ks = map (\<lambda>k. (r, fst (the (m k)))) ks"

definition evicts_exactly ::
  "eviction_reason \<Rightarrow> (bytes \<rightharpoonup> item) \<Rightarrow> bytes set \<Rightarrow> (eviction_reason \<times> nat) list \<Rightarrow> bool" where
  "evicts_exactly r m S evs \<longleftrightarrow> (\<exists>ks. distinct ks \<and> set ks = S \<and> evs = evictions r m ks)"

text \<open>
  What the package documents: \<open>GetOrSet\<close> sets only what is not there, a touching \<open>Get\<close>
  restarts the time to live, \<open>Delete\<close> and its relatives evict each item once with the right
  reason, and \<open>Keys\<close> has every unexpired key.
\<close>

definition get_or_set_law :: "'c cache_ops \<Rightarrow> ('c \<Rightarrow> bytes \<rightharpoonup> item) \<Rightarrow> bool" where
  "get_or_set_law ops items \<longleftrightarrow>
     (\<forall>now k e d c. case tc_GetOrSet ops now k e d c of (c', e', found) \<Rightarrow>
        (case lookup_live now (items c) k of
           Some it \<Rightarrow> found \<and> e' = fst it \<and> items c' = items c
         | None \<Rightarrow> \<not> found \<and> e' = e \<and>
             (\<exists>x. items c' = (items c)(k \<mapsto> (e, d, x)) \<and> (0 < d \<longrightarrow> x = Some (now + d)))))"

definition get_law :: "'c cache_ops \<Rightarrow> ('c \<Rightarrow> bytes \<rightharpoonup> item) \<Rightarrow> bool" where
  "get_law ops items \<longleftrightarrow>
     (\<forall>t now k c. case tc_Get ops t now k c of (c', r) \<Rightarrow>
        (case lookup_live now (items c) k of
           Some it \<Rightarrow> r = Some (fst it) \<and>
             items c' = (if t then (items c)(k \<mapsto> touch_item now it) else items c)
         | None \<Rightarrow> r = None \<and> items c' = items c))"

definition delete_law :: "'c cache_ops \<Rightarrow> ('c \<Rightarrow> bytes \<rightharpoonup> item) \<Rightarrow> bool" where
  "delete_law ops items \<longleftrightarrow>
     (\<forall>k c. case tc_Delete ops k c of (c', evs) \<Rightarrow> items c' = (items c)(k := None) \<and>
        evs = evictions EvictionReasonDeleted (items c) (if items c k = None then [] else [k]))"

definition delete_all_law :: "'c cache_ops \<Rightarrow> ('c \<Rightarrow> bytes \<rightharpoonup> item) \<Rightarrow> bool" where
  "delete_all_law ops items \<longleftrightarrow>
     (\<forall>c. case tc_DeleteAll ops c of (c', evs) \<Rightarrow> items c' = Map.empty \<and>
        evicts_exactly EvictionReasonDeleted (items c) (dom (items c)) evs)"

definition delete_expired_law :: "'c cache_ops \<Rightarrow> ('c \<Rightarrow> bytes \<rightharpoonup> item) \<Rightarrow> bool" where
  "delete_expired_law ops items \<longleftrightarrow>
     (\<forall>now c. case tc_DeleteExpired ops now c of (c', evs) \<Rightarrow>
        items c' = lookup_live now (items c) \<and>
        evicts_exactly EvictionReasonExpired (items c)
          {k \<in> dom (items c). lookup_live now (items c) k = None} evs)"

definition keys_law :: "'c cache_ops \<Rightarrow> ('c \<Rightarrow> bytes \<rightharpoonup> item) \<Rightarrow> bool" where
  "keys_law ops items \<longleftrightarrow>
     (\<forall>now c. dom (lookup_live now (items c)) \<subseteq> set (tc_Keys ops now c))"

definition cache_laws :: "'c cache_ops \<Rightarrow> ('c \<Rightarrow> bytes \<rightharpoonup> item) \<Rightarrow> bool" where
  "cache_laws ops items \<longleftrightarrow> items (tc_New ops) = Map.empty \<and> get_or_set_law ops items \<and>
     get_law ops items \<and> delete_law ops items \<and> delete_all_law ops items \<and>
     delete_expired_law ops items \<and> keys_law ops items"

section \<open>Vapor\<close>

datatype FinalizeReason = FinalizeReasonDeleted | FinalizeReasonExpired

text \<open>\<open>en_once\<close> is whether the \<open>sync.Once\<close> of the entry has run.\<close>

record 't vap_entry =
  en_once :: bool
  en_value :: 't

text \<open>The functions a user of \<open>Vapor\<close> sets: whether each is non-nil, and what \<open>Initialize\<close> does.\<close>

record 't vap_conf =
  vc_zero :: 't
  vc_Initialize :: "('t \<Rightarrow> 't) option"
  vc_Finalize :: bool

record ('c, 't) vapor =
  vp_stopped :: bool
  vp_inited :: bool
  vp_started :: bool
  vp_cache :: 'c
  vp_heap :: "'t vap_entry list"

definition vapor_zero :: "'c cache_ops \<Rightarrow> ('c, 't) vapor" where
  "vapor_zero ops = \<lparr>vp_stopped = False, vp_inited = False, vp_started = False, vp_cache = tc_New ops,
     vp_heap = []\<rparr>"

definition maxNewIDCalls :: nat where
  "maxNewIDCalls = 1000"

definition errNoID :: go_error where
  "errNoID = Sentinel ''vapor.errNoID''
     ''Vapor: MakeID did not produce a new unique id after being called 1000 times''"

definition errNewIDNil :: go_error where
  "errNewIDNil = Sentinel ''vapor.errNewIDNil'' ''Vapor: MakeID is nil''"

definition errStopped :: go_error where
  "errStopped = Sentinel ''vapor.errStopped'' ''Vapor: No longer accepting new elements''"

definition errNotFound :: go_error where
  "errNotFound = Sentinel ''vapor.errNotFound'' ''Get: ID not found (is it expired?)''"

text \<open>\<open>start\<close>: the cache is created once; \<open>vp_started\<close> is whether its cleaning goroutine runs.\<close>

definition vapor_start :: "'c cache_ops \<Rightarrow> ('c, 't) vapor \<Rightarrow> ('c, 't) vapor" where
  "vapor_start ops v =
     (let v = (if vp_inited v then v else v\<lparr>vp_cache := tc_New ops, vp_inited := True\<rparr>)
      in if vp_started v then v else v\<lparr>vp_started := True\<rparr>)"

definition vapor_stop :: "'c cache_ops \<Rightarrow> ('c, 't) vapor \<Rightarrow> ('c, 't) vapor \<times> (eviction_reason \<times> nat) list" where
  "vapor_stop ops v =
     (if \<not> vp_started v then (v, [])
      else (let (c, evs) = tc_DeleteAll ops (vp_cache v)
            in (v\<lparr>vp_cache := c, vp_started := False\<rparr>, evs)))"

text \<open>The function \<open>start\<close> registers for evictions: the reason it finalizes with, or a panic.\<close>

fun finalize_reason :: "eviction_reason \<Rightarrow> FinalizeReason option" where
  "finalize_reason EvictionReasonDeleted = Some FinalizeReasonDeleted"
| "finalize_reason EvictionReasonExpired = Some FinalizeReasonExpired"
| "finalize_reason EvictionReasonCapacityReached = None"
| "finalize_reason EvictionReasonMaxCostExceeded = None"

definition vapor_initItem :: "'t vap_conf \<Rightarrow> nat \<Rightarrow> ('c, 't) vapor \<Rightarrow> ('c, 't) vapor" where
  "vapor_initItem cf e v =
     (let en = vp_heap v ! e
      in if en_once en then v
         else v\<lparr>vp_heap := (vp_heap v)[e := \<lparr>en_once = True, en_value =
                  (case vc_Initialize cf of None \<Rightarrow> en_value en | Some f \<Rightarrow> f (en_value en))\<rparr>]\<rparr>)"

text \<open>
  One round of the loop in \<open>newEntry\<close>, for the id that \<open>NewID\<close> returned: the check of
  \<open>stopped\<close> and \<open>GetOrSet\<close> are one critical section of \<open>stoppedM\<close>.
\<close>

datatype try_result = TryAgain | TryStopped | TryGot nat

definition newEntry_try :: "'c cache_ops \<Rightarrow> 't vap_conf \<Rightarrow> int \<Rightarrow> bytes \<Rightarrow> int \<Rightarrow> ('c, 't) vapor \<Rightarrow>
    ('c, 't) vapor \<times> try_result" where
  "newEntry_try ops cf now key d v =
     (if key = [] then (v, TryAgain)
      else if vp_stopped v then (v, TryStopped)
      else (let (c, e, found) = tc_GetOrSet ops now key (length (vp_heap v)) d (vp_cache v);
                v' = v\<lparr>vp_cache := c, vp_heap := vp_heap v @ [\<lparr>en_once = False, en_value = vc_zero cf\<rparr>]\<rparr>
            in if found then (v', TryAgain) else (v', TryGot e)))"

text \<open>The loop; each round has the time and the id of its call of \<open>NewID\<close>.\<close>

fun newEntry_loop :: "'c cache_ops \<Rightarrow> 't vap_conf \<Rightarrow> (int \<times> bytes) list \<Rightarrow> int \<Rightarrow> ('c, 't) vapor \<Rightarrow>
    ('c, 't) vapor \<times> (go_error + bytes \<times> nat)" where
  "newEntry_loop ops cf [] d v = (v, Inl errNoID)"
| "newEntry_loop ops cf ((now, key) # calls) d v =
     (case newEntry_try ops cf now key d v of
        (v', TryAgain) \<Rightarrow> newEntry_loop ops cf calls d v'
      | (v', TryStopped) \<Rightarrow> (v', Inl errStopped)
      | (v', TryGot e) \<Rightarrow> (v', Inr (key, e)))"

definition vapor_newEntry :: "'c cache_ops \<Rightarrow> 't vap_conf \<Rightarrow> (nat \<Rightarrow> int \<times> bytes) option \<Rightarrow> int \<Rightarrow>
    ('c, 't) vapor \<Rightarrow> ('c, 't) vapor \<times> (go_error + bytes \<times> nat)" where
  "vapor_newEntry ops cf NewID d v =
     (let v = vapor_start ops v
      in case NewID of
           None \<Rightarrow> (v, Inl errNewIDNil)
         | Some f \<Rightarrow> newEntry_loop ops cf (map f [0..<maxNewIDCalls]) d v)"

definition vapor_New :: "'c cache_ops \<Rightarrow> 't vap_conf \<Rightarrow> (nat \<Rightarrow> int \<times> bytes) option \<Rightarrow> int \<Rightarrow>
    ('c, 't) vapor \<Rightarrow> ('c, 't) vapor \<times> (go_error + bytes)" where
  "vapor_New ops cf NewID d v =
     (case vapor_newEntry ops cf NewID d v of
        (v', Inl err) \<Rightarrow> (v', Inl err)
      | (v', Inr (key, e)) \<Rightarrow> (v', Inr key))"

definition vapor_GetNew :: "'c cache_ops \<Rightarrow> 't vap_conf \<Rightarrow> (nat \<Rightarrow> int \<times> bytes) option \<Rightarrow> int \<Rightarrow>
    ('c, 't) vapor \<Rightarrow> ('c, 't) vapor \<times> (go_error + bytes \<times> nat)" where
  "vapor_GetNew ops cf NewID d v =
     (case vapor_newEntry ops cf NewID d v of
        (v', Inl err) \<Rightarrow> (v', Inl err)
      | (v', Inr (key, e)) \<Rightarrow> (vapor_initItem cf e v', Inr (key, e)))"

definition vapor_Get :: "'c cache_ops \<Rightarrow> 't vap_conf \<Rightarrow> int \<Rightarrow> bytes \<Rightarrow> ('c, 't) vapor \<Rightarrow>
    ('c, 't) vapor \<times> (go_error + nat)" where
  "vapor_Get ops cf now key v =
     (let v = vapor_start ops v; (c, r) = tc_Get ops True now key (vp_cache v); v = v\<lparr>vp_cache := c\<rparr>
      in case r of
           None \<Rightarrow> (v, Inl errNotFound)
         | Some e \<Rightarrow> (vapor_initItem cf e v, Inr e))"

definition vapor_Evict :: "'c cache_ops \<Rightarrow> bytes \<Rightarrow> ('c, 't) vapor \<Rightarrow>
    ('c, 't) vapor \<times> (eviction_reason \<times> nat) list" where
  "vapor_Evict ops key v =
     (let v = vapor_start ops v; (c, evs) = tc_Delete ops key (vp_cache v) in (v\<lparr>vp_cache := c\<rparr>, evs))"

definition vapor_Close :: "'c cache_ops \<Rightarrow> ('c, 't) vapor \<Rightarrow> ('c, 't) vapor \<times> (eviction_reason \<times> nat) list" where
  "vapor_Close ops v = vapor_stop ops v"

section \<open>The system around a vapor\<close>

text \<open>
  The goroutines of \<open>EvictAfter\<close>: a call first sets \<open>stopped\<close>, then reads the keys and spawns
  one worker per key, then waits for the workers. \<open>True\<close> is a non-nil \<open>f\<close>.
\<close>

datatype worker = W_get bool bytes | W_call bytes nat | W_in_f bytes | W_delete bytes | W_done

datatype evict_pc = EA_keys bool | EA_wait nat nat | EA_returned

text \<open>The calls of the user's functions, newest first.\<close>

datatype vap_call = CInit nat | CFinal FinalizeReason nat | CEvictF nat

record ('c, 't) vap_sys =
  vy_v :: "('c, 't) vapor"
  vy_now :: int
  vy_pending :: "(eviction_reason \<times> nat) list"
  vy_calls :: "vap_call list"
  vy_workers :: "worker list"
  vy_evicts :: "evict_pc list"
  vy_panic :: bool

text \<open>
  Time passes; a caller of any method starts the vapor; a round of \<open>newEntry\<close>; the two halves
  of \<open>Get\<close> (the lookup, and \<open>initItem\<close>, which \<open>GetNew\<close> calls too); a user changes the
  value of an element it was given; \<open>Evict\<close>; \<open>Close\<close>; the cleaning goroutine; a pending
  eviction callback runs; \<open>EvictAfter\<close> and its workers.
\<close>

datatype 't vap_event =
    VTick nat | VStart | VTry bytes int | VLookup bytes | VInitItem nat | VMutate nat 't
  | VEvict bytes | VClose | VCleanup | VCallback nat
  | VEvictAfter bool | VKeys nat | VWorker nat | VWait nat

definition set_evict :: "nat \<Rightarrow> evict_pc \<Rightarrow> ('c, 't) vap_sys \<Rightarrow> ('c, 't) vap_sys" where
  "set_evict i pc y = y\<lparr>vy_evicts := (vy_evicts y)[i := pc]\<rparr>"

definition set_worker :: "nat \<Rightarrow> worker \<Rightarrow> ('c, 't) vap_sys \<Rightarrow> ('c, 't) vap_sys" where
  "set_worker j w y = y\<lparr>vy_workers := (vy_workers y)[j := w]\<rparr>"

text \<open>\<open>initItem\<close> with the call of \<open>Initialize\<close> it makes.\<close>

definition sys_initItem :: "'t vap_conf \<Rightarrow> nat \<Rightarrow> ('c, 't) vap_sys \<Rightarrow> ('c, 't) vap_sys" where
  "sys_initItem cf e y = y\<lparr>vy_v := vapor_initItem cf e (vy_v y),
     vy_calls := (if \<not> en_once (vp_heap (vy_v y) ! e) \<and> vc_Initialize cf \<noteq> None then [CInit e] else []) @ vy_calls y\<rparr>"

text \<open>The callback of \<open>OnEviction\<close>.\<close>

definition on_eviction :: "'t vap_conf \<Rightarrow> eviction_reason \<times> nat \<Rightarrow> ('c, 't) vap_sys \<Rightarrow> ('c, 't) vap_sys" where
  "on_eviction cf ev y =
     (if \<not> vc_Finalize cf then y
      else (case finalize_reason (fst ev) of
          None \<Rightarrow> y\<lparr>vy_panic := True\<rparr>
        | Some fr \<Rightarrow>
            (let y = sys_initItem cf (snd ev) y in y\<lparr>vy_calls := CFinal fr (snd ev) # vy_calls y\<rparr>)))"

definition evictAfter_begin :: "bool \<Rightarrow> ('c, 't) vap_sys \<Rightarrow> ('c, 't) vap_sys" where
  "evictAfter_begin f y = y\<lparr>vy_v := (vy_v y)\<lparr>vp_stopped := True\<rparr>, vy_evicts := vy_evicts y @ [EA_keys f]\<rparr>"

definition evictAfter_keys :: "'c cache_ops \<Rightarrow> nat \<Rightarrow> bool \<Rightarrow> ('c, 't) vap_sys \<Rightarrow> ('c, 't) vap_sys" where
  "evictAfter_keys ops i f y =
     (let keys = tc_Keys ops (vy_now y) (vp_cache (vy_v y))
      in set_evict i (EA_wait (length (vy_workers y)) (length keys))
           (y\<lparr>vy_workers := vy_workers y @ map (W_get f) keys\<rparr>))"

definition evictAfter_wait :: "'c cache_ops \<Rightarrow> nat \<Rightarrow> ('c, 't) vap_sys \<Rightarrow> ('c, 't) vap_sys" where
  "evictAfter_wait ops i y =
     (let (c, evs) = tc_DeleteExpired ops (vy_now y) (vp_cache (vy_v y))
      in set_evict i EA_returned
           (y\<lparr>vy_v := (vy_v y)\<lparr>vp_cache := c\<rparr>, vy_pending := vy_pending y @ evs\<rparr>))"

definition worker_step :: "'c cache_ops \<Rightarrow> 't vap_conf \<Rightarrow> nat \<Rightarrow> worker \<Rightarrow> ('c, 't) vap_sys \<Rightarrow>
    ('c, 't) vap_sys option" where
  "worker_step ops cf j w y =
     (case w of
        W_get f k \<Rightarrow>
          (let (c, r) = tc_Get ops False (vy_now y) k (vp_cache (vy_v y))
           in Some (set_worker j (case r of None \<Rightarrow> W_done | Some e \<Rightarrow> if f then W_call k e else W_delete k)
                (y\<lparr>vy_v := (vy_v y)\<lparr>vp_cache := c\<rparr>\<rparr>)))
      | W_call k e \<Rightarrow>
          (let y = sys_initItem cf e y in Some (set_worker j (W_in_f k) (y\<lparr>vy_calls := CEvictF e # vy_calls y\<rparr>)))
      | W_in_f k \<Rightarrow> Some (set_worker j (W_delete k) y)
      | W_delete k \<Rightarrow>
          (let (c, evs) = tc_Delete ops k (vp_cache (vy_v y))
           in Some (set_worker j W_done
                (y\<lparr>vy_v := (vy_v y)\<lparr>vp_cache := c\<rparr>, vy_pending := vy_pending y @ evs\<rparr>)))
      | W_done \<Rightarrow> None)"

fun vap_step :: "'c cache_ops \<Rightarrow> 't vap_conf \<Rightarrow> 't vap_event \<Rightarrow> ('c, 't) vap_sys \<Rightarrow> ('c, 't) vap_sys option" where
  "vap_step ops cf (VTick n) y = Some (y\<lparr>vy_now := vy_now y + int n\<rparr>)"
| "vap_step ops cf VStart y = Some (y\<lparr>vy_v := vapor_start ops (vy_v y)\<rparr>)"
| "vap_step ops cf (VTry key d) y =
     (if vp_inited (vy_v y) then Some (y\<lparr>vy_v := fst (newEntry_try ops cf (vy_now y) key d (vy_v y))\<rparr>) else None)"
| "vap_step ops cf (VLookup key) y =
     (if vp_inited (vy_v y)
      then Some (y\<lparr>vy_v := (vy_v y)\<lparr>vp_cache := fst (tc_Get ops True (vy_now y) key (vp_cache (vy_v y)))\<rparr>\<rparr>) else None)"
| "vap_step ops cf (VInitItem e) y =
     (if e < length (vp_heap (vy_v y)) then Some (sys_initItem cf e y) else None)"
| "vap_step ops cf (VMutate e x) y =
     (if e < length (vp_heap (vy_v y)) \<and> en_once (vp_heap (vy_v y) ! e)
      then Some (y\<lparr>vy_v := (vy_v y)\<lparr>vp_heap := (vp_heap (vy_v y))[e := (vp_heap (vy_v y) ! e)\<lparr>en_value := x\<rparr>]\<rparr>\<rparr>)
      else None)"
| "vap_step ops cf (VEvict key) y =
     (let (v, evs) = vapor_Evict ops key (vy_v y) in Some (y\<lparr>vy_v := v, vy_pending := vy_pending y @ evs\<rparr>))"
| "vap_step ops cf VClose y =
     (let (v, evs) = vapor_Close ops (vy_v y) in Some (y\<lparr>vy_v := v, vy_pending := vy_pending y @ evs\<rparr>))"
| "vap_step ops cf VCleanup y =
     (if vp_started (vy_v y) then
        (let (c, evs) = tc_DeleteExpired ops (vy_now y) (vp_cache (vy_v y))
         in Some (y\<lparr>vy_v := (vy_v y)\<lparr>vp_cache := c\<rparr>, vy_pending := vy_pending y @ evs\<rparr>))
      else None)"
| "vap_step ops cf (VCallback n) y =
     (if n < length (vy_pending y)
      then Some (on_eviction cf (vy_pending y ! n)
             (y\<lparr>vy_pending := take n (vy_pending y) @ drop (Suc n) (vy_pending y)\<rparr>))
      else None)"
| "vap_step ops cf (VEvictAfter f) y =
     Some (evictAfter_begin f (y\<lparr>vy_v := vapor_start ops (vy_v y)\<rparr>))"
| "vap_step ops cf (VKeys i) y =
     (if i < length (vy_evicts y) then
        (case vy_evicts y ! i of EA_keys f \<Rightarrow> Some (evictAfter_keys ops i f y) | _ \<Rightarrow> None)
      else None)"
| "vap_step ops cf (VWorker j) y =
     (if j < length (vy_workers y) then worker_step ops cf j (vy_workers y ! j) y else None)"
| "vap_step ops cf (VWait i) y =
     (if i < length (vy_evicts y) then
        (case vy_evicts y ! i of
           EA_wait lo n \<Rightarrow>
             (if list_all (\<lambda>w. w = W_done) (take n (drop lo (vy_workers y)))
              then Some (evictAfter_wait ops i y) else None)
         | _ \<Rightarrow> None)
      else None)"

definition vap_start :: "'c cache_ops \<Rightarrow> ('c, 't) vap_sys \<Rightarrow> bool" where
  "vap_start ops y \<longleftrightarrow> (\<exists>t. y = \<lparr>vy_v = vapor_zero ops, vy_now = t, vy_pending = [], vy_calls = [],
     vy_workers = [], vy_evicts = [], vy_panic = False\<rparr>)"

abbreviation vap_reachable :: "'c cache_ops \<Rightarrow> 't vap_conf \<Rightarrow> ('c, 't) vap_sys \<Rightarrow> bool" where
  "vap_reachable ops cf \<equiv> reachable_in (vap_start ops) (vap_step ops cf)"

end
