(* ===== verification/VaporInv.thy ===== *)
theory VaporInv
  imports Vapor
begin

text \<open>
  The invariants of the system around a vapor, under the laws of the cache: which entries are
  stored, evicted and finalized, in which order the user's functions are called, and what
  \<open>EvictAfter\<close> has still to do.
\<close>

section \<open>The laws, one operation each\<close>

lemma lookup_live_SomeD: "lookup_live now m k = Some it \<Longrightarrow> m k = Some it \<and> unexpired now it"
  by (auto simp: lookup_live_def split: option.splits if_splits)

lemma lookup_live_mono: "now \<le> t \<Longrightarrow> lookup_live now m k = None \<Longrightarrow> lookup_live t m k = None"
  by (auto simp: lookup_live_def unexpired_def split: option.splits if_splits)

lemma law_New: "cache_laws ops items \<Longrightarrow> items (tc_New ops) = Map.empty"
  by (simp add: cache_laws_def)

lemma law_GetOrSet:
  assumes "cache_laws ops items" "tc_GetOrSet ops now k e d c = (c', e', found)"
  obtains (hit) it where "lookup_live now (items c) k = Some it" "found" "e' = fst it" "items c' = items c"
    | (miss) x where "lookup_live now (items c) k = None" "\<not> found" "e' = e"
        "items c' = (items c)(k \<mapsto> (e, d, x))" "0 < d \<Longrightarrow> x = Some (now + d)"
proof -
  have law: "get_or_set_law ops items" using assms(1) by (simp add: cache_laws_def)
  have "case lookup_live now (items c) k of
           Some it \<Rightarrow> found \<and> e' = fst it \<and> items c' = items c
         | None \<Rightarrow> \<not> found \<and> e' = e \<and>
             (\<exists>x. items c' = (items c)(k \<mapsto> (e, d, x)) \<and> (0 < d \<longrightarrow> x = Some (now + d)))"
    using law [unfolded get_or_set_law_def, rule_format, where now = now and k = k and e = e and d = d and c = c] assms(2) by simp
  then show thesis using hit miss by (cases "lookup_live now (items c) k") auto
qed

lemma law_Get:
  assumes "cache_laws ops items" "tc_Get ops t now k c = (c', r)"
  obtains (hit) it where "lookup_live now (items c) k = Some it" "r = Some (fst it)"
        "items c' = (if t then (items c)(k \<mapsto> touch_item now it) else items c)"
    | (miss) "lookup_live now (items c) k = None" "r = None" "items c' = items c"
proof -
  have law: "get_law ops items" using assms(1) by (simp add: cache_laws_def)
  have "case lookup_live now (items c) k of
           Some it \<Rightarrow> r = Some (fst it) \<and>
             items c' = (if t then (items c)(k \<mapsto> touch_item now it) else items c)
         | None \<Rightarrow> r = None \<and> items c' = items c"
    using law [unfolded get_law_def, rule_format, where t = t and now = now and k = k and c = c] assms(2) by simp
  then show thesis using hit miss by (cases "lookup_live now (items c) k") auto
qed

lemma law_Delete:
  assumes "cache_laws ops items" "tc_Delete ops k c = (c', evs)"
  shows "items c' = (items c)(k := None)"
    "evicts_exactly EvictionReasonDeleted (items c) ({k} \<inter> dom (items c)) evs"
proof -
  have law: "delete_law ops items" using assms(1) by (simp add: cache_laws_def)
  have l: "items c' = (items c)(k := None) \<and>
      evs = evictions EvictionReasonDeleted (items c) (if items c k = None then [] else [k])"
    using law [unfolded delete_law_def, rule_format, where k = k and c = c] assms(2) by simp
  then show "items c' = (items c)(k := None)" by simp
  show "evicts_exactly EvictionReasonDeleted (items c) ({k} \<inter> dom (items c)) evs"
    unfolding evicts_exactly_def using l
    by (intro exI [of _ "if items c k = None then [] else [k]"]) auto
qed

lemma law_DeleteAll:
  assumes "cache_laws ops items" "tc_DeleteAll ops c = (c', evs)"
  shows "items c' = Map.empty" "evicts_exactly EvictionReasonDeleted (items c) (dom (items c)) evs"
proof -
  have law: "delete_all_law ops items" using assms(1) by (simp add: cache_laws_def)
  have "items c' = Map.empty \<and> evicts_exactly EvictionReasonDeleted (items c) (dom (items c)) evs"
    using law [unfolded delete_all_law_def, rule_format, where c = c] assms(2) by simp
  then show "items c' = Map.empty" "evicts_exactly EvictionReasonDeleted (items c) (dom (items c)) evs"
    by simp_all
qed

lemma law_DeleteExpired:
  assumes "cache_laws ops items" "tc_DeleteExpired ops now c = (c', evs)"
  shows "items c' = lookup_live now (items c)"
    "evicts_exactly EvictionReasonExpired (items c) {k \<in> dom (items c). lookup_live now (items c) k = None} evs"
proof -
  have law: "delete_expired_law ops items" using assms(1) by (simp add: cache_laws_def)
  have "items c' = lookup_live now (items c) \<and>
      evicts_exactly EvictionReasonExpired (items c) {k \<in> dom (items c). lookup_live now (items c) k = None} evs"
    using law [unfolded delete_expired_law_def, rule_format, where now = now and c = c] assms(2) by simp
  then show "items c' = lookup_live now (items c)"
    "evicts_exactly EvictionReasonExpired (items c) {k \<in> dom (items c). lookup_live now (items c) k = None} evs"
    by auto
qed

lemma law_Keys: "cache_laws ops items \<Longrightarrow> dom (lookup_live now (items c)) \<subseteq> set (tc_Keys ops now c)"
  by (simp add: cache_laws_def keys_law_def)

section \<open>The transitions, one rule each\<close>

text \<open>
  The removal of a set of keys: the map loses them and the callbacks for them are pending,
  for one of the two reasons the cache has here.
\<close>

definition removes :: "(bytes \<rightharpoonup> item) \<Rightarrow> (bytes \<rightharpoonup> item) \<Rightarrow> (eviction_reason \<times> nat) list \<Rightarrow> bool" where
  "removes m m' evs \<longleftrightarrow> m' \<subseteq>\<^sub>m m \<and>
     (\<exists>r. finalize_reason r \<noteq> None \<and> evicts_exactly r m (dom m - dom m') evs)"

lemma removes_Delete:
  "evicts_exactly EvictionReasonDeleted m ({k} \<inter> dom m) evs \<Longrightarrow> removes m (m(k := None)) evs"
proof -
  have "dom m - dom (m(k := None)) = {k} \<inter> dom m" by auto
  then show "evicts_exactly EvictionReasonDeleted m ({k} \<inter> dom m) evs \<Longrightarrow> ?thesis"
    by (auto simp: removes_def map_le_def intro: exI [of _ EvictionReasonDeleted])
qed

lemma removes_all: "evicts_exactly EvictionReasonDeleted m (dom m) evs \<Longrightarrow> removes m Map.empty evs"
  by (auto simp: removes_def intro: exI [of _ EvictionReasonDeleted])

lemma removes_expired:
  "evicts_exactly EvictionReasonExpired m {k \<in> dom m. lookup_live now m k = None} evs \<Longrightarrow>
    removes m (lookup_live now m) evs"
proof -
  have "dom m - dom (lookup_live now m) = {k \<in> dom m. lookup_live now m k = None}"
    by (rule set_eqI) (simp only: Diff_iff mem_Collect_eq domIff not_not)
  moreover have "lookup_live now m \<subseteq>\<^sub>m m"
    by (metis domD lookup_live_SomeD map_le_def)
  ultimately show "evicts_exactly EvictionReasonExpired m {k \<in> dom m. lookup_live now m k = None} evs \<Longrightarrow> ?thesis"
    by (auto simp: removes_def intro: exI [of _ EvictionReasonExpired])
qed

fun worker_key :: "worker \<Rightarrow> bytes option" where
  "worker_key (W_get f k) = Some k"
| "worker_key (W_call k e) = Some k"
| "worker_key (W_in_f k) = Some k"
| "worker_key (W_delete k) = Some k"
| "worker_key W_done = None"

fun worker_entry :: "worker \<Rightarrow> nat option" where
  "worker_entry (W_call k e) = Some e"
| "worker_entry _ = None"

definition zero_entry :: "'t vap_conf \<Rightarrow> 't vap_entry" where
  "zero_entry cf = \<lparr>en_once = False, en_value = vc_zero cf\<rparr>"

inductive vap_trans :: "('c \<Rightarrow> bytes \<rightharpoonup> item) \<Rightarrow> 't vap_conf \<Rightarrow> ('c, 't) vap_sys \<Rightarrow> ('c, 't) vap_sys \<Rightarrow> bool"
  for items :: "'c \<Rightarrow> bytes \<rightharpoonup> item" and cf :: "'t vap_conf" where
  stutter: "vap_trans items cf y y"
| tick: "vap_trans items cf y (y\<lparr>vy_now := vy_now y + int n\<rparr>)"
| start: "items c = items (vp_cache (vy_v y)) \<Longrightarrow>
    vap_trans items cf y (y\<lparr>vy_v := (vy_v y)\<lparr>vp_cache := c, vp_inited := True, vp_started := True\<rparr>\<rparr>)"
| alloc: "vp_inited (vy_v y) \<Longrightarrow> items c = items (vp_cache (vy_v y)) \<Longrightarrow>
    vap_trans items cf y (y\<lparr>vy_v := (vy_v y)\<lparr>vp_cache := c, vp_heap := vp_heap (vy_v y) @ [zero_entry cf]\<rparr>\<rparr>)"
| fresh: "vp_inited (vy_v y) \<Longrightarrow> \<not> vp_stopped (vy_v y) \<Longrightarrow> lookup_live (vy_now y) (items (vp_cache (vy_v y))) k = None \<Longrightarrow>
    items c = (items (vp_cache (vy_v y)))(k \<mapsto> (length (vp_heap (vy_v y)), d, x)) \<Longrightarrow>
    vap_trans items cf y (y\<lparr>vy_v := (vy_v y)\<lparr>vp_cache := c, vp_heap := vp_heap (vy_v y) @ [zero_entry cf]\<rparr>\<rparr>)"
| touch: "vp_inited (vy_v y) \<Longrightarrow> lookup_live (vy_now y) (items (vp_cache (vy_v y))) k = Some it \<Longrightarrow>
    items c = (items (vp_cache (vy_v y)))(k \<mapsto> touch_item (vy_now y) it) \<Longrightarrow>
    vap_trans items cf y (y\<lparr>vy_v := (vy_v y)\<lparr>vp_cache := c\<rparr>\<rparr>)"
| same: "items c = items (vp_cache (vy_v y)) \<Longrightarrow> vap_trans items cf y (y\<lparr>vy_v := (vy_v y)\<lparr>vp_cache := c\<rparr>\<rparr>)"
| init: "e < length (vp_heap (vy_v y)) \<Longrightarrow> vap_trans items cf y (sys_initItem cf e y)"
| mutate: "e < length (vp_heap (vy_v y)) \<Longrightarrow> en_once (vp_heap (vy_v y) ! e) \<Longrightarrow>
    vap_trans items cf y (y\<lparr>vy_v := (vy_v y)\<lparr>vp_heap := (vp_heap (vy_v y))[e := (vp_heap (vy_v y) ! e)\<lparr>en_value := u\<rparr>]\<rparr>\<rparr>)"
| evict: "removes (items (vp_cache (vy_v y))) (items c) evs \<Longrightarrow> (s \<longrightarrow> vp_inited (vy_v y)) \<Longrightarrow>
    vap_trans items cf y (y\<lparr>vy_v := (vy_v y)\<lparr>vp_cache := c, vp_started := s\<rparr>, vy_pending := vy_pending y @ evs\<rparr>)"
| callback: "n < length (vy_pending y) \<Longrightarrow> vap_trans items cf y
    (on_eviction cf (vy_pending y ! n) (y\<lparr>vy_pending := take n (vy_pending y) @ drop (Suc n) (vy_pending y)\<rparr>))"
| ea_begin: "vp_inited (vy_v y) \<Longrightarrow> vap_trans items cf y (evictAfter_begin f y)"
| ea_keys: "i < length (vy_evicts y) \<Longrightarrow> vy_evicts y ! i = EA_keys f \<Longrightarrow>
    dom (lookup_live (vy_now y) (items (vp_cache (vy_v y)))) \<subseteq> set ks \<Longrightarrow>
    vap_trans items cf y (y\<lparr>vy_workers := vy_workers y @ map (W_get f) ks,
      vy_evicts := (vy_evicts y)[i := EA_wait (length (vy_workers y)) (length ks)]\<rparr>)"
| ea_wait: "i < length (vy_evicts y) \<Longrightarrow> vy_evicts y ! i = EA_wait lo n \<Longrightarrow>
    list_all (\<lambda>w. w = W_done) (take n (drop lo (vy_workers y))) \<Longrightarrow>
    items c = lookup_live (vy_now y) (items (vp_cache (vy_v y))) \<Longrightarrow>
    removes (items (vp_cache (vy_v y))) (items c) evs \<Longrightarrow>
    vap_trans items cf y (y\<lparr>vy_v := (vy_v y)\<lparr>vp_cache := c\<rparr>, vy_pending := vy_pending y @ evs,
      vy_evicts := (vy_evicts y)[i := EA_returned]\<rparr>)"
| w_found: "j < length (vy_workers y) \<Longrightarrow> vy_workers y ! j = W_get f k \<Longrightarrow>
    lookup_live (vy_now y) (items (vp_cache (vy_v y))) k = Some it \<Longrightarrow>
    items c = items (vp_cache (vy_v y)) \<Longrightarrow> w = W_call k (fst it) \<or> w = W_delete k \<Longrightarrow>
    vap_trans items cf y (y\<lparr>vy_v := (vy_v y)\<lparr>vp_cache := c\<rparr>, vy_workers := (vy_workers y)[j := w]\<rparr>)"
| w_gone: "j < length (vy_workers y) \<Longrightarrow> vy_workers y ! j = W_get f k \<Longrightarrow>
    lookup_live (vy_now y) (items (vp_cache (vy_v y))) k = None \<Longrightarrow>
    items c = items (vp_cache (vy_v y)) \<Longrightarrow>
    vap_trans items cf y (y\<lparr>vy_v := (vy_v y)\<lparr>vp_cache := c\<rparr>, vy_workers := (vy_workers y)[j := W_done]\<rparr>)"
| w_call: "j < length (vy_workers y) \<Longrightarrow> vy_workers y ! j = W_call k e \<Longrightarrow> z = sys_initItem cf e y \<Longrightarrow>
    vap_trans items cf y (z\<lparr>vy_calls := CEvictF e # vy_calls z, vy_workers := (vy_workers z)[j := W_in_f k]\<rparr>)"
| w_returned: "j < length (vy_workers y) \<Longrightarrow> vy_workers y ! j = W_in_f k \<Longrightarrow>
    vap_trans items cf y (y\<lparr>vy_workers := (vy_workers y)[j := W_delete k]\<rparr>)"
| w_delete: "j < length (vy_workers y) \<Longrightarrow> vy_workers y ! j = W_delete k \<Longrightarrow>
    items c = (items (vp_cache (vy_v y)))(k := None) \<Longrightarrow>
    removes (items (vp_cache (vy_v y))) (items c) evs \<Longrightarrow>
    vap_trans items cf y (y\<lparr>vy_v := (vy_v y)\<lparr>vp_cache := c\<rparr>, vy_pending := vy_pending y @ evs,
      vy_workers := (vy_workers y)[j := W_done]\<rparr>)"

text \<open>
  Before the first call of any method there is nothing stored, so that creating the cache
  changes nothing; \<open>EvictAfter\<close> has started the vapor before it does anything.
\<close>

definition started_inv :: "('c \<Rightarrow> bytes \<rightharpoonup> item) \<Rightarrow> ('c, 't) vap_sys \<Rightarrow> bool" where
  "started_inv items y \<longleftrightarrow>
     (\<not> vp_inited (vy_v y) \<longrightarrow> items (vp_cache (vy_v y)) = Map.empty \<and> \<not> vp_started (vy_v y))"

lemma vapor_start_fields:
  assumes "cache_laws ops items" "started_inv items y"
  shows "\<exists>c. vapor_start ops (vy_v y) = (vy_v y)\<lparr>vp_cache := c, vp_inited := True, vp_started := True\<rparr> \<and>
    items c = items (vp_cache (vy_v y))"
proof (cases "vp_inited (vy_v y)")
  case True
  then show ?thesis
    by (intro exI [of _ "vp_cache (vy_v y)"]) (cases "vy_v y", simp add: vapor_start_def Let_def)
next
  case False
  then show ?thesis using assms law_New [OF assms(1)]
    by (intro exI [of _ "tc_New ops"]) (cases "vy_v y", simp add: vapor_start_def Let_def started_inv_def)
qed

lemma cache_same: "(v::('c, 't) vapor)\<lparr>vp_cache := vp_cache v\<rparr> = v"
  by simp

lemma try_trans:
  assumes l: "cache_laws ops items" and i: "vp_inited (vy_v y)"
  shows "vap_trans items cf y (y\<lparr>vy_v := fst (newEntry_try ops cf (vy_now y) key d (vy_v y))\<rparr>)"
proof (cases "key = [] \<or> vp_stopped (vy_v y)")
  case True
  then show ?thesis by (auto simp: newEntry_try_def intro: stutter)
next
  case False
  obtain c e found where g: "tc_GetOrSet ops (vy_now y) key (length (vp_heap (vy_v y))) d (vp_cache (vy_v y)) = (c, e, found)"
    by (cases "tc_GetOrSet ops (vy_now y) key (length (vp_heap (vy_v y))) d (vp_cache (vy_v y))") auto
  from l g show ?thesis
  proof (cases rule: law_GetOrSet)
    case (hit it)
    with False g i show ?thesis by (simp add: newEntry_try_def Let_def alloc zero_entry_def [symmetric])
  next
    case (miss x)
    with False g i show ?thesis
      by (simp add: newEntry_try_def Let_def zero_entry_def [symmetric]) (rule fresh, simp_all)
  qed
qed

lemma lookup_trans:
  assumes l: "cache_laws ops items" and i: "vp_inited (vy_v y)"
  shows "vap_trans items cf y (y\<lparr>vy_v := (vy_v y)\<lparr>vp_cache := fst (tc_Get ops True (vy_now y) key (vp_cache (vy_v y)))\<rparr>\<rparr>)"
proof -
  obtain c r where g: "tc_Get ops True (vy_now y) key (vp_cache (vy_v y)) = (c, r)" by force
  from l g show ?thesis
  proof (cases rule: law_Get)
    case (hit it)
    with g i show ?thesis by (auto intro: touch)
  next
    case miss
    with g show ?thesis by (auto intro: same)
  qed
qed

lemma worker_trans:
  assumes l: "cache_laws ops items" and j: "j < length (vy_workers y)"
    and s: "worker_step ops cf j (vy_workers y ! j) y = Some y'"
  shows "vap_trans items cf y y'"
proof (cases "vy_workers y ! j")
  case (W_get f k)
  obtain c r where g: "tc_Get ops False (vy_now y) k (vp_cache (vy_v y)) = (c, r)" by force
  from l g show ?thesis
  proof (cases rule: law_Get)
    case (hit it)
    with g s W_get j show ?thesis
      by (auto simp: worker_step_def set_worker_def intro!: w_found split: if_splits)
  next
    case miss
    with g s W_get j show ?thesis by (auto simp: worker_step_def set_worker_def intro!: w_gone)
  qed
next
  case (W_call k e)
  have "y' = (sys_initItem cf e y)\<lparr>vy_calls := CEvictF e # vy_calls (sys_initItem cf e y),
      vy_workers := (vy_workers (sys_initItem cf e y))[j := W_in_f k]\<rparr>"
    using s W_call by (simp add: worker_step_def set_worker_def Let_def)
  then show ?thesis using w_call [OF j W_call refl] by simp
next
  case (W_in_f k)
  then show ?thesis using s w_returned [OF j W_in_f] by (auto simp: worker_step_def set_worker_def)
next
  case (W_delete k)
  obtain c evs where g: "tc_Delete ops k (vp_cache (vy_v y)) = (c, evs)" by force
  show ?thesis using s W_delete g w_delete [OF j W_delete] law_Delete [OF l g] removes_Delete
    by (auto simp: worker_step_def set_worker_def)
next
  case W_done
  then show ?thesis using s by (simp add: worker_step_def)
qed

lemma vap_step_trans:
  assumes l: "cache_laws ops items" and si: "started_inv items y" and s: "vap_step ops cf ev y = Some y'"
    and ev: "ev \<noteq> VClose" "\<And>f. ev \<noteq> VEvictAfter f" "\<And>k. ev \<noteq> VEvict k"
  shows "vap_trans items cf y y'"
proof (cases ev)
  case VStart
  then show ?thesis using s vapor_start_fields [OF l si] by (auto intro: start)
next
  case (VTry key d)
  then show ?thesis using s try_trans [OF l] by (auto split: if_splits)
next
  case (VLookup key)
  then show ?thesis using s lookup_trans [OF l] by (auto split: if_splits)
next
  case VCleanup
  obtain c evs where g: "tc_DeleteExpired ops (vy_now y) (vp_cache (vy_v y)) = (c, evs)" by force
  note d = law_DeleteExpired [OF l g]
  have "removes (items (vp_cache (vy_v y))) (items c) evs" using d removes_expired by simp
  from evict [OF this, where s = "vp_started (vy_v y)" and cf = cf] show ?thesis
    using s VCleanup g si by (auto simp: started_inv_def split: if_splits)
next
  case (VKeys i)
  then show ?thesis using s law_Keys [OF l]
    by (auto simp: evictAfter_keys_def set_evict_def Let_def intro!: ea_keys split: if_splits evict_pc.splits)
next
  case (VWorker j)
  then show ?thesis using s worker_trans [OF l] by (auto split: if_splits)
next
  case (VWait i)
  obtain c evs where g: "tc_DeleteExpired ops (vy_now y) (vp_cache (vy_v y)) = (c, evs)" by force
  note d = law_DeleteExpired [OF l g]
  have r: "removes (items (vp_cache (vy_v y))) (items c) evs" using d removes_expired by simp
  show ?thesis using s VWait g
    by (auto simp: evictAfter_wait_def set_evict_def intro!: ea_wait r d(1) split: if_splits evict_pc.splits)
qed (use s ev in \<open>auto intro: vap_trans.intros split: if_splits\<close>)

text \<open>Every step is one or two transitions: some methods start the vapor first.\<close>

lemma vap_step_trans2:
  assumes l: "cache_laws ops items" and si: "started_inv items y" and s: "vap_step ops cf ev y = Some y'"
  shows "\<exists>u. vap_trans items cf y u \<and> vap_trans items cf u y'"
proof -
  obtain c where c: "vapor_start ops (vy_v y) = (vy_v y)\<lparr>vp_cache := c, vp_inited := True, vp_started := True\<rparr>"
    "items c = items (vp_cache (vy_v y))"
    using vapor_start_fields [OF l si] by blast
  let ?u = "y\<lparr>vy_v := (vy_v y)\<lparr>vp_cache := c, vp_inited := True, vp_started := True\<rparr>\<rparr>"
  have u: "vap_trans items cf y ?u" using c by (auto intro: start)
  show ?thesis
  proof (cases ev)
    case VClose
    obtain c' evs where g: "tc_DeleteAll ops (vp_cache (vy_v y)) = (c', evs)" by force
    note d = law_DeleteAll [OF l g]
    have "removes (items (vp_cache (vy_v y))) (items c') evs" using d removes_all by simp
    from evict [OF this, where s = False and cf = cf] have "vap_trans items cf y y'"
      using s VClose g by (auto simp: vapor_Close_def vapor_stop_def intro: stutter split: if_splits)
    then show ?thesis using stutter by blast
  next
    case (VEvict key)
    obtain c' evs where g: "tc_Delete ops key (vp_cache (vy_v ?u)) = (c', evs)" by force
    note d = law_Delete [OF l g]
    have "removes (items (vp_cache (vy_v ?u))) (items c') evs" using d removes_Delete by simp
    from evict [OF this, where s = True and cf = cf] have "vap_trans items cf ?u y'"
      using s VEvict g c by (cases y, cases "vy_v y") (simp add: vapor_Evict_def Let_def)
    then show ?thesis using u by blast
  next
    case (VEvictAfter f)
    have "vap_trans items cf ?u y'" using s VEvictAfter c ea_begin [of ?u items cf f] by simp
    then show ?thesis using u by blast
  qed (use vap_step_trans [OF l si s] stutter in blast)+
qed

section \<open>Which entries are where\<close>

fun finals :: "vap_call list \<Rightarrow> nat list" where
  "finals [] = []"
| "finals (CFinal r e # cs) = e # finals cs"
| "finals (_ # cs) = finals cs"

fun inits :: "vap_call list \<Rightarrow> nat list" where
  "inits [] = []"
| "inits (CInit e # cs) = e # inits cs"
| "inits (_ # cs) = inits cs"

text \<open>Entries the cache gave up: their callback is pending or has called \<open>Finalize\<close>.\<close>

definition gone :: "('c, 't) vap_sys \<Rightarrow> nat list" where
  "gone y = map snd (vy_pending y) @ finals (vy_calls y)"

definition ent :: "(bytes \<rightharpoonup> item) \<Rightarrow> bytes \<rightharpoonup> nat" where
  "ent m k = map_option fst (m k)"

definition ids_ok :: "(bytes \<rightharpoonup> nat) \<Rightarrow> nat \<Rightarrow> nat list \<Rightarrow> bool" where
  "ids_ok m n g \<longleftrightarrow>
     (\<forall>k k' e. m k = Some e \<longrightarrow> m k' = Some e \<longrightarrow> k = k') \<and>
     (\<forall>k e. m k = Some e \<longrightarrow> e < n \<and> e \<notin> set g) \<and>
     distinct g \<and> (\<forall>e \<in> set g. e < n)"

definition ids_inv :: "('c \<Rightarrow> bytes \<rightharpoonup> item) \<Rightarrow> ('c, 't) vap_sys \<Rightarrow> bool" where
  "ids_inv items y \<longleftrightarrow>
     ids_ok (ent (items (vp_cache (vy_v y)))) (length (vp_heap (vy_v y))) (gone y) \<and>
     list_all (\<lambda>ev. finalize_reason (fst ev) \<noteq> None) (vy_pending y) \<and> \<not> vy_panic y"

lemma ent_simps [simp]:
  "ent Map.empty = Map.empty" "ent (m(k \<mapsto> it)) = (ent m)(k \<mapsto> fst it)" "dom (ent m) = dom m"
  by (auto simp: ent_def fun_eq_iff dom_def)

lemma ent_touch: "m k = Some it \<Longrightarrow> ent (m(k \<mapsto> touch_item now it)) = ent m"
  by (rule ext) (simp add: ent_def touch_item_def split: prod.split)

lemma ent_le: "m' \<subseteq>\<^sub>m m \<Longrightarrow> ent m' k = Some e \<Longrightarrow> ent m k = Some e"
  by (auto simp: ent_def map_le_def dom_def)

lemma ids_ok_mono: "ids_ok m n g \<Longrightarrow> n \<le> n' \<Longrightarrow> ids_ok m n' g"
  by (fastforce simp: ids_ok_def)

lemma ids_ok_fresh: "ids_ok m n g \<Longrightarrow> ids_ok (m(k \<mapsto> n)) (Suc n) g"
  unfolding ids_ok_def by (auto simp: less_Suc_eq split: if_splits)

lemma ids_ok_removes:
  assumes ok: "ids_ok (ent m) n (map snd p @ f)" and r: "removes m m' evs"
  shows "ids_ok (ent m') n (map snd (p @ evs) @ f)"
    "list_all (\<lambda>ev. finalize_reason (fst ev) \<noteq> None) evs"
proof -
  obtain rs ks where k: "finalize_reason rs \<noteq> None" "distinct ks" "set ks = dom m - dom m'"
      "evs = evictions rs m ks" and le: "m' \<subseteq>\<^sub>m m"
    using r by (auto simp: removes_def evicts_exactly_def)
  show "list_all (\<lambda>ev. finalize_reason (fst ev) \<noteq> None) evs"
    using k by (auto simp: evictions_def list_all_iff)
  have inj: "\<And>k k' e. ent m k = Some e \<Longrightarrow> ent m k' = Some e \<Longrightarrow> k = k'"
    and b: "\<And>k e. ent m k = Some e \<Longrightarrow> e < n \<and> e \<notin> set (map snd p @ f)"
    and d: "distinct (map snd p @ f)" "\<forall>e \<in> set (map snd p @ f). e < n"
    using ok unfolding ids_ok_def by blast+
  have snds: "map snd evs = map (\<lambda>k. the (ent m k)) ks"
    unfolding k(4) evictions_def
    using k(3) by (auto simp: ent_def)
  have ks: "ent m k = Some (the (ent m k))" "ent m' k = None" if "k \<in> set ks" for k
    using that k(3) by (auto simp: ent_def dom_def)
  have dk: "distinct (map snd evs)"
  proof -
    have "inj_on (\<lambda>k. the (ent m k)) (set ks)"
    proof (rule inj_onI)
      fix k k' assume "k \<in> set ks" "k' \<in> set ks" "the (ent m k) = the (ent m k')"
      then show "k = k'" using ks(1) [of k] ks(1) [of k'] inj [of k _ k'] by simp
    qed
    then show ?thesis by (simp only: snds distinct_map k(2) simp_thms)
  qed
  have in_evs: "\<exists>k \<in> set ks. ent m k = Some e" if "e \<in> set (map snd evs)" for e
    using that ks(1) unfolding snds by auto
  show "ids_ok (ent m') n (map snd (p @ evs) @ f)"
    unfolding ids_ok_def
  proof (intro conjI allI impI)
    fix k k' e assume "ent m' k = Some e" "ent m' k' = Some e"
    then show "k = k'" using inj ent_le [OF le] by blast
  next
    fix k e assume k: "ent m' k = Some e"
    then show "e < n" using b ent_le [OF le] by blast
    have "e \<notin> set (map snd evs)"
      using in_evs inj [OF ent_le [OF le k]] ks(2) k by (metis option.distinct(1))
    then show "e \<notin> set (map snd (p @ evs) @ f)" using b [OF ent_le [OF le k]] by auto
  next
    have "set (map snd evs) \<inter> set (map snd p @ f) = {}" using in_evs b by blast
    then show "distinct (map snd (p @ evs) @ f)" using d dk by auto
  next
    show "\<forall>e \<in> set (map snd (p @ evs) @ f). e < n"
    proof
      fix e assume "e \<in> set (map snd (p @ evs) @ f)"
      then consider "e \<in> set (map snd p @ f)" | "e \<in> set (map snd evs)" by auto
      then show "e < n" using in_evs b d(2) by cases blast+
    qed
  qed
qed

lemma ids_ok_sub: "ids_ok m n g \<Longrightarrow> distinct g' \<Longrightarrow> set g' \<subseteq> set g \<Longrightarrow> ids_ok m n g'"
  unfolding ids_ok_def by blast

lemma vapor_initItem_fields [simp]:
  "vp_cache (vapor_initItem cf e v) = vp_cache v" "length (vp_heap (vapor_initItem cf e v)) = length (vp_heap v)"
  "vp_stopped (vapor_initItem cf e v) = vp_stopped v" "vp_inited (vapor_initItem cf e v) = vp_inited v"
  "vp_started (vapor_initItem cf e v) = vp_started v"
  by (simp_all add: vapor_initItem_def Let_def)

lemma sys_initItem_fields [simp]:
  "vy_v (sys_initItem cf e y) = vapor_initItem cf e (vy_v y)" "vy_pending (sys_initItem cf e y) = vy_pending y"
  "vy_workers (sys_initItem cf e y) = vy_workers y" "vy_evicts (sys_initItem cf e y) = vy_evicts y"
  "vy_now (sys_initItem cf e y) = vy_now y" "vy_panic (sys_initItem cf e y) = vy_panic y"
  "finals (vy_calls (sys_initItem cf e y)) = finals (vy_calls y)"
  by (simp_all add: sys_initItem_def)

lemma on_eviction_fields [simp]:
  "vp_cache (vy_v (on_eviction cf ev y)) = vp_cache (vy_v y)"
  "length (vp_heap (vy_v (on_eviction cf ev y))) = length (vp_heap (vy_v y))"
  "vp_stopped (vy_v (on_eviction cf ev y)) = vp_stopped (vy_v y)"
  "vp_inited (vy_v (on_eviction cf ev y)) = vp_inited (vy_v y)"
  "vp_started (vy_v (on_eviction cf ev y)) = vp_started (vy_v y)"
  "vy_pending (on_eviction cf ev y) = vy_pending y" "vy_workers (on_eviction cf ev y) = vy_workers y"
  "vy_evicts (on_eviction cf ev y) = vy_evicts y" "vy_now (on_eviction cf ev y) = vy_now y"
  by (simp_all add: on_eviction_def Let_def split: option.split)

lemma on_eviction_ok:
  "finalize_reason (fst ev) \<noteq> None \<Longrightarrow> vy_panic (on_eviction cf ev y) = vy_panic y \<and>
    finals (vy_calls (on_eviction cf ev y)) = (if vc_Finalize cf then [snd ev] else []) @ finals (vy_calls y)"
  by (auto simp: on_eviction_def Let_def split: option.split)

lemma ids_inv_removes:
  assumes "ids_inv items y" "removes (items (vp_cache (vy_v y))) (items c) evs"
    "z = y\<lparr>vy_v := (vy_v y)\<lparr>vp_cache := c\<rparr>, vy_pending := vy_pending y @ evs\<rparr>"
  shows "ids_inv items z"
proof -
  have "ids_ok (ent (items (vp_cache (vy_v y)))) (length (vp_heap (vy_v y)))
      (map snd (vy_pending y) @ finals (vy_calls y))"
    using assms(1) by (simp add: ids_inv_def gone_def)
  from ids_ok_removes [OF this assms(2)] assms(1) show ?thesis
    by (simp add: assms(3) ids_inv_def gone_def del: map_append)
qed

text \<open>The invariant looks at the cache, the size of the heap, the callbacks and the calls.\<close>

lemma ids_inv_cong:
  "ids_inv items y \<Longrightarrow> vp_cache (vy_v z) = vp_cache (vy_v y) \<Longrightarrow> vp_heap (vy_v z) = vp_heap (vy_v y) \<Longrightarrow>
    vy_pending z = vy_pending y \<Longrightarrow> vy_calls z = vy_calls y \<Longrightarrow> vy_panic z = vy_panic y \<Longrightarrow> ids_inv items z"
  by (simp add: ids_inv_def gone_def)

lemma ids_inv_trans: "vap_trans items cf y y' \<Longrightarrow> ids_inv items y \<Longrightarrow> ids_inv items y'"
proof (induction rule: vap_trans.induct)
  case (alloc y c)
  then show ?case by (auto simp: ids_inv_def gone_def intro: ids_ok_mono)
next
  case (fresh y k c d x)
  then show ?case by (simp add: ids_inv_def gone_def ids_ok_fresh)
next
  case (touch y k it c)
  then have "items (vp_cache (vy_v y)) k = Some it" by (blast dest: lookup_live_SomeD)
  with touch show ?case by (simp add: ids_inv_def gone_def ent_touch del: ent_simps)
next
  case (evict y c evs s)
  from ids_inv_removes [OF evict(3) evict(1) refl] show ?case by (rule ids_inv_cong) simp_all
next
  case (ea_wait i y lo n c evs)
  from ids_inv_removes [OF ea_wait(6) ea_wait(5) refl] show ?case by (rule ids_inv_cong) simp_all
next
  case (w_delete j y k c evs)
  from ids_inv_removes [OF w_delete(5) w_delete(4) refl] show ?case by (rule ids_inv_cong) simp_all
next
  case (callback n y)
  let ?y = "y\<lparr>vy_pending := take n (vy_pending y) @ drop (Suc n) (vy_pending y)\<rparr>"
  have p: "vy_pending y = take n (vy_pending y) @ vy_pending y ! n # drop (Suc n) (vy_pending y)"
    using callback(1) by (rule id_take_nth_drop)
  have r: "list_all (\<lambda>ev. finalize_reason (fst ev) \<noteq> None) (vy_pending y)"
    and np: "\<not> vy_panic y" and ok: "ids_ok (ent (items (vp_cache (vy_v y)))) (length (vp_heap (vy_v y))) (gone y)"
    using callback(2) by (simp_all add: ids_inv_def)
  have rn: "finalize_reason (fst (vy_pending y ! n)) \<noteq> None" using r callback(1) by (simp add: list_all_length)
  note o = on_eviction_ok [OF rn, of cf ?y]
  define a where "a = take n (vy_pending y)"
  define b where "b = drop (Suc n) (vy_pending y)"
  define ev where "ev = vy_pending y ! n"
  have g: "gone y = map snd a @ snd ev # map snd b @ finals (vy_calls y)"
    using arg_cong [OF p, of "map snd"] by (simp add: gone_def a_def b_def ev_def)
  have g': "gone (on_eviction cf ev ?y) = map snd a @ map snd b @ (if vc_Finalize cf then [snd ev] else []) @ finals (vy_calls y)"
    using o by (simp add: gone_def a_def b_def ev_def)
  have "distinct (gone y)" using ok by (simp add: ids_ok_def)
  then have "ids_ok (ent (items (vp_cache (vy_v y)))) (length (vp_heap (vy_v y))) (gone (on_eviction cf ev ?y))"
    unfolding g g' by (intro ids_ok_sub [OF ok]) (auto simp: g)
  moreover have "list_all (\<lambda>ev. finalize_reason (fst ev) \<noteq> None) (a @ b)"
    using r p unfolding a_def b_def by (metis list_all_append list.pred_inject(2))
  ultimately show ?case using o np by (simp add: ids_inv_def a_def b_def ev_def)
qed (simp_all add: ids_inv_def gone_def evictAfter_begin_def)

section \<open>The calls of the user's functions\<close>

text \<open>
  Newest first: \<open>Finalize\<close> and the function of \<open>EvictAfter\<close> are called only on elements
  \<open>Initialize\<close> was called on before.
\<close>

fun inits_first :: "vap_call list \<Rightarrow> bool" where
  "inits_first [] = True"
| "inits_first (CInit e # cs) = inits_first cs"
| "inits_first (CFinal r e # cs) = (e \<in> set (inits cs) \<and> inits_first cs)"
| "inits_first (CEvictF e # cs) = (e \<in> set (inits cs) \<and> inits_first cs)"

text \<open>An entry is untouched until its \<open>sync.Once\<close> runs, which is when \<open>Initialize\<close> is called.\<close>

definition slot_ok :: "'t vap_conf \<Rightarrow> vap_call list \<Rightarrow> nat \<Rightarrow> 't vap_entry \<Rightarrow> bool" where
  "slot_ok cf cs e en \<longleftrightarrow>
     (if en_once en then vc_Initialize cf \<noteq> None \<longrightarrow> e \<in> set (inits cs)
      else en = zero_entry cf \<and> e \<notin> set (inits cs))"

definition heap_ok :: "'t vap_conf \<Rightarrow> 't vap_entry list \<Rightarrow> vap_call list \<Rightarrow> bool" where
  "heap_ok cf h cs \<longleftrightarrow>
     (\<forall>e < length h. slot_ok cf cs e (h ! e)) \<and> (\<forall>e \<in> set (inits cs). e < length h) \<and>
     distinct (inits cs) \<and> (vc_Initialize cf \<noteq> None \<longrightarrow> inits_first cs)"

definition entry_bound :: "nat \<Rightarrow> worker \<Rightarrow> bool" where
  "entry_bound n w \<longleftrightarrow> (case worker_entry w of None \<Rightarrow> True | Some e \<Rightarrow> e < n)"

definition calls_inv :: "'t vap_conf \<Rightarrow> ('c, 't) vap_sys \<Rightarrow> bool" where
  "calls_inv cf y \<longleftrightarrow> heap_ok cf (vp_heap (vy_v y)) (vy_calls y) \<and>
     list_all (entry_bound (length (vp_heap (vy_v y)))) (vy_workers y)"

lemma all_nth_update:
  "P e u \<Longrightarrow> (\<And>i. i < length h \<Longrightarrow> i \<noteq> e \<Longrightarrow> P i (h ! i)) \<Longrightarrow> \<forall>i < length (h[e := u]). P i (h[e := u] ! i)"
proof (intro allI impI)
  fix i
  assume "P e u" "\<And>i. i < length h \<Longrightarrow> i \<noteq> e \<Longrightarrow> P i (h ! i)" "i < length (h[e := u])"
  then show "P i (h[e := u] ! i)" by (cases "i = e") auto
qed

lemma slot_ok_call [simp]:
  "slot_ok cf (CFinal r e # cs) = slot_ok cf cs" "slot_ok cf (CEvictF e # cs) = slot_ok cf cs"
  by (simp_all add: slot_ok_def fun_eq_iff)

lemma heap_ok_alloc:
  assumes "heap_ok cf h cs"
  shows "heap_ok cf (h @ [zero_entry cf]) cs"
proof -
  have "length h \<notin> set (inits cs)" using assms by (auto simp: heap_ok_def)
  then have "slot_ok cf cs (length h) (zero_entry cf)" by (simp add: slot_ok_def zero_entry_def)
  with assms show ?thesis by (auto simp: heap_ok_def nth_append less_Suc_eq)
qed

lemma heap_ok_init:
  assumes h: "heap_ok cf (vp_heap (vy_v y)) (vy_calls y)" and e: "e < length (vp_heap (vy_v y))"
    and z: "z = sys_initItem cf e y"
  shows "heap_ok cf (vp_heap (vy_v z)) (vy_calls z)" "en_once (vp_heap (vy_v z) ! e)"
    "vc_Initialize cf \<noteq> None \<longrightarrow> e \<in> set (inits (vy_calls z))"
proof -
  show o: "en_once (vp_heap (vy_v z) ! e)"
    using e by (simp add: z vapor_initItem_def Let_def)
  show h': "heap_ok cf (vp_heap (vy_v z)) (vy_calls z)"
  proof (cases "en_once (vp_heap (vy_v y) ! e)")
    case True
    then show ?thesis using h by (simp add: z sys_initItem_def vapor_initItem_def Let_def)
  next
    case False
    define u where "u = \<lparr>en_once = True, en_value =
        (case vc_Initialize cf of None \<Rightarrow> en_value (vp_heap (vy_v y) ! e) | Some f \<Rightarrow> f (en_value (vp_heap (vy_v y) ! e)))\<rparr>"
    have v: "vp_heap (vy_v z) = (vp_heap (vy_v y))[e := u]"
      using False by (simp add: z vapor_initItem_def Let_def u_def)
    define cs where "cs = (if vc_Initialize cf \<noteq> None then [CInit e] else []) @ vy_calls y"
    have c: "vy_calls z = cs" using False by (simp add: z sys_initItem_def cs_def)
    have "slot_ok cf (vy_calls y) e (vp_heap (vy_v y) ! e)" using h e by (simp add: heap_ok_def)
    then have n: "e \<notin> set (inits (vy_calls y))" using False by (simp add: slot_ok_def)
    have "slot_ok cf cs e u" by (simp add: slot_ok_def u_def cs_def)
    moreover have "slot_ok cf cs e' (vp_heap (vy_v y) ! e')"
      if "e' < length (vp_heap (vy_v y))" "e' \<noteq> e" for e'
    proof -
      have "slot_ok cf (vy_calls y) e' (vp_heap (vy_v y) ! e')" using h that(1) by (simp add: heap_ok_def)
      then show ?thesis using that(2) by (simp add: slot_ok_def cs_def split: if_split_asm)
    qed
    ultimately have "\<forall>e' < length (vp_heap (vy_v z)). slot_ok cf cs e' (vp_heap (vy_v z) ! e')"
      unfolding v by (rule all_nth_update)
    moreover have "\<forall>e' \<in> set (inits cs). e' < length (vp_heap (vy_v z))" "distinct (inits cs)"
        "vc_Initialize cf \<noteq> None \<longrightarrow> inits_first cs"
      using h e n by (simp_all add: heap_ok_def cs_def v)
    ultimately show ?thesis by (simp add: heap_ok_def c)
  qed
  show "vc_Initialize cf \<noteq> None \<longrightarrow> e \<in> set (inits (vy_calls z))"
  proof -
    have "slot_ok cf (vy_calls z) e (vp_heap (vy_v z) ! e)" using h' e by (simp add: heap_ok_def z)
    then show ?thesis using o by (simp only: slot_ok_def if_True)
  qed
qed

lemma heap_ok_call:
  assumes "heap_ok cf h cs" "vc_Initialize cf \<noteq> None \<longrightarrow> e \<in> set (inits cs)"
  shows "heap_ok cf h (CFinal r e # cs)" "heap_ok cf h (CEvictF e # cs)"
  using assms by (simp_all add: heap_ok_def)

lemma heap_ok_mutate:
  assumes "heap_ok cf h cs" "e < length h" "en_once (h ! e)"
  shows "heap_ok cf (h[e := (h ! e)\<lparr>en_value := u\<rparr>]) cs"
proof -
  have "slot_ok cf cs e (h ! e)" using assms(1,2) by (simp add: heap_ok_def)
  then have "slot_ok cf cs e ((h ! e)\<lparr>en_value := u\<rparr>)" using assms(3) by (simp add: slot_ok_def)
  then have "\<forall>i < length (h[e := (h ! e)\<lparr>en_value := u\<rparr>]). slot_ok cf cs i (h[e := (h ! e)\<lparr>en_value := u\<rparr>] ! i)"
    using assms(1) by (intro all_nth_update) (auto simp: heap_ok_def)
  with assms(1) show ?thesis by (simp add: heap_ok_def)
qed

lemma list_all_update: "list_all P ws \<Longrightarrow> P w \<Longrightarrow> list_all P (ws[j := w])"
  by (cases "j < length ws") (auto simp: list_all_length nth_list_update list_update_beyond)

lemma entry_bound_simps [simp]:
  "entry_bound n (W_get f k)" "entry_bound n (W_in_f k)" "entry_bound n (W_delete k)" "entry_bound n W_done"
  "entry_bound n (W_call k e) \<longleftrightarrow> e < n"
  by (simp_all add: entry_bound_def)

lemma entry_bound_mono: "list_all (entry_bound n) ws \<Longrightarrow> n \<le> m \<Longrightarrow> list_all (entry_bound m) ws"
  unfolding list_all_iff entry_bound_def by (fastforce split: option.splits)

lemma calls_inv_worker:
  "calls_inv cf y \<Longrightarrow> vp_heap (vy_v z) = vp_heap (vy_v y) \<Longrightarrow> vy_calls z = vy_calls y \<Longrightarrow>
    vy_workers z = (vy_workers y)[j := w] \<Longrightarrow> entry_bound (length (vp_heap (vy_v y))) w \<Longrightarrow> calls_inv cf z"
  by (simp add: calls_inv_def list_all_update)

lemma calls_inv_trans:
  "vap_trans items cf y y' \<Longrightarrow> ids_inv items y \<Longrightarrow> calls_inv cf y \<Longrightarrow> calls_inv cf y'"
proof (induction rule: vap_trans.induct)
  case (alloc y c)
  then show ?case using entry_bound_mono [of "length (vp_heap (vy_v y))"]
    by (simp add: calls_inv_def heap_ok_alloc)
next
  case (fresh y k c d x)
  then show ?case using entry_bound_mono [of "length (vp_heap (vy_v y))"]
    by (simp add: calls_inv_def heap_ok_alloc)
next
  case (init e y)
  then show ?case using heap_ok_init(1) [OF _ init(1) refl] by (simp add: calls_inv_def)
next
  case (mutate e y u)
  then show ?case by (simp add: calls_inv_def heap_ok_mutate)
next
  case (callback n y)
  let ?y = "y\<lparr>vy_pending := take n (vy_pending y) @ drop (Suc n) (vy_pending y)\<rparr>"
  let ?e = "snd (vy_pending y ! n)"
  have "?e \<in> set (gone y)" using nth_mem [OF callback(1)] by (simp add: gone_def)
  then have e: "?e < length (vp_heap (vy_v ?y))" using callback(2) by (simp add: ids_inv_def ids_ok_def)
  have h: "heap_ok cf (vp_heap (vy_v ?y)) (vy_calls ?y)" using callback(3) by (simp add: calls_inv_def)
  note i = heap_ok_init [OF h e refl]
  show ?case using callback(3) i heap_ok_call(1) [OF i(1,3)]
    by (simp add: calls_inv_def on_eviction_def Let_def split: option.split)
next
  case (ea_keys i y f ks)
  then show ?case by (auto simp: calls_inv_def list_all_iff)
next
  case (w_found j y f k it c w)
  have "ent (items (vp_cache (vy_v y))) k = Some (fst it)"
    using lookup_live_SomeD [OF w_found(3)] by (simp add: ent_def)
  then have "fst it < length (vp_heap (vy_v y))" using w_found(6) by (auto simp: ids_inv_def ids_ok_def)
  then have eb: "entry_bound (length (vp_heap (vy_v y))) w" using w_found(5) by auto
  show ?case by (rule calls_inv_worker [OF w_found(7) _ _ _ eb]) simp_all
next
  case (w_call j y k e z)
  have "entry_bound (length (vp_heap (vy_v y))) (vy_workers y ! j)"
    using w_call(1,5) by (simp add: calls_inv_def list_all_length)
  then have e: "e < length (vp_heap (vy_v y))" using w_call(2) by simp
  have h: "heap_ok cf (vp_heap (vy_v y)) (vy_calls y)" using w_call(5) by (simp add: calls_inv_def)
  note i = heap_ok_init [OF h e w_call(3)]
  show ?case using w_call(3,5) heap_ok_call(2) [OF i(1,3)] by (simp add: calls_inv_def list_all_update)
next
  case (w_gone j y f k c)
  show ?case by (rule calls_inv_worker [where j = j and w = "W_done", OF w_gone(6)]) simp_all
next
  case (w_returned j y k)
  show ?case by (rule calls_inv_worker [where j = j and w = "W_delete k", OF w_returned(4)]) simp_all
next
  case (w_delete j y k c evs)
  show ?case by (rule calls_inv_worker [where j = j and w = "W_done", OF w_delete(6)]) simp_all
qed (simp_all add: calls_inv_def evictAfter_begin_def)

section \<open>What \<open>EvictAfter\<close> guarantees on its way\<close>

text \<open>Every live key is some worker's, among the \<open>n\<close> workers from \<open>lo\<close>.\<close>

definition covered :: "(bytes \<rightharpoonup> item) \<Rightarrow> worker list \<Rightarrow> nat \<Rightarrow> nat \<Rightarrow> bool" where
  "covered m ws lo n \<longleftrightarrow> lo + n \<le> length ws \<and>
     (\<forall>k. m k \<noteq> None \<longrightarrow> (\<exists>j. lo \<le> j \<and> j < lo + n \<and> worker_key (ws ! j) = Some k))"

fun evict_ok :: "(bytes \<rightharpoonup> item) \<Rightarrow> (bytes \<rightharpoonup> item) \<Rightarrow> worker list \<Rightarrow> evict_pc \<Rightarrow> bool" where
  "evict_ok m live ws (EA_keys f) = True"
| "evict_ok m live ws (EA_wait lo n) = covered live ws lo n"
| "evict_ok m live ws EA_returned = (m = Map.empty)"

abbreviation vy_items :: "('c \<Rightarrow> bytes \<rightharpoonup> item) \<Rightarrow> ('c, 't) vap_sys \<Rightarrow> bytes \<rightharpoonup> item" where
  "vy_items items y \<equiv> items (vp_cache (vy_v y))"

definition evict_inv :: "('c \<Rightarrow> bytes \<rightharpoonup> item) \<Rightarrow> ('c, 't) vap_sys \<Rightarrow> bool" where
  "evict_inv items y \<longleftrightarrow>
     (vy_evicts y \<noteq> [] \<longrightarrow> vp_stopped (vy_v y) \<and> vp_inited (vy_v y)) \<and>
     list_all (evict_ok (vy_items items y) (lookup_live (vy_now y) (vy_items items y)) (vy_workers y)) (vy_evicts y)"

lemma covered_less:
  "covered m ws lo n \<Longrightarrow> (\<And>k. m' k \<noteq> None \<Longrightarrow> m k \<noteq> None) \<Longrightarrow> covered m' ws lo n"
  unfolding covered_def by blast

lemma covered_append: "covered m ws lo n \<Longrightarrow> covered m (ws @ ws') lo n"
  by (fastforce simp: covered_def nth_append)

text \<open>A worker may forget its key when the key is no longer live.\<close>

lemma covered_worker:
  assumes "covered m ws lo n" "\<And>k. m' k \<noteq> None \<Longrightarrow> m k \<noteq> None"
    "worker_key w = worker_key (ws ! j) \<or> (\<exists>k. worker_key (ws ! j) = Some k \<and> m' k = None)"
  shows "covered m' (ws[j := w]) lo n"
proof -
  have "\<exists>i. lo \<le> i \<and> i < lo + n \<and> worker_key (ws[j := w] ! i) = Some k" if k: "m' k \<noteq> None" for k
  proof -
    obtain i where i: "lo \<le> i" "i < lo + n" "worker_key (ws ! i) = Some k" "i < length ws"
      using assms(1) assms(2) [OF k] unfolding covered_def by (meson less_le_trans)
    have "worker_key (ws[j := w] ! i) = Some k"
      using assms(3) i(3,4) k by (cases "i = j") auto
    with i show ?thesis by blast
  qed
  with assms(1) show ?thesis by (simp add: covered_def)
qed

lemma evict_ok_less:
  assumes "evict_ok m l ws pc" "\<And>k. l' k \<noteq> None \<Longrightarrow> l k \<noteq> None" "m = Map.empty \<Longrightarrow> m' = Map.empty"
  shows "evict_ok m' l' ws pc"
  using assms by (cases pc) (auto intro: covered_less)

lemma evict_inv_less:
  assumes "evict_inv items y" "vy_workers z = vy_workers y" "vy_evicts z = vy_evicts y"
    "vp_stopped (vy_v y) \<Longrightarrow> vp_stopped (vy_v z)" "vp_inited (vy_v y) \<Longrightarrow> vp_inited (vy_v z)"
    "\<And>k. lookup_live (vy_now z) (vy_items items z) k \<noteq> None \<Longrightarrow> lookup_live (vy_now y) (vy_items items y) k \<noteq> None"
    "vy_items items y = Map.empty \<Longrightarrow> vy_items items z = Map.empty"
  shows "evict_inv items z"
proof -
  have "evict_ok (vy_items items z) (lookup_live (vy_now z) (vy_items items z)) (vy_workers z) pc"
    if "evict_ok (vy_items items y) (lookup_live (vy_now y) (vy_items items y)) (vy_workers y) pc" for pc
    using evict_ok_less [OF that assms(6,7)] assms(2) by simp
  then show ?thesis using assms(1,3,4,5) by (simp add: evict_inv_def list_all_iff)
qed

lemma touch_live_sub:
  "lookup_live now m k = Some it \<Longrightarrow>
    lookup_live now (m(k \<mapsto> touch_item now it)) k' \<noteq> None \<Longrightarrow> lookup_live now m k' \<noteq> None"
  by (cases "k' = k") (simp_all add: lookup_live_def)

lemma live_sub_le: "m' \<subseteq>\<^sub>m m \<Longrightarrow> lookup_live now m' k \<noteq> None \<Longrightarrow> lookup_live now m k \<noteq> None"
  by (auto simp: lookup_live_def map_le_def dom_def split: option.splits if_splits)

lemma map_le_empty: "m' \<subseteq>\<^sub>m m \<Longrightarrow> m = Map.empty \<Longrightarrow> m' = Map.empty"
  by (rule ext) (metis domI empty_iff dom_empty map_le_implies_dom_le subsetD not_None_eq)

lemma removes_le: "removes m m' evs \<Longrightarrow> m' \<subseteq>\<^sub>m m"
  by (simp add: removes_def)

lemma evict_ok_worker:
  assumes "evict_ok m l ws pc" "\<And>k. l' k \<noteq> None \<Longrightarrow> l k \<noteq> None" "m = Map.empty \<Longrightarrow> m' = Map.empty"
    "worker_key w = worker_key (ws ! j) \<or> (\<exists>k. worker_key (ws ! j) = Some k \<and> l' k = None)"
  shows "evict_ok m' l' (ws[j := w]) pc"
  using assms by (cases pc) (auto intro: covered_worker)

lemma evict_inv_worker:
  assumes "evict_inv items y" "vy_workers z = (vy_workers y)[j := w]" "vy_evicts z = vy_evicts y"
    "vp_stopped (vy_v z) = vp_stopped (vy_v y)" "vp_inited (vy_v z) = vp_inited (vy_v y)" "vy_now z = vy_now y"
    "vy_items items z \<subseteq>\<^sub>m vy_items items y"
    "worker_key w = worker_key (vy_workers y ! j) \<or>
      (\<exists>k. worker_key (vy_workers y ! j) = Some k \<and> lookup_live (vy_now y) (vy_items items z) k = None)"
  shows "evict_inv items z"
proof -
  have "evict_ok (vy_items items z) (lookup_live (vy_now z) (vy_items items z)) (vy_workers z) pc"
    if "evict_ok (vy_items items y) (lookup_live (vy_now y) (vy_items items y)) (vy_workers y) pc" for pc
    unfolding assms(2,6) by (rule evict_ok_worker [OF that live_sub_le [OF assms(7)] map_le_empty [OF assms(7)] assms(8)])
  then show ?thesis using assms(1,3-5) by (simp add: evict_inv_def list_all_iff)
qed

lemma evict_inv_removes:
  assumes "evict_inv items y" "vy_items items z \<subseteq>\<^sub>m vy_items items y" "vy_workers z = vy_workers y"
    "vy_evicts z = vy_evicts y" "vp_stopped (vy_v z) = vp_stopped (vy_v y)"
    "vp_inited (vy_v z) = vp_inited (vy_v y)" "vy_now z = vy_now y"
  shows "evict_inv items z"
  using assms(1,3,4)
  by (rule evict_inv_less) (simp_all add: assms live_sub_le [OF assms(2)] map_le_empty [OF assms(2)] del: not_None_eq)

text \<open>Nothing is live once all workers of a call are done.\<close>

lemma covered_all_done:
  assumes "covered m ws lo n" "list_all (\<lambda>w. w = W_done) (take n (drop lo ws))"
  shows "m = Map.empty"
proof (rule ext, rule ccontr)
  fix k assume "m k \<noteq> None"
  then obtain j where j: "lo \<le> j" "j < lo + n" "worker_key (ws ! j) = Some k"
    using assms(1) unfolding covered_def by blast
  have "ws ! j = take n (drop lo ws) ! (j - lo)" "j - lo < length (take n (drop lo ws))"
    using assms(1) j(1,2) by (auto simp: covered_def)
  then have "ws ! j = W_done" using assms(2) by (simp add: list_all_length)
  with j(3) show False by simp
qed

text \<open>The workers for the keys just read cover what is live.\<close>

lemma covered_new:
  assumes "dom m \<subseteq> set ks"
  shows "covered m (ws @ map (W_get f) ks) (length ws) (length ks)"
  unfolding covered_def
proof (intro conjI allI impI)
  fix k assume "m k \<noteq> None"
  then have "k \<in> set ks" using assms by (auto simp: dom_def)
  then obtain i where "i < length ks" "ks ! i = k" by (auto simp: in_set_conv_nth)
  then show "\<exists>j. length ws \<le> j \<and> j < length ws + length ks \<and> worker_key ((ws @ map (W_get f) ks) ! j) = Some k"
    by (intro exI [of _ "length ws + i"]) (simp add: nth_append)
qed simp

lemma evict_inv_trans:
  "vap_trans items cf y y' \<Longrightarrow> ids_inv items y \<Longrightarrow> evict_inv items y \<Longrightarrow> evict_inv items y'"
proof (induction rule: vap_trans.induct)
  case (tick y n)
  have "lookup_live (vy_now y) m k \<noteq> None" if "lookup_live (vy_now y + int n) m k \<noteq> None" for m k
  proof
    assume "lookup_live (vy_now y) m k = None"
    then have "lookup_live (vy_now y + int n) m k = None" by (rule lookup_live_mono [rotated]) simp
    with that show False by simp
  qed
  with tick(2) show ?case by - (rule evict_inv_less, simp_all del: not_None_eq)
next
  case (fresh y k c d x)
  then have "vy_evicts y = []" by (auto simp: evict_inv_def)
  then show ?case by (simp add: evict_inv_def)
next
  case (touch y k it c)
  have "lookup_live (vy_now y) (items c) k' \<noteq> None \<Longrightarrow> lookup_live (vy_now y) (vy_items items y) k' \<noteq> None" for k'
    unfolding touch(3) by (rule touch_live_sub [OF touch(2)])
  moreover have "vy_items items y = Map.empty \<Longrightarrow> items c = Map.empty" using lookup_live_SomeD [OF touch(2)] by auto
  ultimately show ?case using touch(5) by - (rule evict_inv_less, simp_all del: not_None_eq)
next
  case (evict y c evs s)
  from evict(4) show ?case by (rule evict_inv_removes) (simp_all add: removes_le [OF evict(1)])
next
  case (callback n y)
  from callback(3) show ?case by (rule evict_inv_less) (simp_all del: not_None_eq)
next
  case (init e y)
  from init(3) show ?case by (rule evict_inv_less) (simp_all del: not_None_eq)
next
  case (ea_begin y f)
  then show ?case by (simp add: evict_inv_def evictAfter_begin_def)
next
  case (ea_keys i y f ks)
  let ?live = "lookup_live (vy_now y) (vy_items items y)"
  let ?ws = "vy_workers y @ map (W_get f) ks"
  have "evict_ok (vy_items items y) ?live ?ws pc"
    if "evict_ok (vy_items items y) ?live (vy_workers y) pc" for pc
    using that by (cases pc) (auto intro: covered_append)
  then have "list_all (evict_ok (vy_items items y) ?live ?ws) (vy_evicts y)"
    using ea_keys(5) by (simp add: evict_inv_def list_all_iff)
  moreover have "evict_ok (vy_items items y) ?live ?ws (EA_wait (length (vy_workers y)) (length ks))"
    using covered_new [OF ea_keys(3)] by simp
  ultimately show ?case using ea_keys(5) by (simp add: evict_inv_def list_all_update)
next
  case (ea_wait i y lo n c evs)
  have "evict_ok (vy_items items y) (lookup_live (vy_now y) (vy_items items y)) (vy_workers y) (EA_wait lo n)"
    using ea_wait(1,2,7) unfolding evict_inv_def list_all_length by metis
  then have e: "items c = Map.empty" using covered_all_done [OF _ ea_wait(3)] ea_wait(4) by simp
  have "evict_ok Map.empty (lookup_live (vy_now y) Map.empty) (vy_workers y) pc"
    if "evict_ok (vy_items items y) (lookup_live (vy_now y) (vy_items items y)) (vy_workers y) pc" for pc
    using that by (rule evict_ok_less) (simp_all add: lookup_live_def)
  then have "list_all (evict_ok Map.empty (lookup_live (vy_now y) Map.empty) (vy_workers y)) (vy_evicts y)"
    using ea_wait(7) by (simp add: evict_inv_def list_all_iff)
  then show ?case using ea_wait(7) by (simp add: evict_inv_def e list_all_update)
next
  case (w_found j y f k it c w)
  show ?case by (rule evict_inv_worker [OF w_found(7), where j = j and w = w]) (use w_found in auto)
next
  case (w_gone j y f k c)
  show ?case by (rule evict_inv_worker [OF w_gone(6), where j = j and w = W_done]) (use w_gone in auto)
next
  case (w_call j y k e z)
  show ?case by (rule evict_inv_worker [OF w_call(5), where j = j and w = "W_in_f k"]) (use w_call in auto)
next
  case (w_returned j y k)
  show ?case by (rule evict_inv_worker [OF w_returned(4), where j = j and w = "W_delete k"]) (use w_returned in auto)
next
  case (w_delete j y k c evs)
  show ?case
    by (rule evict_inv_worker [OF w_delete(6), where j = j and w = W_done])
       (use w_delete removes_le [OF w_delete(4)] in \<open>auto simp: lookup_live_def\<close>)
qed (simp_all add: evict_inv_def)

section \<open>All invariants, and what only grows\<close>

lemma started_inv_trans:
  "vap_trans items cf y y' \<Longrightarrow> started_inv items y \<Longrightarrow> started_inv items y'"
proof (induction rule: vap_trans.induct)
  case (touch y k it c)
  then show ?case by (simp add: started_inv_def)
next
  case (evict y c evs s)
  then show ?case using map_le_empty [OF removes_le [OF evict(1)]] by (auto simp: started_inv_def)
next
  case (ea_wait i y lo n c evs)
  then show ?case using map_le_empty [OF removes_le [OF ea_wait(5)]] by (simp add: started_inv_def)
next
  case (w_delete j y k c evs)
  then show ?case using map_le_empty [OF removes_le [OF w_delete(4)]] by (simp add: started_inv_def)
qed (simp_all add: started_inv_def evictAfter_begin_def)

definition vap_inv :: "('c \<Rightarrow> bytes \<rightharpoonup> item) \<Rightarrow> 't vap_conf \<Rightarrow> ('c, 't) vap_sys \<Rightarrow> bool" where
  "vap_inv items cf y \<longleftrightarrow> started_inv items y \<and> ids_inv items y \<and> calls_inv cf y \<and> evict_inv items y"

lemma vap_inv_trans: "vap_trans items cf y y' \<Longrightarrow> vap_inv items cf y \<Longrightarrow> vap_inv items cf y'"
  using started_inv_trans ids_inv_trans calls_inv_trans evict_inv_trans unfolding vap_inv_def by blast

lemma vap_inv_step:
  "cache_laws ops items \<Longrightarrow> vap_inv items cf y \<Longrightarrow> vap_step ops cf ev y = Some y' \<Longrightarrow> vap_inv items cf y'"
  using vap_step_trans2 [of ops items y cf ev y'] vap_inv_trans unfolding vap_inv_def by blast

lemma vap_inv_start: "cache_laws ops items \<Longrightarrow> vap_start ops y \<Longrightarrow> vap_inv items cf y"
  by (auto simp: vap_start_def vap_inv_def started_inv_def ids_inv_def calls_inv_def evict_inv_def vapor_zero_def
      heap_ok_def ids_ok_def gone_def law_New)

text \<open>
  What no step takes back: time, \<open>stopped\<close> (after which no element appears), the calls made
  and the returned calls of \<open>EvictAfter\<close>.
\<close>

definition vap_grows :: "('c \<Rightarrow> bytes \<rightharpoonup> item) \<Rightarrow> ('c, 't) vap_sys \<Rightarrow> ('c, 't) vap_sys \<Rightarrow> bool" where
  "vap_grows items y z \<longleftrightarrow>
     vy_now y \<le> vy_now z \<and>
     (vp_stopped (vy_v y) \<longrightarrow> vp_stopped (vy_v z) \<and> ent (vy_items items z) \<subseteq>\<^sub>m ent (vy_items items y)) \<and>
     (\<exists>cs. vy_calls z = cs @ vy_calls y) \<and>
     (\<forall>i < length (vy_evicts y). vy_evicts y ! i = EA_returned \<longrightarrow>
        i < length (vy_evicts z) \<and> vy_evicts z ! i = EA_returned)"

lemma vap_grows_refl: "vap_grows items y y"
  by (simp add: vap_grows_def)

lemma vap_grows_trans:
  assumes "vap_grows items x y" "vap_grows items y z"
  shows "vap_grows items x z"
proof -
  have "vp_stopped (vy_v x) \<longrightarrow> ent (vy_items items z) \<subseteq>\<^sub>m ent (vy_items items x)"
    using assms unfolding vap_grows_def by (blast intro: map_le_trans)
  moreover have "\<exists>cs. vy_calls z = cs @ vy_calls x"
    using assms unfolding vap_grows_def by (metis append_assoc)
  ultimately show ?thesis using assms unfolding vap_grows_def by fastforce
qed

lemma ent_le_map: "m' \<subseteq>\<^sub>m m \<Longrightarrow> ent m' \<subseteq>\<^sub>m ent m"
  by (simp add: map_le_def dom_def ent_def)

lemma evicts_kept:
  "pcs ! i \<noteq> EA_returned \<Longrightarrow> \<forall>j < length pcs. pcs ! j = EA_returned \<longrightarrow>
    j < length (pcs[i := pc]) \<and> pcs[i := pc] ! j = EA_returned"
  by (metis length_list_update nth_list_update_neq)

lemma vap_trans_grows: "vap_trans items cf y y' \<Longrightarrow> vap_grows items y y'"
proof (induction rule: vap_trans.induct)
  case (touch y k it c)
  have "items (vp_cache (vy_v y)) k = Some it" using lookup_live_SomeD [OF touch(2)] by simp
  then show ?case using touch ent_touch [of "vy_items items y" k it] by (simp add: vap_grows_def del: ent_simps)
next
  case (evict y c evs s)
  then show ?case using ent_le_map [OF removes_le [OF evict(1)]] by (simp add: vap_grows_def)
next
  case (callback n y)
  then show ?case
    by (simp add: vap_grows_def on_eviction_def sys_initItem_def Let_def split: option.split)
next
  case (ea_keys i y f ks)
  then show ?case using evicts_kept [of "vy_evicts y" i] by (simp add: vap_grows_def)
next
  case (ea_wait i y lo n c evs)
  then show ?case using ent_le_map [OF removes_le [OF ea_wait(5)]] evicts_kept [of "vy_evicts y" i]
    by (simp add: vap_grows_def)
next
  case (w_delete j y k c evs)
  show ?case using ent_le_map [OF removes_le [OF w_delete(4)]] by (simp add: vap_grows_def)
next
  case (w_call j y k e z)
  then show ?case by (simp add: vap_grows_def sys_initItem_def)
next
  case (ea_begin y f)
  then show ?case by (simp add: vap_grows_def evictAfter_begin_def nth_append)
qed (simp_all add: vap_grows_def sys_initItem_def)

interpretation vap: monotone_system "vap_start ops" "vap_step ops cf"
  "\<lambda>y. cache_laws ops items \<longrightarrow> vap_inv items cf y" "\<lambda>y z. cache_laws ops items \<longrightarrow> vap_grows items y z"
  for ops :: "'c cache_ops" and cf :: "'t vap_conf" and items :: "'c \<Rightarrow> bytes \<rightharpoonup> item"
proof
  fix y z :: "('c, 't) vap_sys" and ev
  assume i: "cache_laws ops items \<longrightarrow> vap_inv items cf y" and s: "vap_step ops cf ev y = Some z"
  show "cache_laws ops items \<longrightarrow> vap_grows items y z"
    using vap_step_trans2 [OF _ _ s, of items] i vap_trans_grows vap_grows_trans
    unfolding vap_inv_def by blast
qed (auto intro: vap_inv_start vap_inv_step vap_grows_refl vap_grows_trans)

lemmas vap_reachable_inv = vap.reachable_inv [rule_format]

end
