(* ===== verification/VaporProps.thy ===== *)
theory VaporProps
  imports VaporInv
begin

text \<open>
  The properties of \<open>Vapor\<close>: how often and in which order the user's functions are called,
  what \<open>EvictAfter\<close> guarantees when it returns, what creating an element promises, and how
  an access prolongs the life of an element. A cache over association lists keeps all the laws
  and serves the witnesses.
\<close>

section \<open>A cache that keeps the laws\<close>

definition without :: "bytes \<Rightarrow> (bytes \<times> item) list \<Rightarrow> (bytes \<times> item) list" where
  "without k c = filter (\<lambda>p. fst p \<noteq> k) c"

definition list_cache :: "(bytes \<times> item) list cache_ops" where
  "list_cache = \<lparr>tc_New = [],
     tc_GetOrSet = (\<lambda>now k e d c. case lookup_live now (map_of c) k of
         Some it \<Rightarrow> (c, fst it, True)
       | None \<Rightarrow> ((k, e, d, if 0 < d then Some (now + d) else None) # without k c, e, False)),
     tc_Get = (\<lambda>t now k c. case lookup_live now (map_of c) k of
         Some it \<Rightarrow> (if t then (k, touch_item now it) # without k c else c, Some (fst it))
       | None \<Rightarrow> (c, None)),
     tc_Delete = (\<lambda>k c. (without k c,
       evictions EvictionReasonDeleted (map_of c) (if map_of c k = None then [] else [k]))),
     tc_DeleteAll = (\<lambda>c. ([], evictions EvictionReasonDeleted (map_of c) (remdups (map fst c)))),
     tc_DeleteExpired = (\<lambda>now c. (filter (\<lambda>p. lookup_live now (map_of c) (fst p) \<noteq> None) c,
       evictions EvictionReasonExpired (map_of c)
         (filter (\<lambda>k. lookup_live now (map_of c) k = None) (remdups (map fst c))))),
     tc_Keys = (\<lambda>now c. filter (\<lambda>k. lookup_live now (map_of c) k \<noteq> None) (remdups (map fst c)))\<rparr>"

lemma map_of_filter_key: "map_of (filter (\<lambda>p. P (fst p)) c) k = (if P k then map_of c k else None)"
  by (induction c) auto

lemma map_of_without: "map_of (without k c) = (map_of c)(k := None)"
  using map_of_filter_key [of "\<lambda>x. x \<noteq> k" c] by (auto simp: without_def)

lemma list_cache_laws: "cache_laws list_cache map_of"
proof -
  have "get_or_set_law list_cache map_of" "get_law list_cache map_of"
    unfolding get_or_set_law_def get_law_def list_cache_def
    by (auto simp: map_of_without split: option.split)
  moreover have "delete_law list_cache map_of"
    unfolding delete_law_def list_cache_def by (simp add: map_of_without)
  moreover have "delete_all_law list_cache map_of"
    unfolding delete_all_law_def evicts_exactly_def
  proof (intro allI)
    fix c :: "(bytes \<times> item) list"
    have "set (remdups (map fst c)) = dom (map_of c)" by (simp add: dom_map_of_conv_image_fst)
    then show "case tc_DeleteAll list_cache c of (c', evs) \<Rightarrow> map_of c' = Map.empty \<and>
        (\<exists>ks. distinct ks \<and> set ks = dom (map_of c) \<and> evs = evictions EvictionReasonDeleted (map_of c) ks)"
      by (auto simp only: list_cache_def cache_ops.simps prod.case distinct_remdups map_of.simps
          intro!: exI [of _ "remdups (map fst c)"])
  qed
  moreover have "delete_expired_law list_cache map_of"
    unfolding delete_expired_law_def evicts_exactly_def
  proof (intro allI)
    fix now and c :: "(bytes \<times> item) list"
    have "map_of (filter (\<lambda>p. lookup_live now (map_of c) (fst p) \<noteq> None) c) = lookup_live now (map_of c)"
    proof (rule ext)
      fix k
      show "map_of (filter (\<lambda>p. lookup_live now (map_of c) (fst p) \<noteq> None) c) k = lookup_live now (map_of c) k"
        using lookup_live_SomeD [of now "map_of c" k]
        by (subst map_of_filter_key) (auto simp del: not_None_eq)
    qed
    moreover have "set (filter (\<lambda>k. lookup_live now (map_of c) k = None) (remdups (map fst c))) =
        {k \<in> dom (map_of c). lookup_live now (map_of c) k = None}"
      by (simp add: dom_map_of_conv_image_fst conj_commute set_eq_iff)
    ultimately show "case tc_DeleteExpired list_cache now c of (c', evs) \<Rightarrow>
        map_of c' = lookup_live now (map_of c) \<and>
        (\<exists>ks. distinct ks \<and> set ks = {k \<in> dom (map_of c). lookup_live now (map_of c) k = None} \<and>
          evs = evictions EvictionReasonExpired (map_of c) ks)"
      by (auto simp only: list_cache_def cache_ops.simps prod.case distinct_filter distinct_remdups
          intro!: exI [of _ "filter (\<lambda>k. lookup_live now (map_of c) k = None) (remdups (map fst c))"])
  qed
  moreover have "keys_law list_cache map_of"
    unfolding keys_law_def
  proof (intro allI subsetI)
    fix now k and c :: "(bytes \<times> item) list"
    assume k: "k \<in> dom (lookup_live now (map_of c))"
    then have "k \<in> dom (map_of c)" by (auto dest: lookup_live_SomeD)
    with k show "k \<in> set (tc_Keys list_cache now c)"
      by (auto simp: list_cache_def dom_map_of_conv_image_fst)
  qed
  ultimately show ?thesis by (simp add: cache_laws_def list_cache_def)
qed

text \<open>A system run used by the witnesses: elements are numbers, \<open>Initialize\<close> sets 7.\<close>

definition demo_conf :: "nat vap_conf" where
  "demo_conf = \<lparr>vc_zero = 0, vc_Initialize = Some (\<lambda>_. 7), vc_Finalize = True\<rparr>"

definition demo_vap :: "((bytes \<times> item) list, nat) vap_sys" where
  "demo_vap = \<lparr>vy_v = vapor_zero list_cache, vy_now = 0, vy_pending = [], vy_calls = [], vy_workers = [],
     vy_evicts = [], vy_panic = False\<rparr>"

lemma demo_vap_reachable:
  "run_events (vap_step list_cache demo_conf) es demo_vap = Some y \<Longrightarrow> vap_reachable list_cache demo_conf y"
proof (rule run_events_reachable)
  show "vap_reachable list_cache demo_conf demo_vap"
    by (rule reach_start) (simp add: vap_start_def demo_vap_def)
qed

lemmas vap_demo_simps = demo_vap_def demo_conf_def vapor_zero_def vapor_start_def newEntry_try_def list_cache_def
  without_def lookup_live_def unexpired_def touch_item_def evictions_def sys_initItem_def vapor_initItem_def
  on_eviction_def evictAfter_begin_def evictAfter_keys_def evictAfter_wait_def set_evict_def set_worker_def
  worker_step_def vapor_Evict_def vapor_Close_def vapor_stop_def Let_def

text \<open>The run: two elements are created, one is read again, \<open>EvictAfter\<close> evicts what is left.\<close>

definition demo_events :: "nat vap_event list" where
  "demo_events = [VStart, VTry ''a'' 60, VInitItem 0, VTick 50, VTry ''b'' 60, VLookup ''b'', VTick 20, VCleanup,
     VCallback 0, VEvictAfter True, VKeys 0, VWorker 0, VWorker 0, VWorker 0, VWorker 0, VWait 0, VCallback 0]"

lemma demo_events_run:
  "\<exists>y. run_events (vap_step list_cache demo_conf) demo_events demo_vap = Some y \<and>
     vy_calls y = [CFinal FinalizeReasonDeleted 1, CEvictF 1, CInit 1, CFinal FinalizeReasonExpired 0, CInit 0] \<and>
     vy_evicts y = [EA_returned] \<and> vy_pending y = [] \<and> vp_inited (vy_v y)"
  unfolding demo_events_def by (simp add: vap_demo_simps)

section \<open>Creating an element\<close>

text \<open>One round of the loop, by the laws.\<close>

definition try_taken :: "('c \<Rightarrow> bytes \<rightharpoonup> item) \<Rightarrow> ('c, 't) vapor \<Rightarrow> int \<times> bytes \<Rightarrow> bool" where
  "try_taken items v call \<longleftrightarrow> snd call = [] \<or>
     (\<not> vp_stopped v \<and> lookup_live (fst call) (items (vp_cache v)) (snd call) \<noteq> None)"

lemma newEntry_try_cases:
  assumes "cache_laws ops items" "newEntry_try ops cf now key d v = (v', r)"
  obtains (again) "try_taken items v (now, key)" "r = TryAgain" "items (vp_cache v') = items (vp_cache v)"
        "vp_stopped v' = vp_stopped v" "length (vp_heap v) \<le> length (vp_heap v')" "vp_inited v' = vp_inited v"
    | (stopped) "key \<noteq> []" "vp_stopped v" "r = TryStopped" "v' = v"
    | (got) x where "key \<noteq> []" "\<not> vp_stopped v" "lookup_live now (items (vp_cache v)) key = None"
        "r = TryGot (length (vp_heap v))" "v' = v\<lparr>vp_cache := vp_cache v', vp_heap := vp_heap v @ [zero_entry cf]\<rparr>"
        "items (vp_cache v') = (items (vp_cache v))(key \<mapsto> (length (vp_heap v), d, x))" "0 < d \<Longrightarrow> x = Some (now + d)"
proof (cases "key = [] \<or> vp_stopped v")
  case True
  show thesis
  proof (cases "key = []")
    case True
    with assms(2) show thesis by (intro again) (simp_all add: newEntry_try_def try_taken_def)
  next
    case k: False
    with True assms(2) show thesis by (intro stopped) (simp_all add: newEntry_try_def)
  qed
next
  case False
  obtain c e found where g: "tc_GetOrSet ops now key (length (vp_heap v)) d (vp_cache v) = (c, e, found)"
    by (cases "tc_GetOrSet ops now key (length (vp_heap v)) d (vp_cache v)") auto
  from assms(1) g show thesis
  proof (cases rule: law_GetOrSet)
    case (hit it)
    with False g assms(2) show thesis by (intro again) (auto simp: newEntry_try_def try_taken_def)
  next
    case (miss x)
    with False g assms(2) show thesis
      by (intro got [of x]) (auto simp: newEntry_try_def Let_def zero_entry_def)
  qed
qed

lemma try_got_fields:
  "v' = v\<lparr>vp_cache := c, vp_heap := vp_heap v @ [en]\<rparr> \<Longrightarrow> vp_stopped v' = vp_stopped v \<and>
    length (vp_heap v') = Suc (length (vp_heap v)) \<and> vp_heap v' ! length (vp_heap v) = en"
  by simp

lemma vapor_start_heap [simp]: "vp_heap (vapor_start ops v) = vp_heap v"
  by (simp add: vapor_start_def Let_def)

lemma newEntry_loop_stopped: "vp_stopped v \<Longrightarrow> isl (snd (newEntry_loop ops cf calls d v))"
  by (induction calls) (auto simp: newEntry_try_def)

lemma newEntry_stopped: "vp_stopped v \<Longrightarrow> isl (snd (vapor_newEntry ops cf NewID d v))"
proof -
  assume "vp_stopped v"
  then have "vp_stopped (vapor_start ops v)" by (simp add: vapor_start_def Let_def)
  then show ?thesis
    by (cases NewID) (simp_all add: vapor_newEntry_def Let_def newEntry_loop_stopped)
qed

section \<open>The calls of the user's functions\<close>

text \<open>
  Property C19. However creations, accesses, evictions, expiry and shutdown interleave, an element
  is initialised at most once and finalized at most once; no element still stored was
  finalized; an element is initialised before it is given to \<open>Finalize\<close> or to the function of
  \<open>EvictAfter\<close>; and the \<open>panic\<close> marked "never reached" is never reached.
\<close>

theorem vapor_finalize_once:
  assumes "cache_laws ops items" and "vap_reachable ops cf y"
  shows "distinct (inits (vy_calls y)) \<and> distinct (finals (vy_calls y)) \<and> \<not> vy_panic y \<and>
    (\<forall>k it. items (vp_cache (vy_v y)) k = Some it \<longrightarrow> fst it \<notin> set (finals (vy_calls y))) \<and>
    (vc_Initialize cf \<noteq> None \<longrightarrow> inits_first (vy_calls y))"
proof -
  note i = vap_reachable_inv [OF assms(2,1)]
  have ids: "ids_ok (ent (items (vp_cache (vy_v y)))) (length (vp_heap (vy_v y))) (gone y)" "\<not> vy_panic y"
    using i by (simp_all add: vap_inv_def ids_inv_def)
  have "distinct (gone y)" using ids(1) by (simp add: ids_ok_def)
  moreover have "fst it \<notin> set (gone y)" if "items (vp_cache (vy_v y)) k = Some it" for k it
  proof -
    have "ent (items (vp_cache (vy_v y))) k = Some (fst it)" using that by (simp add: ent_def)
    then show ?thesis using ids(1) unfolding ids_ok_def by blast
  qed
  ultimately have "distinct (finals (vy_calls y))"
    "\<forall>k it. items (vp_cache (vy_v y)) k = Some it \<longrightarrow> fst it \<notin> set (finals (vy_calls y))"
    unfolding gone_def by auto
  then show ?thesis using i ids(2) by (simp add: vap_inv_def calls_inv_def heap_ok_def)
qed

theorem vapor_finalize_once_witness:
  "\<exists>y. run_events (vap_step list_cache demo_conf) demo_events demo_vap = Some y \<and>
     distinct (finals (vy_calls y)) \<and> set (finals (vy_calls y)) = {0, 1}"
proof -
  obtain y where y: "run_events (vap_step list_cache demo_conf) demo_events demo_vap = Some y"
    "vy_calls y = [CFinal FinalizeReasonDeleted 1, CEvictF 1, CInit 1, CFinal FinalizeReasonExpired 0, CInit 0]"
    using demo_events_run by blast
  from vapor_finalize_once [OF list_cache_laws demo_vap_reachable [OF y(1)]] y show ?thesis by auto
qed

text \<open>
  Property C20. \<open>EvictAfter\<close> empties the vapor for good: when it has returned, nothing is
  stored, at that time and after any later events (other callers, more time, a new start), and
  no later attempt to create an element succeeds.
\<close>

theorem EvictAfter_empties:
  assumes "cache_laws ops items" and "vap_reachable ops cf y" and "i < length (vy_evicts y)"
    and "vy_evicts y ! i = EA_returned" and "run_events (vap_step ops cf) es y = Some z"
  shows "items (vp_cache (vy_v z)) = Map.empty \<and> isl (snd (vapor_newEntry ops cf NewID d (vy_v z)))"
proof -
  note iy = vap_reachable_inv [OF assms(2,1)]
  have "\<And>pc. pc \<in> set (vy_evicts y) \<Longrightarrow>
      evict_ok (vy_items items y) (lookup_live (vy_now y) (vy_items items y)) (vy_workers y) pc"
    using iy by (simp add: vap_inv_def evict_inv_def list_all_iff)
  then have e: "vy_items items y = Map.empty" using assms(3,4) by (metis evict_ok.simps(3) nth_mem)
  have s: "vp_stopped (vy_v y)" using iy assms(3) by (auto simp: vap_inv_def evict_inv_def)
  have g: "vap_grows items y z" using vap.reachable_rel [OF assms(2,5), of items] assms(1) by simp
  have z: "vp_stopped (vy_v z)" using g s by (simp add: vap_grows_def)
  have "ent (vy_items items z) \<subseteq>\<^sub>m Map.empty" using g s e by (simp add: vap_grows_def)
  then have "dom (vy_items items z) = {}" by (metis dom_empty ent_simps(3) map_le_implies_dom_le subset_empty)
  then show ?thesis using newEntry_stopped [of "vy_v z"] z by simp
qed

theorem EvictAfter_empties_witness:
  "\<exists>y. run_events (vap_step list_cache demo_conf) demo_events demo_vap = Some y \<and>
     map_of (vp_cache (vy_v y)) = Map.empty \<and>
     isl (snd (vapor_newEntry list_cache demo_conf (Some (\<lambda>i. (90, ''c''))) 60 (vy_v y)))"
proof -
  obtain y where y: "run_events (vap_step list_cache demo_conf) demo_events demo_vap = Some y"
    "vy_evicts y = [EA_returned]"
    using demo_events_run by blast
  from EvictAfter_empties [OF list_cache_laws demo_vap_reachable [OF y(1)], of 0 "[]"] y show ?thesis by simp
qed

text \<open>
  Property C21. What creating an element returns: on success the id is one that \<open>NewID\<close> gave, is
  not empty, belonged to no live element at that time, and is now the key of a new entry that
  expires after \<open>d\<close>; every other element is as before.
\<close>

theorem newEntry_success:
  assumes "cache_laws ops items" and "vapor_newEntry ops cf (Some f) d v = (v', Inr (key, e))" and "0 < d"
  shows "\<exists>i < maxNewIDCalls. \<exists>now. f i = (now, key) \<and> key \<noteq> [] \<and> \<not> vp_stopped v' \<and>
    lookup_live now (items (vp_cache (vapor_start ops v))) key = None \<and>
    length (vp_heap v) \<le> e \<and> e < length (vp_heap v') \<and> vp_heap v' ! e = zero_entry cf \<and>
    items (vp_cache v') = (items (vp_cache (vapor_start ops v)))(key \<mapsto> (e, d, Some (now + d)))"
proof -
  have "\<exists>now. (now, key) \<in> set calls \<and> key \<noteq> [] \<and> \<not> vp_stopped v' \<and>
      lookup_live now (items (vp_cache w)) key = None \<and>
      length (vp_heap w) \<le> e \<and> e < length (vp_heap v') \<and> vp_heap v' ! e = zero_entry cf \<and>
      items (vp_cache v') = (items (vp_cache w))(key \<mapsto> (e, d, Some (now + d)))"
    if "newEntry_loop ops cf calls d w = (v', Inr (key, e))" for calls w
    using that
  proof (induction calls arbitrary: w)
    case (Cons call calls)
    obtain now k where c: "call = (now, k)" by force
    obtain w' r where t: "newEntry_try ops cf now k d w = (w', r)" by force
    from assms(1) t show ?case
    proof (cases rule: newEntry_try_cases)
      case again
      with Cons.prems c t have "newEntry_loop ops cf calls d w' = (v', Inr (key, e))" by simp
      from Cons.IH [OF this] again c show ?thesis by fastforce
    next
      case stopped
      with Cons.prems c t show ?thesis by simp
    next
      case (got x)
      with Cons.prems c t assms(3) show ?thesis
        by (intro exI [of _ now]) (auto dest: try_got_fields)
    qed
  qed simp
  from this [of "map f [0..<maxNewIDCalls]" "vapor_start ops v"] assms(2)
  obtain now where n: "(now, key) \<in> set (map f [0..<maxNewIDCalls])"
    and r: "key \<noteq> [] \<and> \<not> vp_stopped v' \<and> lookup_live now (items (vp_cache (vapor_start ops v))) key = None \<and>
      length (vp_heap v) \<le> e \<and> e < length (vp_heap v') \<and> vp_heap v' ! e = zero_entry cf \<and>
      items (vp_cache v') = (items (vp_cache (vapor_start ops v)))(key \<mapsto> (e, d, Some (now + d)))"
    by (auto simp: vapor_newEntry_def Let_def)
  obtain i where "i < maxNewIDCalls" "f i = (now, key)" using n by auto
  with r show ?thesis by blast
qed

theorem newEntry_success_witness:
  "\<exists>v. vapor_newEntry list_cache demo_conf (Some (\<lambda>i. (5, if i = 0 then [] else ''a''))) 60 (vapor_zero list_cache)
      = (v, Inr (''a'', 0)) \<and> map_of (vp_cache v) = [''a'' \<mapsto> (0, 60, Some 65)]"
proof -
  let ?f = "\<lambda>i. (5, if i = 0 then [] else ''a'')"
  have m: "map ?f [0..<maxNewIDCalls] = (5, []) # (5, ''a'') # map ?f [2..<maxNewIDCalls]"
  proof -
    have "1 < maxNewIDCalls" by (simp add: maxNewIDCalls_def)
    then have "[0..<maxNewIDCalls] = 0 # 1 # [2..<maxNewIDCalls]"
      by (simp add: upt_conv_Cons numeral_2_eq_2)
    then show ?thesis by simp
  qed
  obtain v where v: "vapor_newEntry list_cache demo_conf (Some ?f) 60 (vapor_zero list_cache) = (v, Inr (''a'', 0))"
    unfolding vapor_newEntry_def by (simp add: m vap_demo_simps del: upt.simps)
  from newEntry_success [OF list_cache_laws this] v show ?thesis
    by (auto simp: vap_demo_simps split: if_splits)
qed

text \<open>
  Property C22. Creating an element fails with \<open>errNoID\<close> exactly when every one of the 1000 ids
  was empty or, in a vapor that is not stopped, the id of a live element; nothing is stored then.
  A failure never stores anything.
\<close>

theorem newEntry_errNoID:
  assumes "cache_laws ops items"
  shows "snd (vapor_newEntry ops cf (Some f) d v) = Inl errNoID \<longleftrightarrow>
    (\<forall>i < maxNewIDCalls. try_taken items (vapor_start ops v) (f i))"
proof -
  have "snd (newEntry_loop ops cf calls d w) = Inl errNoID \<longleftrightarrow> list_all (try_taken items w) calls" for calls w
  proof (induction calls arbitrary: w)
    case (Cons call calls)
    obtain now k where c: "call = (now, k)" by force
    obtain w' r where t: "newEntry_try ops cf now k d w = (w', r)" by force
    from assms t show ?case
    proof (cases rule: newEntry_try_cases)
      case again
      then have "try_taken items w' = try_taken items w" by (intro ext) (simp only: try_taken_def)
      with again Cons.IH [of w'] c t show ?thesis by simp
    next
      case stopped
      with c t show ?thesis by (simp add: try_taken_def errStopped_def errNoID_def)
    next
      case (got x)
      with c t show ?thesis by (simp add: try_taken_def)
    qed
  qed simp
  then show ?thesis
    by (simp add: vapor_newEntry_def Let_def list_all_length)
qed

theorem newEntry_errNoID_witness:
  "snd (vapor_newEntry list_cache demo_conf (Some (\<lambda>i. (0, []))) 60 (vapor_zero list_cache)) = Inl errNoID"
  using newEntry_errNoID [OF list_cache_laws, of demo_conf "\<lambda>i. (0, [])" 60 "vapor_zero list_cache"]
  by (simp add: try_taken_def)

section \<open>Reading an element\<close>

text \<open>
  What a read gives out has been initialised, exactly once and on the zero value: an
  element that was read, created or finalized before is given out as its users left it, any other
  is the zero value after \<open>Initialize\<close>.
\<close>

theorem Get_initialised:
  assumes "cache_laws ops items" and "vap_reachable ops cf y" and "vp_inited (vy_v y)"
    and "vapor_Get ops cf now key (vy_v y) = (v, Inr e)"
  shows "e < length (vp_heap v) \<and> vp_heap v ! e =
    (if en_once (vp_heap (vy_v y) ! e) then vp_heap (vy_v y) ! e
     else \<lparr>en_once = True, en_value = (case vc_Initialize cf of None \<Rightarrow> vc_zero cf | Some f \<Rightarrow> f (vc_zero cf))\<rparr>)"
proof -
  note i = vap_reachable_inv [OF assms(2,1)]
  obtain c where c: "vapor_start ops (vy_v y) = (vy_v y)\<lparr>vp_cache := c, vp_inited := True, vp_started := True\<rparr>"
    "items c = items (vp_cache (vy_v y))"
    using vapor_start_fields [OF assms(1)] i by (auto simp: vap_inv_def)
  obtain c' r where g: "tc_Get ops True now key c = (c', r)" by force
  have r: "r = Some e" and v: "v = vapor_initItem cf e ((vy_v y)\<lparr>vp_inited := True, vp_started := True, vp_cache := c'\<rparr>)"
    using assms(4) c g by (auto simp: vapor_Get_def Let_def split: option.splits)
  from assms(1) g r obtain it where "lookup_live now (items c) key = Some it" "e = fst it"
    by (cases rule: law_Get) auto
  then have "ent (items (vp_cache (vy_v y))) key = Some e"
    using lookup_live_SomeD [of now "items c" key] c by (auto simp: ent_def)
  then have e: "e < length (vp_heap (vy_v y))" using i by (auto simp: vap_inv_def ids_inv_def ids_ok_def)
  then have "slot_ok cf (vy_calls y) e (vp_heap (vy_v y) ! e)"
    using i by (simp add: vap_inv_def calls_inv_def heap_ok_def)
  then have "en_once (vp_heap (vy_v y) ! e) \<or> vp_heap (vy_v y) ! e = zero_entry cf"
    by (simp add: slot_ok_def split: if_split_asm)
  with e v show ?thesis
    by (cases "vc_Initialize cf") (auto simp: vapor_initItem_def Let_def zero_entry_def)
qed

theorem Get_initialised_witness:
  "\<exists>y v. run_events (vap_step list_cache demo_conf) [VStart, VTry ''a'' 60] demo_vap = Some y \<and>
     vapor_Get list_cache demo_conf 30 ''a'' (vy_v y) = (v, Inr 0) \<and>
     vp_heap v ! 0 = \<lparr>en_once = True, en_value = 7\<rparr>"
proof -
  obtain y where y: "run_events (vap_step list_cache demo_conf) [VStart, VTry ''a'' 60] demo_vap = Some y"
    "vp_inited (vy_v y)" "\<not> en_once (vp_heap (vy_v y) ! 0)"
    "\<exists>v. vapor_Get list_cache demo_conf 30 ''a'' (vy_v y) = (v, Inr 0)"
    by (simp add: vap_demo_simps vapor_Get_def)
  then obtain v where v: "vapor_Get list_cache demo_conf 30 ''a'' (vy_v y) = (v, Inr 0)" by blast
  from Get_initialised [OF list_cache_laws demo_vap_reachable [OF y(1)] y(2) v] y(1,3) v show ?thesis
    by (simp add: demo_conf_def)
qed

text \<open>The events that take no stored, unexpired element away, other than the ones named.\<close>

fun spares :: "bytes \<Rightarrow> 't vap_event \<Rightarrow> bool" where
  "spares key (VEvict k) = (k \<noteq> key)"
| "spares key VClose = False"
| "spares key (VWorker j) = False"
| "spares key _ = True"

definition lives :: "('c \<Rightarrow> bytes \<rightharpoonup> item) \<Rightarrow> bytes \<Rightarrow> nat \<Rightarrow> int \<Rightarrow> int \<Rightarrow> ('c, 't) vap_sys \<Rightarrow> bool" where
  "lives items key e d t y \<longleftrightarrow> (\<exists>x. items (vp_cache (vy_v y)) key = Some (e, d, x) \<and>
     (case x of None \<Rightarrow> True | Some u \<Rightarrow> t \<le> u))"

lemma lives_lookup:
  "lives items key e d t y \<Longrightarrow> vy_now y \<le> t \<Longrightarrow> \<exists>x. lookup_live (vy_now y) (items (vp_cache (vy_v y))) key = Some (e, d, x)"
  by (auto simp: lives_def lookup_live_def unexpired_def split: option.splits)

lemma lives_cong:
  fixes y z :: "('c, 't) vap_sys"
  shows "lives items key e d t y \<Longrightarrow> items (vp_cache (vy_v z)) key = items (vp_cache (vy_v y)) key \<Longrightarrow>
    lives items key e d t z"
  by (simp add: lives_def)

lemma lives_touch:
  assumes "lives items key e d t y" "items c = (items (vp_cache (vy_v y)))(k \<mapsto> touch_item (vy_now y) it)"
    "lookup_live (vy_now y) (items (vp_cache (vy_v y))) k = Some it" "0 < d" "t \<le> vy_now y + d" "vp_cache (vy_v z) = c"
  shows "lives items key e d t z"
proof (cases "k = key")
  case True
  obtain x where "items (vp_cache (vy_v y)) key = Some (e, d, x)" using assms(1) by (auto simp: lives_def)
  then have "it = (e, d, x)" using lookup_live_SomeD [OF assms(3)] True by simp
  then show ?thesis using assms True by (simp add: lives_def touch_item_def)
next
  case False
  then show ?thesis using assms by (simp add: lives_def)
qed

lemma lives_expired:
  "lives items key e d t y \<Longrightarrow> vy_now y \<le> t \<Longrightarrow> items (vp_cache (vy_v z)) = lookup_live (vy_now y) (items (vp_cache (vy_v y))) \<Longrightarrow>
    lives items key e d t z"
proof -
  assume l: "lives items key e d t y" "vy_now y \<le> t"
    and z: "items (vp_cache (vy_v z)) = lookup_live (vy_now y) (items (vp_cache (vy_v y)))"
  obtain x where x: "items (vp_cache (vy_v y)) key = Some (e, d, x)" "case x of None \<Rightarrow> True | Some u \<Rightarrow> t \<le> u"
    using l(1) by (auto simp: lives_def)
  obtain xa where xa: "lookup_live (vy_now y) (items (vp_cache (vy_v y))) key = Some (e, d, xa)"
    using lives_lookup [OF l] by blast
  then have "xa = x" using lookup_live_SomeD [OF xa] x(1) by simp
  then show ?thesis using x xa z by (simp add: lives_def)
qed

lemma lives_step:
  assumes l: "cache_laws ops items" and si: "started_inv items y" and lv: "lives items key e d t y"
    and s: "vap_step ops cf ev y = Some z" and sp: "spares key ev" and d: "0 < d" "t \<le> vy_now y + d" and n: "vy_now y \<le> t"
  shows "lives items key e d t z"
proof -
  obtain c where c: "vapor_start ops (vy_v y) = (vy_v y)\<lparr>vp_cache := c, vp_inited := True, vp_started := True\<rparr>"
    "items c = items (vp_cache (vy_v y))"
    using vapor_start_fields [OF l si] by blast
  obtain xx where live: "lookup_live (vy_now y) (items (vp_cache (vy_v y))) key = Some (e, d, xx)"
    using lives_lookup [OF lv n] by blast
  show ?thesis
  proof (cases ev)
    case (VTry k dd)
    obtain v' r where g: "newEntry_try ops cf (vy_now y) k dd (vy_v y) = (v', r)" by force
    have z: "vy_v z = v'" using s VTry g by (auto split: if_splits)
    from l g have "items (vp_cache v') key = items (vp_cache (vy_v y)) key"
      by (cases rule: newEntry_try_cases) (use live in auto)
    with z show ?thesis by (intro lives_cong [OF lv]) simp
  next
    case (VLookup k)
    obtain c' r where g: "tc_Get ops True (vy_now y) k (vp_cache (vy_v y)) = (c', r)" by force
    have z: "vp_cache (vy_v z) = c'" using s VLookup g by (auto split: if_splits)
    from l g show ?thesis
    proof (cases rule: law_Get)
      case (hit it)
      then have "items c' = (items (vp_cache (vy_v y)))(k \<mapsto> touch_item (vy_now y) it)" by simp
      from lives_touch [OF lv this hit(1) d z] show ?thesis .
    next
      case miss
      with z show ?thesis by (intro lives_cong [OF lv]) simp
    qed
  next
    case (VEvict k)
    obtain c' evs where g: "tc_Delete ops k c = (c', evs)" by force
    have "vp_cache (vy_v z) = c'" using s VEvict g c by (auto simp: vapor_Evict_def Let_def)
    with law_Delete(1) [OF l g] c sp VEvict show ?thesis by (intro lives_cong [OF lv]) simp
  next
    case VCleanup
    obtain c' evs where g: "tc_DeleteExpired ops (vy_now y) (vp_cache (vy_v y)) = (c', evs)" by force
    have "vp_cache (vy_v z) = c'" using s VCleanup g by (auto split: if_splits)
    with law_DeleteExpired(1) [OF l g] show ?thesis by (intro lives_expired [OF lv n]) simp
  next
    case (VWait i)
    obtain c' evs where g: "tc_DeleteExpired ops (vy_now y) (vp_cache (vy_v y)) = (c', evs)" by force
    have "vp_cache (vy_v z) = c'" using s VWait g
      by (auto simp: evictAfter_wait_def set_evict_def split: if_splits evict_pc.splits)
    with law_DeleteExpired(1) [OF l g] show ?thesis by (intro lives_expired [OF lv n]) simp
  next
    case (VCallback i)
    then show ?thesis using s lives_cong [OF lv] by (auto split: if_splits)
  next
    case (VKeys i)
    then show ?thesis using s lives_cong [OF lv]
      by (auto simp: evictAfter_keys_def set_evict_def Let_def split: if_splits evict_pc.splits)
  qed (use s lives_cong [OF lv] c sp in \<open>auto simp: evictAfter_begin_def split: if_splits\<close>)
qed

lemma vap_step_now: "cache_laws ops items \<Longrightarrow> vap_inv items cf y \<Longrightarrow> vap_step ops cf ev y = Some z \<Longrightarrow> vy_now y \<le> vy_now z"
  using vap.step_rel [of ops items cf y ev z] by (simp add: vap_grows_def)

lemma lives_run:
  assumes l: "cache_laws ops items" and d: "0 < d"
  shows "vap_inv items cf y \<Longrightarrow> lives items key e d t y \<Longrightarrow> run_events (vap_step ops cf) es y = Some z \<Longrightarrow>
    list_all (spares key) es \<Longrightarrow> t \<le> vy_now y + d \<Longrightarrow> vy_now z \<le> t \<Longrightarrow> lives items key e d t z"
proof (induction es arbitrary: y)
  case (Cons ev es)
  from Cons.prems(3) obtain u where u: "vap_step ops cf ev y = Some u" "run_events (vap_step ops cf) es u = Some z"
    by (auto split: option.splits)
  have iu: "vap_inv items cf u" using vap_inv_step [OF l Cons.prems(1) u(1)] .
  have yu: "vy_now y \<le> vy_now u" using vap_step_now [OF l Cons.prems(1) u(1)] .
  have uz: "vy_now u \<le> vy_now z" using vap.run_rel [OF _ u(2), of items] iu l by (simp add: vap_grows_def)
  have "lives items key e d t u"
    using lives_step [OF l _ Cons.prems(2) u(1)] Cons.prems d yu uz by (simp add: vap_inv_def)
  then show ?case using Cons.IH [OF iu _ u(2)] Cons.prems yu by simp
qed simp

text \<open>
  Reading an element prolongs its life by its full duration: whatever happens after
  the read, short of evicting this element or closing the vapor, every read up to \<open>d\<close> later
  finds the same element under the same id.
\<close>

theorem Get_extends:
  assumes "cache_laws ops items" and "vap_reachable ops cf y" and "items (vp_cache (vy_v y)) key = Some (e, d, x)"
    and "unexpired (vy_now y) (e, d, x)" and "0 < d"
    and "run_events (vap_step ops cf) (VLookup key # es) y = Some z" and "list_all (spares key) es"
    and "vy_now z \<le> vy_now y + d"
  shows "snd (vapor_Get ops cf (vy_now z) key (vy_v z)) = Inr e"
proof -
  note l = assms(1) and iy = vap_reachable_inv [OF assms(2,1)]
  from assms(6) obtain u where u: "vap_step ops cf (VLookup key) y = Some u" "run_events (vap_step ops cf) es u = Some z"
    by (auto split: option.splits)
  obtain c r where g: "tc_Get ops True (vy_now y) key (vp_cache (vy_v y)) = (c, r)" by force
  have uc: "vp_cache (vy_v u) = c" "vy_now u = vy_now y" using u(1) g by (auto split: if_splits)
  have "lookup_live (vy_now y) (items (vp_cache (vy_v y))) key = Some (e, d, x)"
    using assms(3,4) by (simp add: lookup_live_def)
  note lx = this
  from l g have "items c key = Some (touch_item (vy_now y) (e, d, x))" by (cases rule: law_Get) (use lx in auto)
  then have "lives items key e d (vy_now y + d) u" using assms(5) uc by (simp add: lives_def touch_item_def)
  moreover have iu: "vap_inv items cf u" using vap_inv_step [OF l iy u(1)] .
  ultimately have lz: "lives items key e d (vy_now y + d) z"
    using lives_run [OF l assms(5) _ _ u(2) assms(7)] uc assms(8) by simp
  have "started_inv items z" using vap.run_inv [OF _ u(2), of items] iu by (auto simp: vap_inv_def l)
  then obtain c' where c': "vapor_start ops (vy_v z) = (vy_v z)\<lparr>vp_cache := c', vp_inited := True, vp_started := True\<rparr>"
    "items c' = items (vp_cache (vy_v z))"
    using vapor_start_fields [OF l] by blast
  obtain x' where "lookup_live (vy_now z) (items c') key = Some (e, d, x')"
    using lives_lookup [OF lz assms(8)] c' by auto
  note lx = this
  obtain c2 r2 where g2: "tc_Get ops True (vy_now z) key c' = (c2, r2)" by force
  from l g2 have "r2 = Some e" by (cases rule: law_Get) (use lx in auto)
  then show ?thesis using c' g2 by (simp add: vapor_Get_def Let_def)
qed

theorem Get_extends_witness:
  "\<exists>z. run_events (vap_step list_cache demo_conf) [VStart, VTry ''a'' 60, VTick 50, VLookup ''a'', VTick 50, VCleanup]
      demo_vap = Some z \<and> vy_now z = 100 \<and> snd (vapor_Get list_cache demo_conf 100 ''a'' (vy_v z)) = Inr 0"
proof -
  obtain y where y: "run_events (vap_step list_cache demo_conf) [VStart, VTry ''a'' 60, VTick 50] demo_vap = Some y"
    "vy_now y = 50" "map_of (vp_cache (vy_v y)) ''a'' = Some (0, 60, Some 60)"
    by (simp add: vap_demo_simps)
  obtain z where z: "run_events (vap_step list_cache demo_conf) [VStart, VTry ''a'' 60, VTick 50, VLookup ''a'', VTick 50, VCleanup]
      demo_vap = Some z" "vy_now z = 100"
    by (simp add: vap_demo_simps)
  have "run_events (vap_step list_cache demo_conf) [VLookup ''a'', VTick 50, VCleanup] y = Some z"
    using z(1) y(1) run_events_append [of "vap_step list_cache demo_conf" "[VStart, VTry ''a'' 60, VTick 50]"
        "[VLookup ''a'', VTick 50, VCleanup]" demo_vap] by simp
  from Get_extends [OF list_cache_laws demo_vap_reachable [OF y(1)] y(3) _ _ this] y(2) z show ?thesis
    by (simp add: unexpired_def)
qed

section \<open>Every eviction is finalized\<close>

text \<open>
  No element that leaves the vapor is forgotten: from every reachable state the
  pending eviction callbacks alone lead to a state where none is pending and \<open>Finalize\<close> was
  called for exactly the elements that were evicted so far.
\<close>

theorem evicted_are_finalized:
  assumes "cache_laws ops items" and "vap_reachable ops cf y" and "vc_Finalize cf"
  shows "\<exists>z. run_events (vap_step ops cf) (replicate (length (vy_pending y)) (VCallback 0)) y = Some z \<and>
    vy_pending z = [] \<and> set (finals (vy_calls z)) = set (map snd (vy_pending y)) \<union> set (finals (vy_calls y))"
  using vap_reachable_inv [OF assms(2,1)]
proof (induction "vy_pending y" arbitrary: y)
  case (Cons p ps)
  let ?u = "on_eviction cf p (y\<lparr>vy_pending := ps\<rparr>)"
  have s: "vap_step ops cf (VCallback 0) y = Some ?u" using Cons.hyps(2) by (simp flip: Cons.hyps(2))
  have "p \<in> set (vy_pending y)" by (simp flip: Cons.hyps(2))
  then have "finalize_reason (fst p) \<noteq> None"
    using Cons.prems by (simp add: vap_inv_def ids_inv_def list_all_iff)
  then have f: "finals (vy_calls ?u) = snd p # finals (vy_calls y)"
    using on_eviction_ok [of p cf "y\<lparr>vy_pending := ps\<rparr>"] assms(3) by simp
  have p: "ps = vy_pending ?u" by simp
  from Cons.hyps(1) [OF p vap_inv_step [OF assms(1) Cons.prems s]] s f
  show ?case by (simp flip: Cons.hyps(2))
qed simp

theorem evicted_are_finalized_witness:
  "\<exists>y z. run_events (vap_step list_cache demo_conf) [VStart, VTry ''a'' 60, VTry ''b'' 60, VClose] demo_vap = Some y \<and>
     run_events (vap_step list_cache demo_conf) [VCallback 0, VCallback 0] y = Some z \<and>
     set (finals (vy_calls z)) = {0, 1}"
proof -
  obtain y where y: "run_events (vap_step list_cache demo_conf) [VStart, VTry ''a'' 60, VTry ''b'' 60, VClose] demo_vap = Some y"
    "vy_pending y = [(EvictionReasonDeleted, 1), (EvictionReasonDeleted, 0)]" "vy_calls y = []"
    by (simp add: vap_demo_simps)
  from evicted_are_finalized [OF list_cache_laws demo_vap_reachable [OF y(1)]] y show ?thesis
    by (auto simp: demo_conf_def numeral_2_eq_2)
qed

end
