(* ===== verification/JsonDecode.thy ===== *)
theory JsonDecode
  imports Json Proto
begin

text \<open>
  Reading JSON the way \<open>encoding/json\<close> does: the tokens of a text, a stack machine over them
  (the scanner's \<open>parseState\<close>) that finds the end of a value, and the decoding of a value
  into the two message structs of \<open>proto/proto.go\<close>.
\<close>

section \<open>Tokens\<close>

definition is_space :: "char \<Rightarrow> bool" where
  "is_space c \<longleftrightarrow> c = CHR 0x20 \<or> c = CHR 0x09 \<or> c = CHR 0x0D \<or> c = CHR 0x0A"

definition skip_ws :: "bytes \<Rightarrow> bytes" where
  "skip_ws s = dropWhile is_space s"

definition is_digit :: "char \<Rightarrow> bool" where
  "is_digit c \<longleftrightarrow> 0x30 \<le> byte c \<and> byte c \<le> 0x39"

definition scan_digits :: "bytes \<Rightarrow> (bytes \<times> bytes) option" where
  "scan_digits s = (case takeWhile is_digit s of [] \<Rightarrow> None | ds \<Rightarrow> Some (ds, dropWhile is_digit s))"

text \<open>A part of a number: the bytes it has and the rest, or \<open>None\<close> for a syntax error.\<close>

definition scan_int :: "bytes \<Rightarrow> (bytes \<times> bytes) option" where
  "scan_int s = (case s of
       c # cs \<Rightarrow> if c = CHR ''0'' then Some ([c], cs) else scan_digits s
     | [] \<Rightarrow> None)"

definition scan_frac :: "bytes \<Rightarrow> (bytes \<times> bytes) option" where
  "scan_frac s = (case s of
       c # cs \<Rightarrow> if c = CHR ''.'' then map_option (\<lambda>(d, r). (c # d, r)) (scan_digits cs) else Some ([], s)
     | [] \<Rightarrow> Some ([], s))"

definition scan_exp :: "bytes \<Rightarrow> (bytes \<times> bytes) option" where
  "scan_exp s = (case s of
       c # cs \<Rightarrow>
         if c = CHR ''e'' \<or> c = CHR ''E'' then
           (case cs of
              x # xs \<Rightarrow>
                if x = CHR ''+'' \<or> x = CHR ''-'' then map_option (\<lambda>(d, r). (c # x # d, r)) (scan_digits xs)
                else map_option (\<lambda>(d, r). (c # d, r)) (scan_digits cs)
            | [] \<Rightarrow> None)
         else Some ([], s)
     | [] \<Rightarrow> Some ([], s))"

definition scan_number :: "bytes \<Rightarrow> (bytes \<times> bytes) option" where
  "scan_number s =
     (let (sg, s1) = (case s of c # cs \<Rightarrow> if c = CHR ''-'' then ([c], cs) else ([], s) | [] \<Rightarrow> ([], s))
      in case scan_int s1 of
           None \<Rightarrow> None
         | Some (i, s2) \<Rightarrow> (case scan_frac s2 of
             None \<Rightarrow> None
           | Some (f, s3) \<Rightarrow> (case scan_exp s3 of
               None \<Rightarrow> None
             | Some (e, s4) \<Rightarrow> Some (sg @ i @ f @ e, s4))))"

fun strip_prefix :: "bytes \<Rightarrow> bytes \<Rightarrow> bytes option" where
  "strip_prefix [] s = Some s"
| "strip_prefix (p # ps) [] = None"
| "strip_prefix (p # ps) (c # cs) = (if p = c then strip_prefix ps cs else None)"

datatype json_tok =
    TLBrace | TRBrace | TLBrack | TRBrack | TColon | TComma
  | TStr bytes | TNum bytes | TTrue | TFalse | TNull

text \<open>The next token and the rest of the text; a string token is already decoded.\<close>

definition next_tok :: "bytes \<Rightarrow> (json_tok \<times> bytes) option" where
  "next_tok s =
     (case skip_ws s of
        [] \<Rightarrow> None
      | c # cs \<Rightarrow>
          if c = CHR ''{'' then Some (TLBrace, cs)
          else if c = CHR ''}'' then Some (TRBrace, cs)
          else if c = CHR ''['' then Some (TLBrack, cs)
          else if c = CHR '']'' then Some (TRBrack, cs)
          else if c = CHR '':'' then Some (TColon, cs)
          else if c = CHR '','' then Some (TComma, cs)
          else if c = dquote then map_option (\<lambda>(b, r). (TStr (unquote b), r)) (scan_str cs)
          else if c = CHR ''t'' then map_option (Pair TTrue) (strip_prefix ''rue'' cs)
          else if c = CHR ''f'' then map_option (Pair TFalse) (strip_prefix ''alse'' cs)
          else if c = CHR ''n'' then map_option (Pair TNull) (strip_prefix ''ull'' cs)
          else map_option (\<lambda>(b, r). (TNum b, r)) (scan_number (c # cs)))"

text \<open>Every scanner leaves a suffix; a token takes at least one byte.\<close>

lemma scan_str_len: "scan_str s = Some (b, r) \<Longrightarrow> length r < length s"
proof (induction s arbitrary: b rule: scan_str.induct)
  case (2 c cs)
  show ?case
  proof (cases "c = dquote \<or> c \<noteq> backslash")
    case True
    then show ?thesis using 2 by (auto split: if_splits)
  next
    case False
    then obtain x xs where cs: "cs = x # xs" using "2.prems" by (cases cs) auto
    show ?thesis
    proof (cases "short_escape x = None")
      case True
      then have x: "x = CHR ''u''" using "2.prems" False cs by (auto split: if_splits)
      then obtain h1 h2 h3 h4 ys where ys: "xs = h1 # h2 # h3 # h4 # ys" "hex4 h1 h2 h3 h4 \<noteq> None"
        using "2.prems" False cs True by (auto split: list.splits if_splits)
      obtain b' where b': "scan_str ys = Some (b', r)"
        using "2.prems" False cs True x ys by auto
      from "2.IH"(2) [OF _ _ cs _ x ys(1) refl refl refl ys(2) b'] False True ys show ?thesis by (auto simp: cs)
    next
      case short: False
      then obtain b' where "scan_str xs = Some (b', r)" using "2.prems" False cs by auto
      with "2.IH"(1) [OF _ _ cs] False short show ?thesis by (auto simp: cs)
    qed
  qed
qed simp

lemma skip_ws_len: "length (skip_ws s) \<le> length s"
  by (simp add: skip_ws_def length_dropWhile_le)

lemma strip_prefix_app: "strip_prefix p s = Some r \<Longrightarrow> s = p @ r"
  by (induction p s rule: strip_prefix.induct) (auto split: if_splits)

lemma scan_digits_app: "scan_digits s = Some (d, r) \<Longrightarrow> s = d @ r \<and> d \<noteq> []"
  using takeWhile_dropWhile_id [of is_digit s] by (auto simp: scan_digits_def split: list.splits)

lemma scan_int_app: "scan_int s = Some (d, r) \<Longrightarrow> s = d @ r \<and> d \<noteq> []"
  by (auto simp: scan_int_def dest: scan_digits_app split: list.splits if_splits)

lemma scan_frac_app: "scan_frac s = Some (d, r) \<Longrightarrow> s = d @ r"
  by (auto simp: scan_frac_def dest: scan_digits_app split: list.splits if_splits)

lemma scan_exp_app: "scan_exp s = Some (d, r) \<Longrightarrow> s = d @ r"
  by (auto simp: scan_exp_def dest: scan_digits_app split: list.splits if_splits)

lemma scan_number_app: "scan_number s = Some (d, r) \<Longrightarrow> s = d @ r \<and> d \<noteq> []"
  by (auto simp: scan_number_def Let_def dest!: scan_int_app scan_frac_app scan_exp_app
      split: list.splits if_splits option.splits)

lemma next_tok_len: "next_tok s = Some (tk, r) \<Longrightarrow> length r < length s"
proof -
  assume t: "next_tok s = Some (tk, r)"
  then obtain c cs where c: "skip_ws s = c # cs" by (auto simp: next_tok_def split: list.splits)
  then have l: "length cs < length s" using skip_ws_len [of s] by simp
  have m: "length r \<le> length cs" if "x = c # cs" "scan_number x = Some (tk', r)" for x tk'
    using scan_number_app [OF that(2)] that(1) by (auto simp: Cons_eq_append_conv)
  have s: "length r < length s" if "map_option f (scan_str cs) = Some (tk, r)" "\<And>b x. snd (f (b, x)) = x" for f
  proof -
    from that(1) obtain b x where "scan_str cs = Some (b, x)" "f (b, x) = (tk, r)" by auto
    then show ?thesis using scan_str_len [of cs b x] that(2) [of b x] l by simp
  qed
  have p: "length r < length s" if "map_option (Pair k) (strip_prefix w cs) = Some (tk, r)" for k w
    using that l strip_prefix_app [of w cs] by auto
  have n: "length r < length s" if "map_option f (scan_number (c # cs)) = Some (tk, r)" "\<And>b x. snd (f (b, x)) = x" for f
  proof -
    from that(1) obtain b x where "scan_number (c # cs) = Some (b, x)" "f (b, x) = (tk, r)" by auto
    then show ?thesis using m [OF refl] that(2) [of b x] l by auto
  qed
  have k: "length r < length s" if "Some (x, cs) = Some (tk, r)" for x using that l by simp
  show ?thesis
    using t unfolding next_tok_def c list.case
    by (simp only: split: if_split_asm) (erule k | erule p | (erule s, simp) | (erule n, simp))+
qed

section \<open>Values\<close>

datatype json =
    JNull | JBool bool | JNum bytes | JStr bytes | JArr "json list" | JObj "(bytes \<times> json) list"

text \<open>
  The stack holds the open arrays and objects, newest first, with what they have so far (last
  element first) and, for an object, the key whose value is next. The mode says what may come.
\<close>

datatype frame = FArr "json list" | FObj "(bytes \<times> json) list" bytes

datatype pmode = PValue | PArrFirst | PObjFirst | PKey | PColon | PNext | PDone json

definition maxNestingDepth :: nat where
  "maxNestingDepth = 10000"

text \<open>A value is complete: it is the result, or goes into the innermost open container.\<close>

fun p_value :: "json \<Rightarrow> frame list \<Rightarrow> (pmode \<times> frame list) option" where
  "p_value j [] = Some (PDone j, [])"
| "p_value j (FArr js # fs) = Some (PNext, FArr (j # js) # fs)"
| "p_value j (FObj ms k # fs) = Some (PNext, FObj ((k, j) # ms) k # fs)"

definition p_open :: "pmode \<Rightarrow> frame \<Rightarrow> frame list \<Rightarrow> (pmode \<times> frame list) option" where
  "p_open m f fs = (if length fs < maxNestingDepth then Some (m, f # fs) else None)"

text \<open>A token that begins a value.\<close>

fun p_begin :: "json_tok \<Rightarrow> frame list \<Rightarrow> (pmode \<times> frame list) option" where
  "p_begin TLBrace fs = p_open PObjFirst (FObj [] []) fs"
| "p_begin TLBrack fs = p_open PArrFirst (FArr []) fs"
| "p_begin (TStr s) fs = p_value (JStr s) fs"
| "p_begin (TNum n) fs = p_value (JNum n) fs"
| "p_begin TTrue fs = p_value (JBool True) fs"
| "p_begin TFalse fs = p_value (JBool False) fs"
| "p_begin TNull fs = p_value JNull fs"
| "p_begin _ fs = None"

fun p_close :: "json_tok \<Rightarrow> frame list \<Rightarrow> (pmode \<times> frame list) option" where
  "p_close TRBrack (FArr js # fs) = p_value (JArr (rev js)) fs"
| "p_close TRBrace (FObj ms k # fs) = p_value (JObj (rev ms)) fs"
| "p_close _ _ = None"

fun p_key :: "json_tok \<Rightarrow> frame list \<Rightarrow> (pmode \<times> frame list) option" where
  "p_key (TStr k) (FObj ms k0 # fs) = Some (PColon, FObj ms k # fs)"
| "p_key _ _ = None"

fun p_comma :: "frame list \<Rightarrow> (pmode \<times> frame list) option" where
  "p_comma (FArr js # fs) = Some (PValue, FArr js # fs)"
| "p_comma (FObj ms k # fs) = Some (PKey, FObj ms k # fs)"
| "p_comma [] = None"

fun p_step :: "json_tok \<Rightarrow> pmode \<Rightarrow> frame list \<Rightarrow> (pmode \<times> frame list) option" where
  "p_step tk PValue fs = p_begin tk fs"
| "p_step tk PArrFirst fs = (if tk = TRBrack then p_close tk fs else p_begin tk fs)"
| "p_step tk PObjFirst fs = (if tk = TRBrace then p_close tk fs else p_key tk fs)"
| "p_step tk PKey fs = p_key tk fs"
| "p_step tk PColon fs = (if tk = TColon then Some (PValue, fs) else None)"
| "p_step tk PNext fs = (if tk = TComma then p_comma fs else p_close tk fs)"
| "p_step tk (PDone j) fs = None"

text \<open>\<open>Decoder.Decode\<close> reads one value and leaves the rest; \<open>Unmarshal\<close> allows only space after it.\<close>

function parse_value :: "bytes \<Rightarrow> pmode \<Rightarrow> frame list \<Rightarrow> (json \<times> bytes) option" where
  "parse_value s m fs =
     (case next_tok s of
        None \<Rightarrow> None
      | Some (tk, r) \<Rightarrow> (case p_step tk m fs of
          None \<Rightarrow> None
        | Some (m', fs') \<Rightarrow> (case m' of PDone j \<Rightarrow> Some (j, r) | _ \<Rightarrow> parse_value r m' fs')))"
  by pat_completeness auto
termination
  by (relation "measure (\<lambda>(s, m, fs). length s)") (auto dest: next_tok_len)

declare parse_value.simps [simp del]

definition json_decode :: "bytes \<Rightarrow> json option" where
  "json_decode s = map_option fst (parse_value s PValue [])"

definition json_unmarshal :: "bytes \<Rightarrow> json option" where
  "json_unmarshal s =
     (case parse_value s PValue [] of
        None \<Rightarrow> None
      | Some (j, r) \<Rightarrow> if skip_ws r = [] then Some j else None)"

section \<open>Decoding the messages\<close>

text \<open>
  A key names a field when the two are equal up to case. Beside the ASCII letters, two runes
  fold to ASCII ones: the long s and the Kelvin sign.
\<close>

fun fold_key :: "bytes \<Rightarrow> bytes" where
  "fold_key [] = []"
| "fold_key (c # cs) =
     (if 0x41 \<le> byte c \<and> byte c \<le> 0x5A then char_of (byte c + 0x20) # fold_key cs
      else if c = CHR 0xC5 \<and> take 1 cs = [CHR 0xBF] then CHR ''s'' # fold_key (drop 1 cs)
      else if c = CHR 0xE2 \<and> take 2 cs = [CHR 0x84, CHR 0xAA] then CHR ''k'' # fold_key (drop 2 cs)
      else c # fold_key cs)"

text \<open>
  Values of Go's kinds: null has no effect on a string and makes a slice nil; a value of another
  kind is an error, reported at the end. An element of a slice starts out empty. A key that comes
  again sets its field again.
\<close>

fun decode_string :: "json \<Rightarrow> bytes \<Rightarrow> bytes option" where
  "decode_string (JStr s) old = Some s"
| "decode_string JNull old = Some old"
| "decode_string _ old = None"

fun decode_strings :: "json list \<Rightarrow> bytes list option" where
  "decode_strings [] = Some []"
| "decode_strings (j # js) =
     (case (decode_string j [], decode_strings js) of
        (Some s, Some ss) \<Rightarrow> Some (s # ss)
      | _ \<Rightarrow> None)"

fun decode_slice :: "json \<Rightarrow> bytes list option" where
  "decode_slice (JArr js) = decode_strings js"
| "decode_slice JNull = Some []"
| "decode_slice _ = None"

definition call_member :: "bytes \<times> json \<Rightarrow> call_message option \<Rightarrow> call_message option" where
  "call_member m c =
     (case c of
        None \<Rightarrow> None
      | Some msg \<Rightarrow>
          if fold_key (fst m) = ''call''
          then map_option (\<lambda>s. msg\<lparr>cm_call := s\<rparr>) (decode_string (snd m) (cm_call msg))
          else if fold_key (fst m) = ''params''
          then map_option (\<lambda>ss. msg\<lparr>cm_params := ss\<rparr>) (decode_slice (snd m))
          else Some msg)"

fun decode_call :: "json \<Rightarrow> call_message option" where
  "decode_call (JObj ms) = fold call_member ms (Some \<lparr>cm_call = [], cm_params = []\<rparr>)"
| "decode_call JNull = Some \<lparr>cm_call = [], cm_params = []\<rparr>"
| "decode_call _ = None"

definition signal_member :: "bytes \<times> json \<Rightarrow> signal_message option \<Rightarrow> signal_message option" where
  "signal_member m c =
     (case c of
        None \<Rightarrow> None
      | Some msg \<Rightarrow>
          if fold_key (fst m) = ''signal''
          then map_option (\<lambda>s. msg\<lparr>sm_signal := s\<rparr>) (decode_string (snd m) (sm_signal msg))
          else Some msg)"

fun decode_signal :: "json \<Rightarrow> signal_message option" where
  "decode_signal (JObj ms) = fold signal_member ms (Some \<lparr>sm_signal = []\<rparr>)"
| "decode_signal JNull = Some \<lparr>sm_signal = []\<rparr>"
| "decode_signal _ = None"

text \<open>\<open>json.Unmarshal\<close> into the structs, and the \<open>Decoder\<close> on a request body.\<close>

definition unmarshal_call :: "bytes \<Rightarrow> call_message option" where
  "unmarshal_call b = (case json_unmarshal b of None \<Rightarrow> None | Some j \<Rightarrow> decode_call j)"

definition unmarshal_signal :: "bytes \<Rightarrow> signal_message option" where
  "unmarshal_signal b = (case json_unmarshal b of None \<Rightarrow> None | Some j \<Rightarrow> decode_signal j)"

definition body_call :: "bytes \<Rightarrow> call_message option" where
  "body_call b = (case json_decode b of None \<Rightarrow> None | Some j \<Rightarrow> decode_call j)"

end
