(* ===== verification/Clean.thy ===== *)
theory Clean
  imports Prelude
begin

text \<open>
  \<open>internal/clean/path.go\<close>: the normalisation of the base path under which both servers
  are mounted. \<open>path_Clean\<close> is Go's \<open>path.Clean\<close>, by the four rules of its
  documentation; \<open>Clean\<close> is the repository's function.
\<close>

section \<open>The standard library's path.Clean\<close>

text \<open>
  The path is read one segment at a time onto a stack (top first): empty and \<open>.\<close> segments
  vanish, \<open>..\<close> takes the segment before it away, and at the root there is nothing to take.
\<close>

definition clean_step :: "bool \<Rightarrow> string list \<Rightarrow> string \<Rightarrow> string list" where
  "clean_step rooted st seg =
     (if seg = [] \<or> seg = ''.'' then st
      else if seg = ''..'' then
        (case st of
           [] \<Rightarrow> (if rooted then [] else [''..''])
         | tp # rest \<Rightarrow> (if tp = ''..'' then ''..'' # st else rest))
      else seg # st)"

definition clean_segs :: "bool \<Rightarrow> string list \<Rightarrow> string list" where
  "clean_segs rooted segs = rev (foldl (clean_step rooted) [] segs)"

definition path_Clean :: "string \<Rightarrow> string" where
  "path_Clean p =
     (if p = [] then ''.''
      else if hd p = slash then slash # join_with [slash] (clean_segs True (split_on slash p))
      else (let out = join_with [slash] (clean_segs False (split_on slash p))
            in if out = [] then ''.'' else out))"

section \<open>The repository's Clean\<close>

definition Clean :: "string \<Rightarrow> string" where
  "Clean p0 =
     (if p0 = [] then ''/''
      else
        let p = (if hd p0 \<noteq> slash then slash # p0 else p0);
            np = path_Clean p
        in if last p = slash \<and> np \<noteq> ''/'' then
             (if length p = length np + 1 \<and> prefix np p then p else np @ ''/'')
           else np)"

text \<open>The same function without its fast path, as the comment of the code describes it.\<close>

definition Clean_spec :: "string \<Rightarrow> string" where
  "Clean_spec p0 =
     (let p = slash # p0; np = path_Clean p
      in if p0 \<noteq> [] \<and> last p0 = slash \<and> np \<noteq> ''/'' then np @ ''/'' else np)"

section \<open>Canonical paths\<close>

definition plain_seg :: "string \<Rightarrow> bool" where
  "plain_seg s \<longleftrightarrow> s \<noteq> [] \<and> s \<noteq> ''.'' \<and> s \<noteq> ''..'' \<and> slash \<notin> set s"

lemma clean_step_plain:
  "list_all plain_seg st \<Longrightarrow> slash \<notin> set seg \<Longrightarrow> list_all plain_seg (clean_step True st seg)"
  by (auto simp: clean_step_def plain_seg_def split: list.splits)

lemma foldl_clean_step_plain:
  "list_all plain_seg st \<Longrightarrow> list_all (\<lambda>s. slash \<notin> set s) segs \<Longrightarrow>
   list_all plain_seg (foldl (clean_step True) st segs)"
  by (induction segs arbitrary: st) (auto simp: clean_step_plain)

lemma split_on_slash_free: "list_all (\<lambda>s. slash \<notin> set s) (split_on slash p)"
  by (auto simp: list_all_iff)

lemma clean_segs_plain: "list_all plain_seg (clean_segs True (split_on slash p))"
  using foldl_clean_step_plain [of "[]" "split_on slash p"] split_on_slash_free
  by (simp add: clean_segs_def list_all_iff)

lemma foldl_clean_step_id:
  "list_all plain_seg segs \<Longrightarrow> foldl (clean_step True) st segs = rev segs @ st"
  by (induction segs arbitrary: st) (auto simp: clean_step_def plain_seg_def)

lemma clean_segs_id [simp]: "list_all plain_seg segs \<Longrightarrow> clean_segs True segs = segs"
  by (simp add: clean_segs_def foldl_clean_step_id)

lemma clean_segs_Nil_Cons [simp]: "clean_segs True ([] # segs) = clean_segs True segs"
  by (simp add: clean_segs_def clean_step_def)

lemma clean_segs_snoc_Nil [simp]: "clean_segs True (segs @ [[]]) = clean_segs True segs"
  by (simp add: clean_segs_def clean_step_def)

lemma plain_seg_slash_free: "list_all plain_seg segs \<Longrightarrow> list_all (\<lambda>s. slash \<notin> set s) segs"
  by (auto simp: list_all_iff plain_seg_def)

lemma clean_segs_split_join [simp]:
  "list_all plain_seg segs \<Longrightarrow>
   clean_segs True (split_on slash (join_with [slash] segs)) = segs"
  using clean_segs_id [of segs]
  by (cases "segs = []") (simp_all add: split_on_join plain_seg_slash_free clean_segs_def clean_step_def)

text \<open>The segments of the cleaned path, and the cleaned path rendered from them.\<close>

definition segs_of :: "string \<Rightarrow> string list" where
  "segs_of p = clean_segs True (split_on slash p)"

lemma segs_of_plain [simp]: "list_all plain_seg (segs_of p)"
  by (simp add: segs_of_def clean_segs_plain)

lemma segs_of_slash [simp]: "segs_of (slash # p) = segs_of p"
  by (simp add: segs_of_def)

lemma segs_of_join [simp]: "list_all plain_seg segs \<Longrightarrow> segs_of (join_with [slash] segs) = segs"
  by (simp add: segs_of_def)

lemma segs_of_snoc [simp]: "segs_of (p @ [slash]) = segs_of p"
  by (simp add: segs_of_def split_on_snoc)

lemma path_Clean_rooted: "path_Clean (slash # p) = slash # join_with [slash] (segs_of p)"
  by (simp add: path_Clean_def segs_of_def)

lemma plain_last: "list_all plain_seg segs \<Longrightarrow> segs \<noteq> [] \<Longrightarrow>
    join_with [slash] segs \<noteq> [] \<and> last (join_with [slash] segs) \<noteq> slash"
proof (induction segs rule: induct_list012)
  case (2 x)
  then show ?case by (auto simp: plain_seg_def dest: last_in_set)
next
  case (3 x y zs)
  then show ?case by simp
qed simp

lemma join_plain_Nil [simp]:
  "list_all plain_seg segs \<Longrightarrow> join_with [slash] segs = [] \<longleftrightarrow> segs = []"
  using plain_last [of segs] by auto

section \<open>The fast path is only an optimisation\<close>

lemma prefix_snoc_last:
  assumes "length p = length np + 1" "prefix np p"
  shows "p = np @ [last p]"
proof -
  obtain zs where p: "p = np @ zs" using assms(2) by (auto simp: prefix_def)
  with assms(1) have "length zs = 1" by simp
  then obtain z where "zs = [z]" by (cases zs) auto
  with p show ?thesis by simp
qed

lemma Clean_eq_spec: "Clean p = Clean_spec p"
proof (cases "p = []")
  case True
  then show ?thesis by (simp add: Clean_def Clean_spec_def path_Clean_rooted segs_of_def
        clean_segs_def clean_step_def)
next
  case False
  define q where "q = (if hd p \<noteq> slash then slash # p else p)"
  have q: "path_Clean q = path_Clean (slash # p)" "last q = last p"
    using False by (cases p; auto simp: q_def path_Clean_rooted)+
  have fast: "length q = length (path_Clean q) + 1 \<and> prefix (path_Clean q) q \<Longrightarrow>
      last q = slash \<Longrightarrow> path_Clean q @ ''/'' = q"
    using prefix_snoc_last [of q "path_Clean q"] by auto
  have "Clean p = (if last q = slash \<and> path_Clean q \<noteq> ''/''
      then (if length q = length (path_Clean q) + 1 \<and> prefix (path_Clean q) q
            then q else path_Clean q @ ''/'')
      else path_Clean q)"
    using False by (simp add: Clean_def Let_def flip: q_def)
  then have "Clean p = (if last q = slash \<and> path_Clean q \<noteq> ''/'' then path_Clean q @ ''/''
      else path_Clean q)"
    using fast by presburger
  with q False show ?thesis by (simp add: Clean_spec_def Let_def)
qed

lemma Clean_segs: "Clean p = slash # join_with [slash] (segs_of p) @
    (if p \<noteq> [] \<and> last p = slash \<and> segs_of p \<noteq> [] then [slash] else [])"
  by (simp add: Clean_eq_spec Clean_spec_def path_Clean_rooted Let_def)

lemma Clean_cases:
  obtains (bare) "Clean p = slash # join_with [slash] (segs_of p)"
      "p = [] \<or> last p \<noteq> slash \<or> segs_of p = []"
  | (slashed) "Clean p = slash # join_with [slash] (segs_of p) @ [slash]"
      "segs_of p \<noteq> []" "p \<noteq> []" "last p = slash"
proof (cases "p \<noteq> [] \<and> last p = slash \<and> segs_of p \<noteq> []")
  case True
  then show ?thesis using slashed by (simp add: Clean_segs)
next
  case False
  then show ?thesis using bare by (auto simp: Clean_segs)
qed

lemma segs_of_Clean [simp]: "segs_of (Clean p) = segs_of p"
  by (cases p rule: Clean_cases)
     (simp_all flip: append_Cons add: segs_of_snoc [of "slash # join_with [slash] (segs_of p)"])

section \<open>The contract of a path cleaner\<close>

text \<open>
  What the two servers rely on when they build route patterns and compare request paths:
  the base is absolute and cleaning it again changes nothing.
\<close>

locale path_cleaner =
  fixes cl :: "string \<Rightarrow> string"
  assumes cl_absolute: "\<exists>r. cl p = slash # r"
    and cl_idem: "cl (cl p) = cl p"
begin

lemma cl_nonempty: "cl p \<noteq> []"
  using cl_absolute [of p] by auto

lemma cl_hd: "hd (cl p @ s) = slash"
  using cl_absolute [of p] by auto

lemma cl_eq_iff_fixed: "(\<exists>q. p = cl q) \<longleftrightarrow> cl p = p"
  by (metis cl_idem)

end

lemma last_Clean: "segs_of p \<noteq> [] \<Longrightarrow> last (Clean p) = slash \<longleftrightarrow> p \<noteq> [] \<and> last p = slash"
  using plain_last [of "segs_of p"] by (simp add: Clean_segs [of p])

lemma Clean_not_Nil [simp]: "Clean p \<noteq> []"
  by (simp add: Clean_segs)

lemma Clean_idem: "Clean (Clean p) = Clean p"
proof -
  have "(last (Clean p) = slash \<and> segs_of p \<noteq> []) = (p \<noteq> [] \<and> last p = slash \<and> segs_of p \<noteq> [])"
    using last_Clean by blast
  then have "Clean (Clean p) = slash # join_with [slash] (segs_of p) @
      (if p \<noteq> [] \<and> last p = slash \<and> segs_of p \<noteq> [] then [slash] else [])"
    using Clean_segs [of "Clean p"] by simp
  also have "\<dots> = Clean p"
    by (rule Clean_segs [symmetric])
  finally show ?thesis .
qed

interpretation clean: path_cleaner Clean
proof unfold_locales
  show "\<exists>r. Clean p = slash # r" for p by (cases p rule: Clean_cases) auto
  show "Clean (Clean p) = Clean p" for p by (rule Clean_idem)
qed

section \<open>Properties\<close>


text \<open>
  Cleaning twice is cleaning once, so a base path that went through both servers
  is the same for each of them.
\<close>

theorem Clean_idempotent: "Clean (Clean p) = Clean p"
  by (rule clean.cl_idem)

text \<open>
  The fast path that reuses the argument instead of appending a slash never
  changes the result: the function is path.Clean of the rooted path, with one slash put back
  where the argument ended in one and the result is not the root.
\<close>

theorem Clean_fast_path: "Clean p = Clean_spec p"
  by (rule Clean_eq_spec)

text \<open>
  The result ends in a slash exactly when the argument is empty, ends in a slash
  itself, or cleans to the root. The last line of the function's comment claims a trailing
  slash always: for every other argument, such as a base path \<open>api\<close>, there is none, and the
  REST routes, which append \<open>new\<close> or \<open>docs/\<close> to it, become \<open>/apinew\<close> and \<open>/apidocs/\<close>.
\<close>

theorem Clean_trailing_slash:
  "suffix ''/'' (Clean p) = (p \<in> {[]} \<union> {q @ ''/'' | q. True} \<union> {q. Clean q = ''/''})"
proof (cases "segs_of p = []")
  case True
  then show ?thesis by (simp add: Clean_segs)
next
  case False
  then have "last (Clean p) = slash \<longleftrightarrow> p \<noteq> [] \<and> last p = slash" by (rule last_Clean)
  moreover have "Clean p \<noteq> ''/''" using False by (simp add: Clean_segs)
  moreover have "suffix ''/'' q \<longleftrightarrow> q \<noteq> [] \<and> last q = slash" for q
    by (cases q rule: rev_cases) (auto simp: suffix_def)
  moreover have "(\<exists>r. q = r @ ''/'') \<longleftrightarrow> q \<noteq> [] \<and> last q = slash" for q
    by (cases q rule: rev_cases) auto
  moreover have "p \<noteq> []" using False by (auto simp: segs_of_def clean_segs_def clean_step_def)
  ultimately show ?thesis by auto
qed

end
