(* ===== verification/Ws.thy ===== *)
theory Ws
  imports JsonDecode Clean Pipe
begin

text \<open>
  \<open>internal/ws_impl/serve.go\<close>: one process per websocket connection. Three goroutines work on a
  connection: the reader (messages from the client), the main one (\<open>serve\<close> itself, which runs
  the process) and the writer (text messages into the input pipe). Each has its program counter
  in the state; a step is one channel operation, one operation of the pipe, one call of the
  connection, or one cancellation. The connection (\<open>websocketx\<close>, third-party) and the handler
  appear as events of the environment.
\<close>

section \<open>The server\<close>

definition messageBufferSize :: nat where
  "messageBufferSize = 5"

record ws_server =
  wv_path :: bytes
  wv_subprotocols :: "bytes list"
  wv_require :: bool

text \<open>\<open>RequireProtocols\<close> makes the websocket server refuse clients without a common subprotocol.\<close>

definition ws_NewServer :: "bytes \<Rightarrow> ws_server" where
  "ws_NewServer path = \<lparr>wv_path = Clean path, wv_subprotocols = [Subprotocol], wv_require = True\<rparr>"

definition isValidRequestPath :: "ws_server \<Rightarrow> bytes \<Rightarrow> bool" where
  "isValidRequestPath server path =
     (let path = (if suffix [slash] path then path else path @ [slash]) in prefix (wv_path server) path)"

datatype ws_route = WsNotFound | WsConnection

definition ws_ServeHTTP :: "ws_server \<Rightarrow> bytes \<Rightarrow> ws_route" where
  "ws_ServeHTTP server path = (if isValidRequestPath server path then WsConnection else WsNotFound)"

section \<open>The state of a connection\<close>

text \<open>Messages from the client (the body of a text message may be nil), and what was sent to it.\<close>

datatype ws_msg = WsText "bytes option" | WsBinary bytes | WsOther

datatype ws_frame = FText bytes | FBinary bytes | FClose

datatype reader_pc = RSelect | RSend "bytes option" | RSendInit bytes | RCloseInit | RCloseText | RDone

text \<open>
  Main: waiting for the call, in \<open>Get\<close>, in \<open>Do\<close>; then the deferred calls, last one first, with
  the result that \<open>serve\<close> returns; then \<open>wg.Wait\<close>.
\<close>

datatype 'v main_pc =
    MCall | MGet call_message | MDo call_message
  | MCloseWriter "'v result" | MCancel "'v result" | MMarshal "'v result"
  | MWrite bytes | MShutdown | MWait | MReturned

datatype writer_pc = WNone | WRecv | WWrite bytes | WWriting | WClose | WDrain | WDone

text \<open>
  In \<open>textMessages\<close> a \<open>None\<close> is the nil flag. The last five fields are history, which no step
  looks at: what the reader received, what it put into \<open>textMessages\<close>, what the process read,
  the result of \<open>serve\<close>, and the calls of \<open>Get\<close> and \<open>Do\<close>.
\<close>

record 'v ws_state =
  wx_conn :: ctx
  wx_sent :: "ws_frame list"
  wx_text :: "bytes option list"
  wx_text_closed :: bool
  wx_init :: "bytes list"
  wx_init_closed :: bool
  wx_ctx :: ctx
  wx_reader :: reader_pc
  wx_had_init :: bool
  wx_had_cancel :: bool
  wx_main :: "'v main_pc"
  wx_writer :: writer_pc
  wx_pipe :: pipe
  wx_msgs :: "ws_msg list"
  wx_taken :: "bytes option list"
  wx_read :: bytes
  wx_result :: "'v result option"
  wx_gets :: nat
  wx_dos :: nat

text \<open>\<open>serve\<close> panics before anything else if the connection has another subprotocol.\<close>

definition ws_begin :: "bytes \<Rightarrow> 'v ws_state option" where
  "ws_begin subprotocol =
     (if subprotocol \<noteq> Subprotocol then None
      else Some \<lparr>wx_conn = None, wx_sent = [], wx_text = [], wx_text_closed = False, wx_init = [],
        wx_init_closed = False, wx_ctx = None, wx_reader = RSelect, wx_had_init = False,
        wx_had_cancel = False, wx_main = MCall, wx_writer = WNone, wx_pipe = pipe_new, wx_msgs = [],
        wx_taken = [], wx_read = [], wx_result = None, wx_gets = 0, wx_dos = 0\<rparr>)"

definition ws_cancel :: "go_error \<Rightarrow> 'v ws_state \<Rightarrow> 'v ws_state" where
  "ws_cancel e x = x\<lparr>wx_ctx := cancel_with e (wx_ctx x)\<rparr>"

section \<open>The reader\<close>

text \<open>What the reader does with a binary message after the first one.\<close>

definition reader_signal :: "bytes \<Rightarrow> 'v ws_state \<Rightarrow> 'v ws_state" where
  "reader_signal body x =
     (case unmarshal_signal body of
        None \<Rightarrow> ws_cancel ErrCancelProtocolError x
      | Some sg \<Rightarrow>
          if sm_signal sg = SignalClose then x\<lparr>wx_reader := RSend None\<rparr>
          else if sm_signal sg = SignalCancel \<and> \<not> wx_had_cancel x then
            (ws_cancel ErrCancelClientRequest x)\<lparr>wx_had_cancel := True\<rparr>
          else if sm_signal sg = SignalCancel \<and> wx_had_cancel x then x\<lparr>wx_reader := RSend None\<rparr>
          else ws_cancel ErrCancelProtocolError x)"

definition reader_recv :: "ws_msg \<Rightarrow> 'v ws_state \<Rightarrow> 'v ws_state" where
  "reader_recv msg x =
     (let x = x\<lparr>wx_msgs := wx_msgs x @ [msg]\<rparr>
      in case msg of
           WsText body \<Rightarrow> x\<lparr>wx_reader := RSend (Some (case body of None \<Rightarrow> [] | Some b \<Rightarrow> b))\<rparr>
         | WsOther \<Rightarrow> x
         | WsBinary body \<Rightarrow>
             if \<not> wx_had_init x then x\<lparr>wx_reader := RSendInit body\<rparr> else reader_signal body x)"

text \<open>
  The reader's own steps: a send waits while the buffer is full; the deferred calls close
  \<open>initialMessage\<close>, then \<open>textMessages\<close>.
\<close>

definition reader_step :: "'v ws_state \<Rightarrow> 'v ws_state option" where
  "reader_step x =
     (case wx_reader x of
        RSend m \<Rightarrow>
          if length (wx_text x) < messageBufferSize
          then Some (x\<lparr>wx_text := wx_text x @ [m], wx_reader := RSelect\<rparr>) else None
      | RSendInit b \<Rightarrow>
          if length (wx_init x) < 1
          then Some (x\<lparr>wx_init := wx_init x @ [b], wx_had_init := True, wx_reader := RSelect\<rparr>) else None
      | RCloseInit \<Rightarrow> Some (x\<lparr>wx_init_closed := True, wx_reader := RCloseText\<rparr>)
      | RCloseText \<Rightarrow> Some (x\<lparr>wx_text_closed := True, wx_reader := RDone\<rparr>)
      | _ \<Rightarrow> None)"

definition reader_gone :: "'v ws_state \<Rightarrow> 'v ws_state option" where
  "reader_gone x =
     (if wx_reader x = RSelect \<and> wx_conn x \<noteq> None
      then Some ((ws_cancel ErrCancelClientGone x)\<lparr>wx_reader := RCloseInit\<rparr>) else None)"

section \<open>The writer\<close>

text \<open>Receiving from \<open>textMessages\<close>: an element, the end of a closed channel, or waiting.\<close>

definition writer_step :: "'v ws_state \<Rightarrow> 'v ws_state option" where
  "writer_step x =
     (case wx_writer x of
        WRecv \<Rightarrow>
          (case wx_text x of
             m # ms \<Rightarrow> Some (x\<lparr>wx_text := ms, wx_taken := wx_taken x @ [m],
               wx_writer := (case m of None \<Rightarrow> WClose | Some t \<Rightarrow> WWrite t)\<rparr>)
           | [] \<Rightarrow> if wx_text_closed x then Some (x\<lparr>wx_writer := WClose\<rparr>) else None)
      | WWrite t \<Rightarrow>
          (case write_begin t (wx_pipe x) of
             None \<Rightarrow> None
           | Some (WriteBlocks, p) \<Rightarrow> Some (x\<lparr>wx_pipe := p, wx_writer := WWriting\<rparr>)
           | Some (WriteDone _ _, p) \<Rightarrow> Some (x\<lparr>wx_pipe := p, wx_writer := WRecv\<rparr>))
      | WWriting \<Rightarrow>
          (case write_end (wx_pipe x) of
             (WriteBlocks, _) \<Rightarrow> None
           | (WriteDone _ _, p) \<Rightarrow> Some (x\<lparr>wx_pipe := p, wx_writer := WRecv\<rparr>))
      | WClose \<Rightarrow> Some (x\<lparr>wx_pipe := close_write (wx_pipe x), wx_writer := WDrain\<rparr>)
      | WDrain \<Rightarrow>
          (case wx_text x of
             m # ms \<Rightarrow> Some (x\<lparr>wx_text := ms, wx_taken := wx_taken x @ [m]\<rparr>)
           | [] \<Rightarrow> if wx_text_closed x then Some (x\<lparr>wx_writer := WDone\<rparr>) else None)
      | _ \<Rightarrow> None)"

section \<open>The main goroutine\<close>

definition errUnknown :: go_error where
  "errUnknown = Sentinel ''ws_impl.errUnknown'' ''unknown error''"

text \<open>\<open>serve\<close> returns; the writer's pipe end is closed first when it was created.\<close>

definition serve_returns :: "bool \<Rightarrow> 'v result \<Rightarrow> 'v ws_state \<Rightarrow> 'v ws_state" where
  "serve_returns with_writer r x =
     x\<lparr>wx_main := (if with_writer then MCloseWriter r else MCancel r), wx_result := Some r\<rparr>"

text \<open>The receive of the first binary message; a closed channel gives nil, which is no JSON.\<close>

definition main_call :: "'v ws_state \<Rightarrow> 'v ws_state option" where
  "main_call x =
     (if wx_main x \<noteq> MCall then None
      else case (wx_init x, wx_init_closed x) of
        ([], False) \<Rightarrow> None
      | (ms, _) \<Rightarrow>
          let (buffer, rest) = (case ms of [] \<Rightarrow> ([], []) | b # bs \<Rightarrow> (b, bs)); x = x\<lparr>wx_init := rest\<rparr>
          in Some (case unmarshal_call buffer of
               None \<Rightarrow> serve_returns False \<lparr>Value = None, Reason = Some ErrCancelProtocolError\<rparr> x
             | Some call \<Rightarrow> x\<lparr>wx_main := MGet call\<rparr>))"

definition main_timeout :: "'v ws_state \<Rightarrow> 'v ws_state option" where
  "main_timeout x =
     (if wx_main x = MCall then Some (serve_returns False \<lparr>Value = None, Reason = Some ErrCancelTimeout\<rparr> x)
      else None)"

text \<open>What \<open>recover\<close> gives: the panic's value as text, or nothing when the goroutine is exiting.\<close>

definition panic_result :: "bytes option \<Rightarrow> 'v result" where
  "panic_result p = \<lparr>Value = None, Reason = map_option (\<lambda>t. Errorf [] errUnknown ('': '' @ t)) p\<rparr>"

definition do_result :: "'v option \<Rightarrow> go_error option \<Rightarrow> 'v result" where
  "do_result v e =
     (case e of
        None \<Rightarrow> \<lparr>Value = v, Reason = None\<rparr>
      | Some err \<Rightarrow> \<lparr>Value = None, Reason = Some (Errorf ''process returned error: '' err [])\<rparr>)"

text \<open>The deferred calls. \<open>errorsx.Close\<close> adds no error: closing a pipe writer returns nil.\<close>

definition main_step :: "('v \<Rightarrow> marshalled) \<Rightarrow> 'v ws_state \<Rightarrow> 'v ws_state option" where
  "main_step mj x =
     (case wx_main x of
        MCloseWriter r \<Rightarrow> Some (x\<lparr>wx_pipe := close_write (wx_pipe x), wx_main := MCancel r\<rparr>)
      | MCancel r \<Rightarrow> Some ((ws_cancel ErrCancelHandlerReturn x)\<lparr>wx_main := MMarshal r\<rparr>)
      | MMarshal r \<Rightarrow>
          Some (if wx_conn x \<noteq> None then x\<lparr>wx_main := MWait\<rparr>
                else x\<lparr>wx_main := MWrite (Result_MarshalJSON mj (Some r))\<rparr>)
      | MShutdown \<Rightarrow> Some (x\<lparr>wx_sent := wx_sent x @ [FClose], wx_main := MWait\<rparr>)
      | MWait \<Rightarrow>
          if wx_reader x = RDone \<and> wx_writer x \<in> {WNone, WDone} then Some (x\<lparr>wx_main := MReturned\<rparr>) else None
      | _ \<Rightarrow> None)"

section \<open>The system\<close>

text \<open>
  The client sends a message; the connection ends with a cause, which reaches the derived
  context; the reader notices; the three goroutines step; the timer fires; the handler and the
  process return, panic, read and write (\<open>True\<close> for a write the connection accepted); the
  connection accepts or refuses the result.
\<close>

datatype 'v ws_event =
    WsMsg ws_msg | WsConnDone go_error | WsPropagate | WsGone
  | WsReader | WsWriter | WsMain | WsCall | WsTimeout
  | WsGetOk | WsGetErr go_error | WsPanic "bytes option"
  | WsDoRead nat | WsDoWrite bytes bool | WsDoReturn "'v option" "go_error option"
  | WsWriteResult bool

fun in_do :: "'v main_pc \<Rightarrow> bool" where
  "in_do (MDo c) = True"
| "in_do _ = False"

definition do_read :: "nat \<Rightarrow> 'v ws_state \<Rightarrow> 'v ws_state option" where
  "do_read k x =
     (case pipe_read k (wx_pipe x) of
        (ReadBlocks, _) \<Rightarrow> None
      | (ReadData d, p) \<Rightarrow> Some (x\<lparr>wx_pipe := p, wx_read := wx_read x @ d\<rparr>)
      | (ReadErr e, p) \<Rightarrow> Some (x\<lparr>wx_pipe := p\<rparr>))"

fun ws_step :: "('v \<Rightarrow> marshalled) \<Rightarrow> 'v ws_event \<Rightarrow> 'v ws_state \<Rightarrow> 'v ws_state option" where
  "ws_step mj (WsMsg m) x = (if wx_reader x = RSelect then Some (reader_recv m x) else None)"
| "ws_step mj (WsConnDone e) x = (if wx_conn x = None then Some (x\<lparr>wx_conn := Some e\<rparr>) else None)"
| "ws_step mj WsPropagate x = (case wx_conn x of None \<Rightarrow> None | Some e \<Rightarrow> Some (ws_cancel e x))"
| "ws_step mj WsGone x = reader_gone x"
| "ws_step mj WsReader x = reader_step x"
| "ws_step mj WsWriter x = writer_step x"
| "ws_step mj WsMain x = main_step mj x"
| "ws_step mj WsCall x = main_call x"
| "ws_step mj WsTimeout x = main_timeout x"
| "ws_step mj WsGetOk x =
     (case wx_main x of
        MGet c \<Rightarrow> Some (x\<lparr>wx_main := MDo c, wx_pipe := pipe_new, wx_writer := WRecv,
          wx_gets := Suc (wx_gets x), wx_dos := Suc (wx_dos x)\<rparr>)
      | _ \<Rightarrow> None)"
| "ws_step mj (WsGetErr e) x =
     (case wx_main x of
        MGet c \<Rightarrow> Some (serve_returns False \<lparr>Value = None, Reason = Some (Errorf ''failed to get process: '' e [])\<rparr>
          (x\<lparr>wx_gets := Suc (wx_gets x)\<rparr>))
      | _ \<Rightarrow> None)"
| "ws_step mj (WsPanic p) x =
     (case wx_main x of
        MGet c \<Rightarrow> Some (serve_returns False (panic_result p) (x\<lparr>wx_gets := Suc (wx_gets x)\<rparr>))
      | MDo c \<Rightarrow> Some (serve_returns True (panic_result p) x)
      | _ \<Rightarrow> None)"
| "ws_step mj (WsDoRead k) x = (if in_do (wx_main x) then do_read k x else None)"
| "ws_step mj (WsDoWrite d ok) x =
     (if in_do (wx_main x) then Some (if ok then x\<lparr>wx_sent := wx_sent x @ [FText d]\<rparr> else x) else None)"
| "ws_step mj (WsDoReturn v e) x =
     (if in_do (wx_main x) then Some (serve_returns True (do_result v e) x) else None)"
| "ws_step mj (WsWriteResult ok) x =
     (case wx_main x of
        MWrite d \<Rightarrow> Some (if ok then x\<lparr>wx_sent := wx_sent x @ [FBinary d], wx_main := MShutdown\<rparr>
          else x\<lparr>wx_main := MWait\<rparr>)
      | _ \<Rightarrow> None)"

definition ws_start :: "'v ws_state \<Rightarrow> bool" where
  "ws_start x \<longleftrightarrow> ws_begin Subprotocol = Some x"

abbreviation ws_reachable :: "('v \<Rightarrow> marshalled) \<Rightarrow> 'v ws_state \<Rightarrow> bool" where
  "ws_reachable mj \<equiv> reachable_in ws_start (ws_step mj)"

end
