(* ===== verification/WsInv.thy ===== *)
theory WsInv
  imports Ws
begin

text \<open>
  What the messages of a client mean, as a specification on the list of messages, and the
  invariants that relate the three goroutines of a websocket connection to it.
\<close>

section \<open>The meaning of a client's messages\<close>

text \<open>
  The first binary message is the call. Text messages are input; a later \<open>close\<close> signal, and
  every \<open>cancel\<close> signal after the first, ends the input (\<open>None\<close>). The first \<open>cancel\<close> signal
  and every binary message that is no known signal cancel the process.
\<close>

record client_spec =
  sp_init :: "bytes option"
  sp_cancelled :: bool
  sp_queue :: "bytes option list"
  sp_cancels :: "go_error list"

definition spec_none :: client_spec where
  "spec_none = \<lparr>sp_init = None, sp_cancelled = False, sp_queue = [], sp_cancels = []\<rparr>"

definition spec_signal :: "bytes \<Rightarrow> client_spec \<Rightarrow> client_spec" where
  "spec_signal body s =
     (case unmarshal_signal body of
        None \<Rightarrow> s\<lparr>sp_cancels := sp_cancels s @ [ErrCancelProtocolError]\<rparr>
      | Some sg \<Rightarrow>
          if sm_signal sg = SignalClose then s\<lparr>sp_queue := sp_queue s @ [None]\<rparr>
          else if sm_signal sg = SignalCancel then
            (if sp_cancelled s then s\<lparr>sp_queue := sp_queue s @ [None]\<rparr>
             else s\<lparr>sp_cancels := sp_cancels s @ [ErrCancelClientRequest], sp_cancelled := True\<rparr>)
          else s\<lparr>sp_cancels := sp_cancels s @ [ErrCancelProtocolError]\<rparr>)"

definition spec_msg :: "ws_msg \<Rightarrow> client_spec \<Rightarrow> client_spec" where
  "spec_msg m s =
     (case m of
        WsText body \<Rightarrow> s\<lparr>sp_queue := sp_queue s @ [Some (case body of None \<Rightarrow> [] | Some b \<Rightarrow> b)]\<rparr>
      | WsOther \<Rightarrow> s
      | WsBinary body \<Rightarrow>
          (case sp_init s of None \<Rightarrow> s\<lparr>sp_init := Some body\<rparr> | Some _ \<Rightarrow> spec_signal body s))"

definition client_means :: "ws_msg list \<Rightarrow> client_spec" where
  "client_means ms = fold spec_msg ms spec_none"

lemma client_means_snoc [simp]: "client_means (ms @ [m]) = spec_msg m (client_means ms)"
  by (simp add: client_means_def)

lemma client_means_Nil [simp]: "client_means [] = spec_none"
  by (simp add: client_means_def)

text \<open>The input a queue stands for: its texts up to the first end mark.\<close>

fun input_of :: "bytes option list \<Rightarrow> bytes" where
  "input_of [] = []"
| "input_of (None # ms) = []"
| "input_of (Some t # ms) = t @ input_of ms"

lemma input_of_append: "input_of (a @ b) = input_of a @ (if None \<in> set a then [] else input_of b)"
  by (induction a rule: input_of.induct) auto

definition first_cancel :: "go_error list \<Rightarrow> ctx" where
  "first_cancel es = (case es of [] \<Rightarrow> None | e # _ \<Rightarrow> Some e)"

lemma first_cancel_simps [simp]:
  "first_cancel [] = None" "first_cancel (es @ [e]) = cancel_with e (first_cancel es)"
  by (simp_all add: first_cancel_def split: list.split)

section \<open>The reader follows the specification\<close>

abbreviation wx_spec :: "'v ws_state \<Rightarrow> client_spec" where
  "wx_spec x \<equiv> client_means (wx_msgs x)"

definition pending_send :: "reader_pc \<Rightarrow> bytes option list" where
  "pending_send r = (case r of RSend m \<Rightarrow> [m] | _ \<Rightarrow> [])"

text \<open>Before its deferred calls, the main goroutine has not cancelled the context.\<close>

fun main_live :: "'v main_pc \<Rightarrow> bool" where
  "main_live MCall = True"
| "main_live (MGet c) = True"
| "main_live (MDo c) = True"
| "main_live (MCloseWriter r) = True"
| "main_live (MCancel r) = True"
| "main_live _ = False"

fun main_call_of :: "'v main_pc \<Rightarrow> call_message option" where
  "main_call_of (MGet c) = Some c"
| "main_call_of (MDo c) = Some c"
| "main_call_of _ = None"

text \<open>What went through \<open>textMessages\<close>, is in its buffer, or waits to be sent.\<close>

definition queue_ok :: "bytes option list \<Rightarrow> bytes option list \<Rightarrow> bytes option list \<Rightarrow> reader_pc \<Rightarrow> bool" where
  "queue_ok q tk tx r \<longleftrightarrow> tk @ tx @ pending_send r = q \<and> length tx \<le> messageBufferSize"

definition close_ok :: "reader_pc \<Rightarrow> bool \<Rightarrow> bool \<Rightarrow> ctx \<Rightarrow> bool" where
  "close_ok r tc ic conn \<longleftrightarrow> (tc \<longleftrightarrow> r = RDone) \<and> (ic \<longleftrightarrow> r = RCloseText \<or> r = RDone) \<and>
     (r = RCloseInit \<or> r = RCloseText \<or> r = RDone \<longrightarrow> conn \<noteq> None)"

definition sending_init :: "reader_pc \<Rightarrow> bytes option" where
  "sending_init r = (case r of RSendInit b \<Rightarrow> Some b | _ \<Rightarrow> None)"

text \<open>The initial message: not there, being sent, in its channel, or received by the main goroutine.\<close>

definition init_ok :: "reader_pc \<Rightarrow> bool \<Rightarrow> bytes list \<Rightarrow> bytes option \<Rightarrow> call_message option \<Rightarrow> bool" where
  "init_ok r had ini sp call \<longleftrightarrow>
     (case sending_init r of None \<Rightarrow> had = (sp \<noteq> None) | Some b \<Rightarrow> sp = Some b \<and> \<not> had) \<and>
     (ini = [] \<or> (\<exists>b. ini = [b] \<and> sp = Some b \<and> had)) \<and>
     (\<forall>c. call = Some c \<longrightarrow> (\<exists>b. sp = Some b \<and> unmarshal_call b = Some c))"

definition ctx_ok :: "ctx \<Rightarrow> bool \<Rightarrow> ctx \<Rightarrow> go_error list \<Rightarrow> bool" where
  "ctx_ok conn live c es \<longleftrightarrow> (conn = None \<longrightarrow> live \<longrightarrow> c = first_cancel es) \<and>
     (\<forall>e. c = Some e \<longrightarrow> e \<in> set es \<or> conn = Some e \<or> (conn \<noteq> None \<and> e = ErrCancelClientGone) \<or>
        (\<not> live \<and> e = ErrCancelHandlerReturn))"

definition follows :: "'v ws_state \<Rightarrow> bool" where
  "follows x \<longleftrightarrow>
     queue_ok (sp_queue (wx_spec x)) (wx_taken x) (wx_text x) (wx_reader x) \<and>
     close_ok (wx_reader x) (wx_text_closed x) (wx_init_closed x) (wx_conn x) \<and>
     init_ok (wx_reader x) (wx_had_init x) (wx_init x) (sp_init (wx_spec x)) (main_call_of (wx_main x)) \<and>
     wx_had_cancel x = sp_cancelled (wx_spec x) \<and>
     ctx_ok (wx_conn x) (main_live (wx_main x)) (wx_ctx x) (sp_cancels (wx_spec x))"

lemma queue_ok_simps [simp]:
  "queue_ok q tk tx (RSendInit b) = queue_ok q tk tx RSelect" "queue_ok q tk tx RCloseInit = queue_ok q tk tx RSelect"
  "queue_ok q tk tx RCloseText = queue_ok q tk tx RSelect" "queue_ok q tk tx RDone = queue_ok q tk tx RSelect"
  "queue_ok q tk tx RSelect \<Longrightarrow> queue_ok (q @ [m]) tk tx (RSend m)"
  "queue_ok q tk tx (RSend m) \<Longrightarrow> length tx < messageBufferSize \<Longrightarrow> queue_ok q tk (tx @ [m]) RSelect"
  "queue_ok q tk (m # ms) r \<Longrightarrow> queue_ok q (tk @ [m]) ms r"
  by (simp_all add: queue_ok_def pending_send_def)

lemma close_ok_simps [simp]:
  "close_ok RSelect tc ic c = (\<not> tc \<and> \<not> ic)" "close_ok (RSend m) tc ic c = (\<not> tc \<and> \<not> ic)"
  "close_ok (RSendInit b) tc ic c = (\<not> tc \<and> \<not> ic)" "close_ok RCloseInit tc ic c = (\<not> tc \<and> \<not> ic \<and> c \<noteq> None)"
  "close_ok RCloseText tc ic c = (\<not> tc \<and> ic \<and> c \<noteq> None)" "close_ok RDone tc ic c = (tc \<and> ic \<and> c \<noteq> None)"
  by (auto simp: close_ok_def)

lemma close_ok_conn: "close_ok r tc ic None \<Longrightarrow> close_ok r tc ic c"
  by (cases r) simp_all

lemma init_ok_simps [simp]:
  "init_ok (RSend m) had ini sp call = init_ok RSelect had ini sp call"
  "init_ok RCloseInit had ini sp call = init_ok RSelect had ini sp call"
  "init_ok RCloseText had ini sp call = init_ok RSelect had ini sp call"
  "init_ok RDone had ini sp call = init_ok RSelect had ini sp call"
  by (simp_all add: init_ok_def sending_init_def)

lemma init_ok_had: "init_ok RSelect had ini sp call \<Longrightarrow> had = (sp \<noteq> None)"
  by (simp add: init_ok_def sending_init_def)

lemma init_ok_first: "init_ok RSelect False ini None call \<Longrightarrow> init_ok (RSendInit b) False ini (Some b) call"
  by (auto simp: init_ok_def sending_init_def)

lemma init_ok_sent: "init_ok (RSendInit b) had ini sp call \<Longrightarrow> ini = [] \<and> init_ok RSelect True [b] sp call"
  by (auto simp: init_ok_def sending_init_def)

lemma init_ok_call: "init_ok r had (b # bs) sp call \<Longrightarrow> unmarshal_call b = Some c \<Longrightarrow> init_ok r had bs sp (Some c)"
  by (cases "sending_init r") (auto simp: init_ok_def)

lemma init_ok_drop: "init_ok r had ini sp call \<Longrightarrow> init_ok r had ini sp None" "init_ok r had ini sp call \<Longrightarrow> init_ok r had [] sp call"
  "init_ok r had (b # bs) sp call \<Longrightarrow> init_ok r had bs sp call"
  by (cases "sending_init r"; auto simp: init_ok_def)+

lemma ctx_ok_cancel: "ctx_ok conn live c es \<Longrightarrow> ctx_ok conn live (cancel_with e c) (es @ [e])"
  by (cases c; cases "first_cancel es") (auto simp: ctx_ok_def)

lemma ctx_ok_conn: "ctx_ok None live c es \<Longrightarrow> ctx_ok (Some e) live c es"
  by (auto simp: ctx_ok_def)

lemma ctx_ok_gone:
  "ctx_ok (Some e) live c es \<Longrightarrow> ctx_ok (Some e) live (cancel_with e c) es"
  "ctx_ok (Some e) live c es \<Longrightarrow> ctx_ok (Some e) live (cancel_with ErrCancelClientGone c) es"
  by (cases c; simp add: ctx_ok_def)+

lemma ctx_ok_return: "ctx_ok conn True c es \<Longrightarrow> ctx_ok conn False (cancel_with ErrCancelHandlerReturn c) es"
  by (cases c) (auto simp: ctx_ok_def)

lemma ctx_ok_dead: "ctx_ok conn False c es \<Longrightarrow> live = False \<Longrightarrow> ctx_ok conn live c es"
  by simp

lemma spec_signal_init [simp]: "sp_init (spec_signal b s) = sp_init s"
  by (simp add: spec_signal_def split: option.split)

lemma spec_msg_init: "sp_init s = Some b \<Longrightarrow> sp_init (spec_msg m s) = Some b"
  by (simp add: spec_msg_def split: ws_msg.split)

text \<open>The reader's reaction to a signal, next to the specification's.\<close>

lemma reader_signal_cases:
  assumes "wx_had_cancel x = sp_cancelled s"
  obtains (close) "reader_signal b x = x\<lparr>wx_reader := RSend None\<rparr>"
      "spec_signal b s = s\<lparr>sp_queue := sp_queue s @ [None]\<rparr>"
    | (cancel) "reader_signal b x = (ws_cancel ErrCancelClientRequest x)\<lparr>wx_had_cancel := True\<rparr>"
      "spec_signal b s = s\<lparr>sp_cancels := sp_cancels s @ [ErrCancelClientRequest], sp_cancelled := True\<rparr>"
    | (protocol) "reader_signal b x = ws_cancel ErrCancelProtocolError x"
      "spec_signal b s = s\<lparr>sp_cancels := sp_cancels s @ [ErrCancelProtocolError]\<rparr>"
proof (cases "unmarshal_signal b")
  case None
  then show thesis using protocol by (simp add: reader_signal_def spec_signal_def)
next
  case (Some sg)
  consider "sm_signal sg = SignalClose" | "sm_signal sg = SignalCancel" "wx_had_cancel x"
    | "sm_signal sg = SignalCancel" "\<not> wx_had_cancel x" | "sm_signal sg \<noteq> SignalClose" "sm_signal sg \<noteq> SignalCancel"
    by blast
  then show thesis
  proof cases
    case 1
    then show thesis using close Some by (simp add: reader_signal_def spec_signal_def)
  next
    case 2
    then show thesis using close Some assms by (simp add: reader_signal_def spec_signal_def)
  next
    case 3
    then show thesis using cancel Some assms by (simp add: reader_signal_def spec_signal_def)
  next
    case 4
    then show thesis using protocol Some by (simp add: reader_signal_def spec_signal_def)
  qed
qed

lemma ws_cancel_fields [simp]:
  "wx_conn (ws_cancel e x) = wx_conn x" "wx_sent (ws_cancel e x) = wx_sent x" "wx_text (ws_cancel e x) = wx_text x"
  "wx_text_closed (ws_cancel e x) = wx_text_closed x" "wx_init (ws_cancel e x) = wx_init x"
  "wx_init_closed (ws_cancel e x) = wx_init_closed x" "wx_ctx (ws_cancel e x) = cancel_with e (wx_ctx x)"
  "wx_reader (ws_cancel e x) = wx_reader x" "wx_had_init (ws_cancel e x) = wx_had_init x"
  "wx_had_cancel (ws_cancel e x) = wx_had_cancel x" "wx_main (ws_cancel e x) = wx_main x"
  "wx_writer (ws_cancel e x) = wx_writer x" "wx_pipe (ws_cancel e x) = wx_pipe x" "wx_msgs (ws_cancel e x) = wx_msgs x"
  "wx_taken (ws_cancel e x) = wx_taken x" "wx_read (ws_cancel e x) = wx_read x" "wx_result (ws_cancel e x) = wx_result x"
  "wx_gets (ws_cancel e x) = wx_gets x" "wx_dos (ws_cancel e x) = wx_dos x"
  by (simp_all add: ws_cancel_def)

interpretation ws_cancel: cancellable wx_ctx ws_cancel
  by unfold_locales simp

lemma follows_recv:
  assumes f: "follows x" and r: "wx_reader x = RSelect"
  shows "follows (reader_recv m x)"
proof (cases m)
  case (WsText body)
  then show ?thesis using f r by (simp add: follows_def reader_recv_def spec_msg_def)
next
  case WsOther
  then show ?thesis using f r by (simp add: follows_def reader_recv_def spec_msg_def)
next
  case (WsBinary body)
  have "init_ok RSelect (wx_had_init x) (wx_init x) (sp_init (wx_spec x)) (main_call_of (wx_main x))"
    using f r by (simp add: follows_def)
  then have had: "wx_had_init x = (sp_init (wx_spec x) \<noteq> None)" by (rule init_ok_had)
  show ?thesis
  proof (cases "sp_init (wx_spec x)")
    case None
    then show ?thesis using f r WsBinary had init_ok_first
      by (simp add: follows_def reader_recv_def spec_msg_def)
  next
    case (Some b0)
    let ?y = "x\<lparr>wx_msgs := wx_msgs x @ [m]\<rparr>"
    have rr: "reader_recv m x = reader_signal body ?y" and sp: "wx_spec ?y = spec_signal body (wx_spec x)"
      using WsBinary Some had by (simp_all add: reader_recv_def spec_msg_def)
    have hc: "wx_had_cancel ?y = sp_cancelled (wx_spec x)" using f by (simp add: follows_def)
    from hc show ?thesis
      by (cases rule: reader_signal_cases [where b = body])
        (use f r sp in \<open>simp_all add: rr follows_def ctx_ok_cancel\<close>)
  qed
qed

lemma follows_reader: "follows x \<Longrightarrow> reader_step x = Some y \<Longrightarrow> follows y"
proof (cases "wx_reader x")
  case (RSendInit b)
  assume f: "follows x" and s: "reader_step x = Some y"
  have "init_ok (RSendInit b) (wx_had_init x) (wx_init x) (sp_init (wx_spec x)) (main_call_of (wx_main x))"
    using f RSendInit by (simp add: follows_def)
  from init_ok_sent [OF this] show ?thesis using f s RSendInit by (auto simp: follows_def reader_step_def)
qed (auto simp: follows_def reader_step_def simp del: not_None_eq split: if_splits)

lemma follows_gone: "follows x \<Longrightarrow> reader_gone x = Some y \<Longrightarrow> follows y"
  by (auto simp: follows_def reader_gone_def ctx_ok_gone split: if_splits)

text \<open>
  A step of the writer or of the process leaves everything the specification speaks of alone,
  except that the writer takes from the buffer.
\<close>

lemma follows_cong:
  assumes "follows x" "wx_taken y = wx_taken x" "wx_text y = wx_text x" "wx_reader y = wx_reader x"
    "wx_msgs y = wx_msgs x" "wx_text_closed y = wx_text_closed x" "wx_init_closed y = wx_init_closed x"
    "wx_conn y = wx_conn x" "wx_had_init y = wx_had_init x" "wx_had_cancel y = wx_had_cancel x"
    "wx_init y = wx_init x" "wx_ctx y = wx_ctx x"
    "main_call_of (wx_main y) = None \<or> main_call_of (wx_main y) = main_call_of (wx_main x)"
    "main_live (wx_main y) = main_live (wx_main x)"
  shows "follows y"
proof -
  have "init_ok (wx_reader x) (wx_had_init x) (wx_init x) (sp_init (wx_spec x)) (main_call_of (wx_main y))"
    using assms(1,13) init_ok_drop(1) by (auto simp: follows_def)
  then show ?thesis using assms(1) by (simp add: follows_def assms(2-12,14))
qed

lemma follows_writer: "follows x \<Longrightarrow> writer_step x = Some y \<Longrightarrow> follows y"
proof (cases "wx_writer x")
  case WRecv
  then show "follows x \<Longrightarrow> writer_step x = Some y \<Longrightarrow> ?thesis"
    by (cases "wx_text x") (auto simp: writer_step_def follows_def split: if_splits)
next
  case WDrain
  then show "follows x \<Longrightarrow> writer_step x = Some y \<Longrightarrow> ?thesis"
    by (cases "wx_text x") (auto simp: writer_step_def follows_def split: if_splits)
qed (auto simp: writer_step_def intro: follows_cong split: option.splits prod.splits write_result.splits)

lemma follows_main: "follows x \<Longrightarrow> main_step mj x = Some y \<Longrightarrow> follows y"
proof (cases "wx_main x")
  case (MCancel r)
  then show "follows x \<Longrightarrow> main_step mj x = Some y \<Longrightarrow> ?thesis"
    by (auto simp: main_step_def follows_def ctx_ok_return)
qed (auto simp: main_step_def intro: follows_cong split: if_splits)

lemma follows_call: "follows x \<Longrightarrow> main_call x = Some y \<Longrightarrow> follows y"
proof -
  assume f: "follows x" and s: "main_call x = Some y"
  have m: "wx_main x = MCall" using s by (auto simp: main_call_def split: if_splits)
  show ?thesis
  proof (cases "wx_init x")
    case Nil
    have "unmarshal_call [] = None"
      by (simp add: unmarshal_call_def json_unmarshal_def parse_value.simps next_tok_def skip_ws_def)
    then have "y = serve_returns False \<lparr>Value = None, Reason = Some ErrCancelProtocolError\<rparr> x"
      using s Nil m by (cases x) (auto simp: main_call_def split: bool.splits)
    then show ?thesis using f m by (simp add: follows_def serve_returns_def)
  next
    case (Cons b bs)
    show ?thesis
    proof (cases "unmarshal_call b")
      case None
      then show ?thesis using s f m Cons init_ok_drop(3)
        by (auto simp: main_call_def follows_def serve_returns_def)
    next
      case (Some c)
      then show ?thesis using s f m Cons init_ok_call
        by (auto simp: main_call_def follows_def)
    qed
  qed
qed

lemma follows_step: "follows x \<Longrightarrow> ws_step mj e x = Some y \<Longrightarrow> follows y"
proof (cases e)
  case (WsMsg m)
  then show "follows x \<Longrightarrow> ws_step mj e x = Some y \<Longrightarrow> ?thesis" using follows_recv by (auto split: if_splits)
next
  case (WsConnDone c)
  then show "follows x \<Longrightarrow> ws_step mj e x = Some y \<Longrightarrow> ?thesis"
    using close_ok_conn ctx_ok_conn by (auto simp: follows_def split: if_splits)
next
  case WsPropagate
  then show "follows x \<Longrightarrow> ws_step mj e x = Some y \<Longrightarrow> ?thesis"
    by (auto simp: follows_def ctx_ok_gone split: option.splits)
next
  case WsTimeout
  then show "follows x \<Longrightarrow> ws_step mj e x = Some y \<Longrightarrow> ?thesis"
    by (auto simp: main_timeout_def serve_returns_def intro: follows_cong split: if_splits)
next
  case (WsDoRead k)
  then show "follows x \<Longrightarrow> ws_step mj e x = Some y \<Longrightarrow> ?thesis"
    by (auto simp: do_read_def intro: follows_cong split: if_splits prod.splits read_result.splits)
next
  case WsGetOk
  then show "follows x \<Longrightarrow> ws_step mj e x = Some y \<Longrightarrow> ?thesis"
    by (cases "wx_main x") (auto intro: follows_cong)
next
  case (WsGetErr err)
  then show "follows x \<Longrightarrow> ws_step mj e x = Some y \<Longrightarrow> ?thesis"
    by (cases "wx_main x") (auto simp: serve_returns_def intro: follows_cong)
next
  case (WsPanic p)
  then show "follows x \<Longrightarrow> ws_step mj e x = Some y \<Longrightarrow> ?thesis"
    by (cases "wx_main x") (auto simp: serve_returns_def intro: follows_cong)
next
  case (WsDoReturn v err)
  then show "follows x \<Longrightarrow> ws_step mj e x = Some y \<Longrightarrow> ?thesis"
    by (cases "wx_main x") (auto simp: serve_returns_def intro: follows_cong)
next
  case (WsDoWrite d ok)
  then show "follows x \<Longrightarrow> ws_step mj e x = Some y \<Longrightarrow> ?thesis"
    by (cases "wx_main x") (auto intro: follows_cong split: if_splits)
next
  case (WsWriteResult ok)
  then show "follows x \<Longrightarrow> ws_step mj e x = Some y \<Longrightarrow> ?thesis"
    by (cases "wx_main x") (auto intro: follows_cong split: if_splits)
next
  case WsGone
  then show "follows x \<Longrightarrow> ws_step mj e x = Some y \<Longrightarrow> ?thesis" by (auto intro: follows_gone)
next
  case WsReader
  then show "follows x \<Longrightarrow> ws_step mj e x = Some y \<Longrightarrow> ?thesis" by (auto intro: follows_reader)
next
  case WsWriter
  then show "follows x \<Longrightarrow> ws_step mj e x = Some y \<Longrightarrow> ?thesis" by (auto intro: follows_writer)
next
  case WsMain
  then show "follows x \<Longrightarrow> ws_step mj e x = Some y \<Longrightarrow> ?thesis" by (auto intro: follows_main)
next
  case WsCall
  then show "follows x \<Longrightarrow> ws_step mj e x = Some y \<Longrightarrow> ?thesis" by (auto intro: follows_call)
qed

section \<open>The main goroutine\<close>

text \<open>What was sent: texts, then possibly the result, then possibly the close frame.\<close>

definition texts :: "ws_frame list \<Rightarrow> bool" where
  "texts fs \<longleftrightarrow> list_all (\<lambda>f. \<exists>t. f = FText t) fs"

definition sent_with :: "ws_frame list \<Rightarrow> ws_frame list \<Rightarrow> bool" where
  "sent_with tail fs \<longleftrightarrow> (\<exists>ts. texts ts \<and> fs = ts @ tail)"

definition result_sent :: "('v \<Rightarrow> marshalled) \<Rightarrow> 'v ws_state \<Rightarrow> bool" where
  "result_sent mj x \<longleftrightarrow> wx_gets x \<le> 1 \<and> wx_dos x \<le> wx_gets x \<and>
     (\<exists>r. wx_result x = Some r \<and> (sent_with [] (wx_sent x) \<or>
        sent_with [FBinary (Result_MarshalJSON mj (Some r)), FClose] (wx_sent x)))"

fun main_ok :: "('v \<Rightarrow> marshalled) \<Rightarrow> 'v main_pc \<Rightarrow> 'v ws_state \<Rightarrow> bool" where
  "main_ok mj MCall x = (wx_gets x = 0 \<and> wx_dos x = 0 \<and> wx_result x = None \<and> wx_sent x = [])"
| "main_ok mj (MGet c) x = (wx_gets x = 0 \<and> wx_dos x = 0 \<and> wx_result x = None \<and> wx_sent x = [])"
| "main_ok mj (MDo c) x = (wx_gets x = 1 \<and> wx_dos x = 1 \<and> wx_result x = None \<and> sent_with [] (wx_sent x))"
| "main_ok mj (MCloseWriter r) x = (wx_gets x = 1 \<and> wx_dos x = 1 \<and> wx_result x = Some r \<and> sent_with [] (wx_sent x))"
| "main_ok mj (MCancel r) x = (wx_gets x \<le> 1 \<and> wx_dos x \<le> wx_gets x \<and> wx_result x = Some r \<and> sent_with [] (wx_sent x))"
| "main_ok mj (MMarshal r) x = (wx_gets x \<le> 1 \<and> wx_dos x \<le> wx_gets x \<and> wx_result x = Some r \<and> sent_with [] (wx_sent x))"
| "main_ok mj (MWrite d) x = (wx_gets x \<le> 1 \<and> wx_dos x \<le> wx_gets x \<and> sent_with [] (wx_sent x) \<and>
     (\<exists>r. wx_result x = Some r \<and> d = Result_MarshalJSON mj (Some r)))"
| "main_ok mj MShutdown x = (wx_gets x \<le> 1 \<and> wx_dos x \<le> wx_gets x \<and>
     (\<exists>r. wx_result x = Some r \<and> sent_with [FBinary (Result_MarshalJSON mj (Some r))] (wx_sent x)))"
| "main_ok mj MWait x = result_sent mj x"
| "main_ok mj MReturned x = result_sent mj x"

definition main_inv :: "('v \<Rightarrow> marshalled) \<Rightarrow> 'v ws_state \<Rightarrow> bool" where
  "main_inv mj x \<longleftrightarrow> main_ok mj (wx_main x) x \<and> (wx_writer x = WNone \<longleftrightarrow> wx_dos x = 0)"

lemma sent_with_Nil [simp]: "sent_with [] []"
  by (simp add: sent_with_def texts_def)

lemma sent_with_text: "sent_with [] fs \<Longrightarrow> sent_with [] (fs @ [FText d])"
  by (auto simp: sent_with_def texts_def)

lemma sent_with_app: "sent_with a fs \<Longrightarrow> sent_with (a @ b) (fs @ b)"
  by (auto simp: sent_with_def)

text \<open>The main invariant looks at few fields; the other goroutines keep those.\<close>

lemma main_inv_cong:
  assumes "main_inv mj x" "wx_main y = wx_main x" "wx_gets y = wx_gets x" "wx_dos y = wx_dos x"
    "wx_result y = wx_result x" "wx_sent y = wx_sent x" "wx_writer y = WNone \<longleftrightarrow> wx_writer x = WNone"
  shows "main_inv mj y"
  using assms by (cases "wx_main x") (simp_all add: main_inv_def result_sent_def)

lemma writer_step_fields:
  assumes "writer_step x = Some y"
  shows "wx_main y = wx_main x \<and> wx_gets y = wx_gets x \<and> wx_dos y = wx_dos x \<and> wx_result y = wx_result x \<and>
    wx_sent y = wx_sent x \<and> wx_writer y \<noteq> WNone \<and> wx_writer x \<noteq> WNone \<and> wx_writer x \<noteq> WDone \<and>
    wx_reader y = wx_reader x \<and> wx_ctx y = wx_ctx x \<and> wx_conn y = wx_conn x \<and> wx_read y = wx_read x \<and>
    wx_text_closed y = wx_text_closed x \<and> wx_msgs y = wx_msgs x"
  using assms
  by (cases "wx_writer x"; cases "wx_text x")
    (auto simp: writer_step_def split: if_splits option.splits prod.splits write_result.splits)

lemma reader_step_fields:
  assumes "reader_step x = Some y"
  shows "wx_main y = wx_main x \<and> wx_gets y = wx_gets x \<and> wx_dos y = wx_dos x \<and> wx_result y = wx_result x \<and>
    wx_sent y = wx_sent x \<and> wx_writer y = wx_writer x \<and> wx_reader x \<noteq> RDone \<and> wx_ctx y = wx_ctx x \<and>
    wx_conn y = wx_conn x \<and> wx_read y = wx_read x \<and> wx_pipe y = wx_pipe x \<and> wx_taken y = wx_taken x \<and> wx_msgs y = wx_msgs x"
  using assms by (cases "wx_reader x") (auto simp: reader_step_def split: if_splits)

lemma reader_recv_fields:
  "wx_main (reader_recv m x) = wx_main x \<and> wx_gets (reader_recv m x) = wx_gets x \<and> wx_dos (reader_recv m x) = wx_dos x \<and>
    wx_result (reader_recv m x) = wx_result x \<and> wx_sent (reader_recv m x) = wx_sent x \<and>
    wx_writer (reader_recv m x) = wx_writer x \<and> wx_conn (reader_recv m x) = wx_conn x \<and>
    wx_read (reader_recv m x) = wx_read x \<and> wx_pipe (reader_recv m x) = wx_pipe x \<and>
    wx_taken (reader_recv m x) = wx_taken x \<and> wx_text (reader_recv m x) = wx_text x \<and>
    wx_text_closed (reader_recv m x) = wx_text_closed x"
  by (simp add: reader_recv_def reader_signal_def Let_def split: ws_msg.split option.split)

lemma main_inv_step: "main_inv mj x \<Longrightarrow> ws_step mj e x = Some y \<Longrightarrow> main_inv mj y"
proof (cases e)
  case (WsMsg m)
  then show "main_inv mj x \<Longrightarrow> ws_step mj e x = Some y \<Longrightarrow> ?thesis"
    using reader_recv_fields [of m x] by - (rule main_inv_cong [of mj x y], simp_all split: if_splits)
next
  case WsGone
  then show "main_inv mj x \<Longrightarrow> ws_step mj e x = Some y \<Longrightarrow> ?thesis"
    by - (rule main_inv_cong [of mj x y], auto simp: reader_gone_def split: if_splits)
next
  case WsReader
  then show "main_inv mj x \<Longrightarrow> ws_step mj e x = Some y \<Longrightarrow> ?thesis"
    using reader_step_fields [of x y] by - (rule main_inv_cong [of mj x y], simp_all)
next
  case WsWriter
  then show "main_inv mj x \<Longrightarrow> ws_step mj e x = Some y \<Longrightarrow> ?thesis"
    using writer_step_fields [of x y] by - (rule main_inv_cong [of mj x y], simp_all)
next
  case (WsDoRead k)
  then show "main_inv mj x \<Longrightarrow> ws_step mj e x = Some y \<Longrightarrow> ?thesis"
    by - (rule main_inv_cong [of mj x y], auto simp: do_read_def split: if_splits prod.splits read_result.splits)
next
  case (WsConnDone c)
  then show "main_inv mj x \<Longrightarrow> ws_step mj e x = Some y \<Longrightarrow> ?thesis"
    by - (rule main_inv_cong [of mj x y], auto split: if_splits)
next
  case WsPropagate
  then show "main_inv mj x \<Longrightarrow> ws_step mj e x = Some y \<Longrightarrow> ?thesis"
    by - (rule main_inv_cong [of mj x y], auto split: option.splits)
next
  case WsMain
  then show "main_inv mj x \<Longrightarrow> ws_step mj e x = Some y \<Longrightarrow> ?thesis"
    using sent_with_app [of "[FBinary d]" "wx_sent x" "[FClose]" for d]
    by (cases "wx_main x") (auto simp: main_inv_def main_step_def result_sent_def split: if_splits)
next
  case WsCall
  then show "main_inv mj x \<Longrightarrow> ws_step mj e x = Some y \<Longrightarrow> ?thesis"
    by (cases "wx_main x"; cases "wx_init x"; cases "wx_init_closed x")
      (auto simp: main_inv_def main_call_def serve_returns_def Let_def split: option.splits)
next
  case WsTimeout
  then show "main_inv mj x \<Longrightarrow> ws_step mj e x = Some y \<Longrightarrow> ?thesis"
    by (cases "wx_main x") (auto simp: main_inv_def main_timeout_def serve_returns_def)
next
  case (WsDoWrite d ok)
  then show "main_inv mj x \<Longrightarrow> ws_step mj e x = Some y \<Longrightarrow> ?thesis"
    by (cases "wx_main x") (auto simp: main_inv_def sent_with_text split: if_splits)
next
  case (WsWriteResult ok)
  then show "main_inv mj x \<Longrightarrow> ws_step mj e x = Some y \<Longrightarrow> ?thesis"
    using sent_with_app [of "[]" "wx_sent x"]
    by (cases "wx_main x") (auto simp: main_inv_def result_sent_def split: if_splits)
next
  case WsGetOk
  then show "main_inv mj x \<Longrightarrow> ws_step mj e x = Some y \<Longrightarrow> ?thesis"
    by (cases "wx_main x") (auto simp: main_inv_def)
next
  case (WsGetErr err)
  then show "main_inv mj x \<Longrightarrow> ws_step mj e x = Some y \<Longrightarrow> ?thesis"
    by (cases "wx_main x") (auto simp: main_inv_def serve_returns_def)
next
  case (WsPanic p)
  then show "main_inv mj x \<Longrightarrow> ws_step mj e x = Some y \<Longrightarrow> ?thesis"
    by (cases "wx_main x") (auto simp: main_inv_def serve_returns_def)
next
  case (WsDoReturn v err)
  then show "main_inv mj x \<Longrightarrow> ws_step mj e x = Some y \<Longrightarrow> ?thesis"
    by (cases "wx_main x") (auto simp: main_inv_def serve_returns_def)
qed

section \<open>The input pipe\<close>

text \<open>
  While the process runs, the bytes it has read and those pending in the pipe are exactly the
  texts the writer has taken from the channel; only the writer can close the pipe, after an end
  mark or the end of the channel.
\<close>

definition ended :: "'v ws_state \<Rightarrow> bool" where
  "ended x \<longleftrightarrow> None \<in> set (wx_taken x) \<or> (wx_text_closed x \<and> wx_text x = [])"

definition pipe_open :: "pipe \<Rightarrow> bool" where
  "pipe_open p \<longleftrightarrow> \<not> p_done p \<and> p_rerr p = None \<and> p_werr p = None"

lemma pipe_open_new: "pipe_open pipe_new"
  by (simp add: pipe_open_def pipe_new_def)

lemma pipe_open_same: "pipe_open p \<Longrightarrow> same_ends p q \<Longrightarrow> pipe_open q"
  by (simp add: pipe_open_def same_ends_def)

lemma pipe_open_pend: "pipe_open (p\<lparr>p_pend := w\<rparr>) = pipe_open p"
  by (simp add: pipe_open_def)

lemma close_write_eof: "pipe_open p \<Longrightarrow> ends_in_eof (close_write p)"
  by (simp add: pipe_open_def ends_in_eof_def close_write_def store_once_def)

fun writer_ok :: "writer_pc \<Rightarrow> 'v ws_state \<Rightarrow> bool" where
  "writer_ok WNone x = False"
| "writer_ok WRecv x = (pipe_open (wx_pipe x) \<and> p_pend (wx_pipe x) = None \<and> None \<notin> set (wx_taken x) \<and>
     wx_read x = input_of (wx_taken x))"
| "writer_ok (WWrite t) x = (pipe_open (wx_pipe x) \<and> p_pend (wx_pipe x) = None \<and> None \<notin> set (wx_taken x) \<and>
     wx_read x @ t = input_of (wx_taken x))"
| "writer_ok WWriting x = (pipe_open (wx_pipe x) \<and> p_pend (wx_pipe x) \<noteq> None \<and> None \<notin> set (wx_taken x) \<and>
     wx_read x @ pending_bytes (wx_pipe x) = input_of (wx_taken x))"
| "writer_ok WClose x = (pipe_open (wx_pipe x) \<and> p_pend (wx_pipe x) = None \<and> ended x \<and> wx_read x = input_of (wx_taken x))"
| "writer_ok WDrain x = (ends_in_eof (wx_pipe x) \<and> ended x \<and> wx_read x = input_of (wx_taken x))"
| "writer_ok WDone x = (ends_in_eof (wx_pipe x) \<and> ended x \<and> wx_read x = input_of (wx_taken x))"

definition data_inv :: "'v ws_state \<Rightarrow> bool" where
  "data_inv x \<longleftrightarrow> (in_do (wx_main x) \<longrightarrow> writer_ok (wx_writer x) x) \<and>
     prefix (wx_read x) (input_of (wx_taken x)) \<and>
     (\<not> in_do (wx_main x) \<and> wx_writer x = WNone \<longrightarrow> wx_read x = [] \<and> wx_taken x = [])"

lemma writer_ok_prefix: "writer_ok w x \<Longrightarrow> prefix (wx_read x) (input_of (wx_taken x))"
  by (cases w) (auto intro: prefixI [OF sym])

text \<open>The reader and the connection only add to the channel, or close it.\<close>

lemma writer_ok_cong:
  assumes "writer_ok w x" "wx_pipe y = wx_pipe x" "wx_taken y = wx_taken x" "wx_read y = wx_read x"
    "ended x \<Longrightarrow> ended y"
  shows "writer_ok w y"
  using assms by (cases w) simp_all

lemma data_inv_cong:
  assumes "data_inv x" "wx_pipe y = wx_pipe x" "wx_taken y = wx_taken x" "wx_read y = wx_read x"
    "ended x \<Longrightarrow> ended y" "wx_writer y = wx_writer x" "in_do (wx_main y) \<Longrightarrow> in_do (wx_main x)"
    "wx_writer x = WNone \<Longrightarrow> in_do (wx_main x) = in_do (wx_main y)"
  shows "data_inv y"
  using assms writer_ok_cong [of "wx_writer x" x y] unfolding data_inv_def by auto

lemma input_of_snoc: "None \<notin> set q \<Longrightarrow> input_of (q @ [Some t]) = input_of q @ t"
  by (simp add: input_of_append)

lemma input_of_ended: "None \<in> set q \<Longrightarrow> input_of (q @ r) = input_of q"
  by (simp add: input_of_append)

lemma writer_ok_step:
  assumes w: "writer_ok (wx_writer x) x" and s: "writer_step x = Some y" and c: "wx_text_closed x \<longrightarrow> wx_reader x = RDone"
  shows "writer_ok (wx_writer y) y"
proof (cases "wx_writer x")
  case WRecv
  then show ?thesis
  proof (cases "wx_text x")
    case Nil
    then show ?thesis using w s WRecv by (auto simp: writer_step_def ended_def split: if_splits)
  next
    case (Cons m ms)
    then show ?thesis using w s WRecv
      by (cases m) (auto simp: writer_step_def ended_def input_of_snoc input_of_append)
  qed
next
  case (WWrite t)
  have "write_begin t (wx_pipe x) = Some (WriteBlocks, wx_pipe x\<lparr>p_pend := Some (0, t, False)\<rparr>)"
    using w WWrite by (simp add: write_begin_def pipe_open_def)
  then show ?thesis using w s WWrite by (auto simp: writer_step_def pending_bytes_def pipe_open_pend)
next
  case WWriting
  obtain r p where e: "write_end (wx_pipe x) = (r, p)" by force
  then obtain n er where r: "r = WriteDone n er" "y = x\<lparr>wx_pipe := p, wx_writer := WRecv\<rparr>"
    using s WWriting by (auto simp: writer_step_def split: write_result.splits)
  have "same_ends (wx_pipe x) p" "pending_bytes (wx_pipe x) = []" "p_pend p = None"
    using e r w WWriting write_end_done [of "wx_pipe x" n er p]
    by (auto simp: write_end_def pipe_open_def split: option.splits if_splits)
  then show ?thesis using w WWriting r pipe_open_same by auto
next
  case WDrain
  then show ?thesis
  proof (cases "wx_text x")
    case Nil
    then show ?thesis using w s WDrain by (auto simp: writer_step_def ended_def split: if_splits)
  next
    case (Cons m ms)
    then have "None \<in> set (wx_taken x)" using w WDrain by (auto simp: ended_def)
    then show ?thesis using w s WDrain Cons by (auto simp: writer_step_def ended_def input_of_ended)
  qed
next
  case WClose
  then show ?thesis using w s by (auto simp: writer_step_def ended_def close_write_eof)
qed (use w s in \<open>simp_all add: writer_step_def\<close>)

lemma input_of_mono: "prefix (input_of q) (input_of (q @ r))"
  by (simp add: input_of_append)

lemma writer_taken: "writer_step x = Some y \<Longrightarrow> \<exists>r. wx_taken y = wx_taken x @ r"
  by (cases "wx_writer x"; cases "wx_text x")
    (auto simp: writer_step_def split: if_splits option.splits prod.splits write_result.splits)

lemma data_inv_writer:
  assumes d: "data_inv x" and c: "wx_text_closed x \<longrightarrow> wx_reader x = RDone" and s: "writer_step x = Some y"
  shows "data_inv y"
proof -
  note f = writer_step_fields [OF s]
  obtain r where r: "wx_taken y = wx_taken x @ r" using writer_taken [OF s] by blast
  have "prefix (wx_read x) (input_of (wx_taken y))"
    using d input_of_mono [of "wx_taken x" r] r unfolding data_inv_def by (auto intro: prefix_order.trans)
  moreover have "in_do (wx_main x) \<Longrightarrow> writer_ok (wx_writer y) y"
    using d by (intro writer_ok_step [OF _ s c]) (simp add: data_inv_def)
  ultimately show ?thesis using f by (simp add: data_inv_def)
qed

lemma writer_ok_read:
  assumes w: "writer_ok (wx_writer x) x" and r: "pipe_read k (wx_pipe x) = (ReadData d, p)"
  shows "writer_ok (wx_writer x) (x\<lparr>wx_pipe := p, wx_read := wx_read x @ d\<rparr>)"
proof -
  have n: "\<not> p_done (wx_pipe x)" and s: "same_ends (wx_pipe x) p" and b: "pending_bytes (wx_pipe x) = d @ pending_bytes p"
    using pipe_read_data [OF r] by auto
  have pend: "p_pend (wx_pipe x) \<noteq> None \<and> p_pend p \<noteq> None"
  proof (cases "p_pend (wx_pipe x)")
    case None
    then show ?thesis using r n by (simp add: pipe_read_def)
  next
    case (Some w)
    then obtain a q o' where "p_pend (wx_pipe x) = Some (a, q, o')" by (cases w) auto
    then have "p = wx_pipe x\<lparr>p_pend := Some (a + length (take k q), drop k q, True)\<rparr>"
      using r n by (simp add: pipe_read_def split: if_splits)
    then show ?thesis using Some by simp
  qed
  show ?thesis
    using w n s b pend pipe_open_same [of "wx_pipe x" p]
    by (cases "wx_writer x") (auto simp: ends_in_eof_def)
qed

lemma data_inv_read:
  assumes d: "data_inv x" and i: "in_do (wx_main x)" and s: "do_read k x = Some y"
  shows "data_inv y"
proof (cases "pipe_read k (wx_pipe x)")
  case (Pair r p)
  have w: "writer_ok (wx_writer x) x" using d i by (simp add: data_inv_def)
  show ?thesis
  proof (cases r)
    case ReadBlocks
    then show ?thesis using s Pair by (simp add: do_read_def)
  next
    case (ReadData b)
    then have "writer_ok (wx_writer x) (x\<lparr>wx_pipe := p, wx_read := wx_read x @ b\<rparr>)"
      using w Pair by (intro writer_ok_read) simp_all
    then show ?thesis
      using s Pair ReadData d i writer_ok_prefix by (auto simp: do_read_def data_inv_def)
  next
    case (ReadErr err)
    then have "p = wx_pipe x" using Pair pipe_read_err [of k "wx_pipe x" err p] by simp
    then show ?thesis using s Pair ReadErr d by (intro data_inv_cong [OF d]) (auto simp: do_read_def ended_def)
  qed
qed

lemma data_inv_begin:
  assumes "data_inv x" "main_inv mj x" "wx_main x = MGet c"
  shows "data_inv (x\<lparr>wx_main := MDo c, wx_pipe := pipe_new, wx_writer := WRecv,
          wx_gets := Suc (wx_gets x), wx_dos := Suc (wx_dos x)\<rparr>)"
proof -
  have "wx_writer x = WNone" using assms(2,3) by (simp add: main_inv_def)
  then have "wx_read x = []" "wx_taken x = []" using assms(1,3) by (simp_all add: data_inv_def)
  then show ?thesis by (simp add: data_inv_def pipe_open_new) (simp add: pipe_new_def)
qed

text \<open>What \<open>main_step\<close> and the returns leave alone.\<close>

lemma serve_returns_fields [simp]:
  "wx_taken (serve_returns w r x) = wx_taken x" "wx_read (serve_returns w r x) = wx_read x"
  "wx_pipe (serve_returns w r x) = wx_pipe x" "wx_text (serve_returns w r x) = wx_text x"
  "wx_text_closed (serve_returns w r x) = wx_text_closed x" "wx_writer (serve_returns w r x) = wx_writer x"
  "in_do (wx_main (serve_returns w r x)) = False"
  by (simp_all add: serve_returns_def)

text \<open>Outside \<open>Do\<close> only what was read and taken matters.\<close>

lemma data_inv_out:
  assumes "data_inv x" "wx_taken y = wx_taken x" "wx_read y = wx_read x" "wx_writer y = wx_writer x"
    "\<not> in_do (wx_main y)" "wx_writer x = WNone \<Longrightarrow> \<not> in_do (wx_main x)"
  shows "data_inv y"
  using assms unfolding data_inv_def by auto

lemma data_writer: "data_inv x \<Longrightarrow> in_do (wx_main x) \<Longrightarrow> wx_writer x \<noteq> WNone"
  by (auto simp: data_inv_def)

lemma main_step_fields:
  assumes "main_step mj x = Some y"
  shows "wx_taken y = wx_taken x \<and> wx_read y = wx_read x \<and> wx_writer y = wx_writer x \<and> \<not> in_do (wx_main x) \<and> \<not> in_do (wx_main y)"
  using assms by (cases "wx_main x") (auto simp: main_step_def split: if_splits)

lemma main_call_fields:
  assumes "main_call x = Some y"
  shows "wx_taken y = wx_taken x \<and> wx_read y = wx_read x \<and> wx_writer y = wx_writer x \<and> \<not> in_do (wx_main x) \<and> \<not> in_do (wx_main y)"
  using assms by (cases "wx_main x"; cases "wx_init x"; cases "wx_init_closed x") (auto simp: main_call_def Let_def split: option.splits)

lemma data_inv_event:
  assumes "data_inv x" "main_inv mj x" "follows x" "ws_step mj e x = Some y"
  shows "data_inv y"
proof (cases e)
  case (WsMsg m)
  then show ?thesis
    using assms reader_recv_fields [of m x] by (intro data_inv_cong [OF assms(1)]) (auto simp: ended_def split: if_splits)
next
  case (WsConnDone c)
  then show ?thesis using assms by (intro data_inv_cong [OF assms(1)]) (auto simp: ended_def split: if_splits)
next
  case WsPropagate
  then show ?thesis using assms by (intro data_inv_cong [OF assms(1)]) (auto simp: ended_def split: option.splits)
next
  case WsGone
  then show ?thesis using assms by (intro data_inv_cong [OF assms(1)]) (auto simp: ended_def reader_gone_def split: if_splits)
next
  case WsReader
  then have s: "reader_step x = Some y" using assms(4) by simp
  have "wx_text_closed x \<longleftrightarrow> wx_reader x = RDone" using assms(3) by (simp add: follows_def close_ok_def)
  then have "ended x \<Longrightarrow> ended y" using s
    by (cases "wx_reader x") (auto simp: ended_def reader_step_def split: if_splits)
  then show ?thesis using reader_step_fields [OF s] by (intro data_inv_cong [OF assms(1)]) auto
next
  case WsWriter
  moreover have "wx_text_closed x \<longrightarrow> wx_reader x = RDone" using assms(3) by (simp add: follows_def close_ok_def)
  ultimately show ?thesis using assms data_inv_writer by auto
next
  case WsMain
  then show ?thesis using assms(1,4) main_step_fields [of mj x y] by (intro data_inv_out [OF assms(1)]) auto
next
  case WsCall
  then show ?thesis using assms(1,4) main_call_fields [of x y] by (intro data_inv_out [OF assms(1)]) auto
next
  case WsTimeout
  then show ?thesis using assms(4) by (intro data_inv_out [OF assms(1)]) (auto simp: main_timeout_def split: if_splits)
next
  case WsGetOk
  then show ?thesis using assms(4) data_inv_begin [OF assms(1,2)] by (cases "wx_main x") auto
next
  case (WsGetErr err)
  then show ?thesis using assms(4) by (cases "wx_main x") (auto intro: data_inv_out [OF assms(1)])
next
  case (WsPanic p)
  then show ?thesis using assms(4) data_writer [OF assms(1)]
    by (cases "wx_main x") (auto intro: data_inv_out [OF assms(1)])
next
  case (WsDoRead k)
  then show ?thesis using assms data_inv_read by (auto split: if_splits)
next
  case (WsDoWrite d ok)
  then show ?thesis using assms(4) by (intro data_inv_cong [OF assms(1)]) (auto simp: ended_def split: if_splits)
next
  case (WsDoReturn v err)
  then show ?thesis using assms(4) data_writer [OF assms(1)]
    by (intro data_inv_out [OF assms(1)]) (auto split: if_splits)
next
  case (WsWriteResult ok)
  then show ?thesis using assms(4)
    by (cases "wx_main x") (auto intro: data_inv_out [OF assms(1)] split: if_splits)
qed

section \<open>The end of a connection\<close>

text \<open>
  When the writer has finished, the channel is closed and empty; when \<open>serve\<close> has returned, both
  other goroutines have; and once the deferred close ran, the pipe is closed.
\<close>

fun pipe_owned :: "'v main_pc \<Rightarrow> bool" where
  "pipe_owned MCall = True"
| "pipe_owned (MGet c) = True"
| "pipe_owned (MDo c) = True"
| "pipe_owned (MCloseWriter r) = True"
| "pipe_owned _ = False"

definition end_inv :: "'v ws_state \<Rightarrow> bool" where
  "end_inv x \<longleftrightarrow>
     (wx_writer x = WDone \<longrightarrow> wx_text_closed x \<and> wx_text x = []) \<and>
     (wx_main x = MReturned \<longrightarrow> wx_reader x = RDone \<and> wx_writer x \<in> {WNone, WDone}) \<and>
     (\<not> pipe_owned (wx_main x) \<and> wx_writer x \<noteq> WNone \<longrightarrow> p_done (wx_pipe x)) \<and>
     (wx_writer x = WWriting \<longrightarrow> p_pend (wx_pipe x) \<noteq> None)"

lemma end_inv_cong:
  assumes "end_inv x" "wx_writer y = wx_writer x" "wx_text_closed y = wx_text_closed x" "wx_text y = wx_text x"
    "wx_main y = MReturned \<Longrightarrow> wx_main x = MReturned" "wx_reader y = wx_reader x \<or> wx_reader x \<noteq> RDone"
    "wx_writer x \<noteq> WNone \<Longrightarrow> pipe_owned (wx_main y) = pipe_owned (wx_main x)" "p_done (wx_pipe y) = p_done (wx_pipe x)"
    "p_pend (wx_pipe x) \<noteq> None \<Longrightarrow> p_pend (wx_pipe y) \<noteq> None"
  shows "end_inv y"
  using assms unfolding end_inv_def by auto

lemma writer_step_pipe: "writer_step x = Some y \<Longrightarrow> p_done (wx_pipe x) \<Longrightarrow> p_done (wx_pipe y)"
  by (cases "wx_writer x"; cases "wx_text x")
    (auto simp: writer_step_def write_end_def split: if_splits option.splits prod.splits write_result.splits)

lemma writer_step_done: "writer_step x = Some y \<Longrightarrow> wx_writer y = WDone \<Longrightarrow> wx_text_closed y \<and> wx_text y = []"
  by (cases "wx_writer x"; cases "wx_text x")
    (auto simp: writer_step_def split: if_splits option.splits prod.splits write_result.splits)

lemma writer_step_pend: "writer_step x = Some y \<Longrightarrow> wx_writer y = WWriting \<Longrightarrow> p_pend (wx_pipe y) \<noteq> None"
  by (cases "wx_writer x"; cases "wx_text x")
    (auto simp: writer_step_def write_begin_def split: if_splits option.splits prod.splits write_result.splits)

lemma end_inv_writer: "end_inv x \<Longrightarrow> writer_step x = Some y \<Longrightarrow> end_inv y"
  using writer_step_fields [of x y] writer_step_pipe [of x y] writer_step_done [of x y] writer_step_pend [of x y]
  by (auto simp: end_inv_def)

lemma pipe_read_pend: "p_pend p \<noteq> None \<Longrightarrow> p_pend (snd (pipe_read k p)) \<noteq> None"
  by (auto simp: pipe_read_def ex_bool_eq split: option.splits)

lemma do_read_pipe: "do_read k x = Some y \<Longrightarrow> p_done (wx_pipe y) = p_done (wx_pipe x) \<and>
    (p_pend (wx_pipe x) \<noteq> None \<longrightarrow> p_pend (wx_pipe y) \<noteq> None)"
  using same_ends_read [of "wx_pipe x" k] pipe_read_pend [of "wx_pipe x" k]
  by (auto simp: do_read_def same_ends_def split: prod.splits read_result.splits)

lemma end_inv_step:
  assumes "end_inv x" "main_inv mj x" "follows x" "ws_step mj e x = Some y"
  shows "end_inv y"
proof (cases e)
  case (WsMsg m)
  then show ?thesis
    using assms reader_recv_fields [of m x] by (intro end_inv_cong [OF assms(1)]) (auto split: if_splits)
next
  case (WsConnDone c)
  then show ?thesis using assms by (intro end_inv_cong [OF assms(1)]) (auto split: if_splits)
next
  case WsPropagate
  then show ?thesis using assms by (intro end_inv_cong [OF assms(1)]) (auto split: option.splits)
next
  case WsGone
  then show ?thesis using assms by (intro end_inv_cong [OF assms(1)]) (auto simp: reader_gone_def split: if_splits)
next
  case WsReader
  then have s: "reader_step x = Some y" using assms(4) by simp
  have "wx_text_closed x \<longleftrightarrow> wx_reader x = RDone" using assms(3) by (simp add: follows_def close_ok_def)
  then show ?thesis using reader_step_fields [OF s] assms(1) by (auto simp: end_inv_def)
next
  case WsWriter
  then show ?thesis using assms end_inv_writer by auto
next
  case WsMain
  then show ?thesis using assms(1,4)
    by (cases "wx_main x") (auto simp: main_step_def end_inv_def split: if_splits)
next
  case WsCall
  then show ?thesis using assms(1,2,4)
    by (cases "wx_main x"; cases "wx_init x"; cases "wx_init_closed x")
      (auto simp: main_call_def serve_returns_def main_inv_def end_inv_def Let_def split: option.splits)
next
  case WsTimeout
  then show ?thesis using assms(1,2,4)
    by (cases "wx_main x") (auto simp: main_timeout_def serve_returns_def main_inv_def end_inv_def)
next
  case WsGetOk
  then show ?thesis using assms(1,4) by (cases "wx_main x") (auto simp: end_inv_def)
next
  case (WsGetErr err)
  then show ?thesis using assms(1,2,4) by (cases "wx_main x") (auto simp: serve_returns_def main_inv_def end_inv_def)
next
  case (WsPanic p)
  then show ?thesis using assms(1,2,4) by (cases "wx_main x") (auto simp: serve_returns_def main_inv_def end_inv_def)
next
  case (WsDoRead k)
  then have s: "do_read k x = Some y" using assms(4) by (auto split: if_splits)
  then show ?thesis using do_read_pipe [OF s]
    by (intro end_inv_cong [OF assms(1)]) (auto simp: do_read_def split: prod.splits read_result.splits)
next
  case (WsDoWrite d ok)
  then show ?thesis using assms(4) by (intro end_inv_cong [OF assms(1)]) (auto split: if_splits)
next
  case (WsDoReturn v err)
  then show ?thesis using assms(1,4) by (cases "wx_main x") (auto simp: serve_returns_def end_inv_def)
next
  case (WsWriteResult ok)
  then show ?thesis using assms(1,4) by (cases "wx_main x") (auto simp: end_inv_def split: if_splits)
qed

section \<open>The invariant of a connection\<close>

definition ws_inv :: "('v \<Rightarrow> marshalled) \<Rightarrow> 'v ws_state \<Rightarrow> bool" where
  "ws_inv mj x \<longleftrightarrow> follows x \<and> main_inv mj x \<and> data_inv x \<and> end_inv x"

text \<open>What only grows.\<close>

definition ws_grows :: "'v ws_state \<Rightarrow> 'v ws_state \<Rightarrow> bool" where
  "ws_grows x y \<longleftrightarrow> prefix (wx_msgs x) (wx_msgs y) \<and> prefix (wx_sent x) (wx_sent y) \<and>
     (wx_conn x \<noteq> None \<longrightarrow> wx_conn y = wx_conn x) \<and> (wx_ctx x \<noteq> None \<longrightarrow> wx_ctx y = wx_ctx x)"

lemma ws_grows_cong: "wx_msgs y = wx_msgs x \<Longrightarrow> wx_sent y = wx_sent x \<Longrightarrow> wx_conn y = wx_conn x \<Longrightarrow>
    wx_ctx y = wx_ctx x \<Longrightarrow> ws_grows x y"
  by (simp add: ws_grows_def)

lemma cancel_with_Some: "c \<noteq> None \<Longrightarrow> cancel_with e c = c"
  by auto

lemma reader_recv_grows: "ws_grows x (reader_recv m x)"
  by (auto simp: ws_grows_def reader_recv_def reader_signal_def Let_def split: ws_msg.split option.split)

lemma ws_grows_step: "ws_step mj e x = Some y \<Longrightarrow> ws_grows x y"
proof (cases e)
  case (WsMsg m)
  then show "ws_step mj e x = Some y \<Longrightarrow> ?thesis" using reader_recv_grows by (auto split: if_splits)
next
  case WsReader
  then show "ws_step mj e x = Some y \<Longrightarrow> ?thesis" using reader_step_fields [of x y] by (intro ws_grows_cong) simp_all
next
  case WsWriter
  then show "ws_step mj e x = Some y \<Longrightarrow> ?thesis" using writer_step_fields [of x y] by (intro ws_grows_cong) simp_all
next
  case WsCall
  then show "ws_step mj e x = Some y \<Longrightarrow> ?thesis"
    by (cases "wx_main x"; cases "wx_init x"; cases "wx_init_closed x")
      (auto simp: main_call_def serve_returns_def Let_def intro!: ws_grows_cong split: option.splits)
qed (auto simp: ws_grows_def reader_gone_def main_step_def main_timeout_def serve_returns_def do_read_def
    split: if_splits option.splits main_pc.splits prod.splits read_result.splits)

lemma ws_begin_inv:
  assumes "ws_start x"
  shows "ws_inv mj x"
proof -
  have x: "x = \<lparr>wx_conn = None, wx_sent = [], wx_text = [], wx_text_closed = False, wx_init = [],
        wx_init_closed = False, wx_ctx = None, wx_reader = RSelect, wx_had_init = False,
        wx_had_cancel = False, wx_main = MCall, wx_writer = WNone, wx_pipe = pipe_new, wx_msgs = [],
        wx_taken = [], wx_read = [], wx_result = None, wx_gets = 0, wx_dos = 0\<rparr>"
    using assms by (simp add: ws_start_def ws_begin_def)
  have "follows x"
    by (simp add: x follows_def queue_ok_def pending_send_def init_ok_def sending_init_def ctx_ok_def spec_none_def)
  then show ?thesis by (simp add: ws_inv_def x main_inv_def data_inv_def end_inv_def)
qed

interpretation ws: monotone_system ws_start "ws_step mj" "ws_inv mj" ws_grows for mj :: "'v \<Rightarrow> marshalled"
proof unfold_locales
  show "ws_start x \<Longrightarrow> ws_inv mj x" for x :: "'v ws_state" by (rule ws_begin_inv)
  show "ws_inv mj y" if "ws_inv mj x" "ws_step mj e x = Some y" for x y e
    using that follows_step main_inv_step data_inv_event end_inv_step unfolding ws_inv_def by blast
  show "ws_grows x x" for x :: "'v ws_state" by (simp add: ws_grows_def)
  show "ws_grows x z" if "ws_grows x y" "ws_grows y z" for x y z :: "'v ws_state"
    using that unfolding ws_grows_def by (auto intro: prefix_order.trans)
  show "ws_inv mj x \<Longrightarrow> ws_step mj e x = Some y \<Longrightarrow> ws_grows x y" for x y e by (rule ws_grows_step)
qed

section \<open>Consequences\<close>

text \<open>What was taken from the channel, which errors cancel, and what a failed read means.\<close>

abbreviation ws_queue :: "'v ws_state \<Rightarrow> bytes option list" where
  "ws_queue x \<equiv> sp_queue (wx_spec x)"

lemma sp_cancels_known: "set (sp_cancels (client_means ms)) \<subseteq> {ErrCancelClientRequest, ErrCancelProtocolError}"
proof -
  have "set (sp_cancels (spec_signal b s)) \<subseteq> insert ErrCancelClientRequest (insert ErrCancelProtocolError (set (sp_cancels s)))" for b s
    by (auto simp: spec_signal_def split: option.splits if_splits)
  then have m: "set (sp_cancels (spec_msg m s)) \<subseteq> insert ErrCancelClientRequest (insert ErrCancelProtocolError (set (sp_cancels s)))" for m s
    by (simp add: spec_msg_def subset_insertI2 split: ws_msg.split option.split)
  show ?thesis
  proof (induction ms rule: rev_induct)
    case (snoc n ns)
    then show ?case using m [of n "client_means ns"] by auto
  qed (simp add: spec_none_def)
qed

lemma taken_prefix: "follows x \<Longrightarrow> \<exists>q. sp_queue (wx_spec x) = wx_taken x @ q"
  by (rule exI [of _ "wx_text x @ pending_send (wx_reader x)"]) (simp add: follows_def queue_ok_def)

lemma read_error:
  assumes "ws_inv mj x" and "wx_main x = MDo c" and "fst (pipe_read k (wx_pipe x)) = ReadErr e"
  shows "e = io_EOF \<and> wx_read x = input_of (ws_queue x) \<and> (None \<in> set (ws_queue x) \<or> wx_reader x = RDone)"
proof -
  obtain p where p: "pipe_read k (wx_pipe x) = (ReadErr e, p)" using assms(3) by (cases "pipe_read k (wx_pipe x)") auto
  then have d: "p_done (wx_pipe x)" "e = read_close_error (wx_pipe x)" using pipe_read_err by blast+
  have w: "writer_ok (wx_writer x) x" using assms(1,2) by (simp add: ws_inv_def data_inv_def)
  then have e: "ends_in_eof (wx_pipe x)" "ended x" "wx_read x = input_of (wx_taken x)"
    using d(1) by (cases "wx_writer x"; simp add: pipe_open_def)+
  have q: "queue_ok (ws_queue x) (wx_taken x) (wx_text x) (wx_reader x)"
    and c: "close_ok (wx_reader x) (wx_text_closed x) (wx_init_closed x) (wx_conn x)"
    using assms(1) by (simp_all add: ws_inv_def follows_def)
  have "e = io_EOF" using e(1) d(2) by (simp add: ends_in_eof_def read_close_error_def)
  moreover have "input_of (ws_queue x) = input_of (wx_taken x) \<and> (None \<in> set (ws_queue x) \<or> wx_reader x = RDone)"
  proof (cases "None \<in> set (wx_taken x)")
    case True
    moreover obtain r where "ws_queue x = wx_taken x @ r"
      using assms(1) taken_prefix by (auto simp: ws_inv_def)
    ultimately show ?thesis by (simp add: input_of_ended)
  next
    case False
    then have "wx_text_closed x" "wx_text x = []" using e(2) by (simp_all add: ended_def)
    moreover have "wx_reader x = RDone" using c calculation(1) unfolding close_ok_def by blast
    ultimately have "ws_queue x = wx_taken x" using q by (simp add: queue_ok_def pending_send_def)
    then show ?thesis using \<open>wx_reader x = RDone\<close> by simp
  qed
  ultimately show ?thesis using e(3) by simp
qed

end
