(* ===== verification/WsProps.thy ===== *)
theory WsProps
  imports WsInv
begin

text \<open>
  Properties of a websocket connection, each with a concrete run of the three goroutines that
  satisfies its hypotheses.
\<close>

section \<open>Runs of a connection\<close>

definition demo_mj :: "bytes \<Rightarrow> marshalled" where
  "demo_mj v = MBytes (dquote # v @ [dquote])"

definition demo_call :: ws_msg where
  \<open>demo_call = WsBinary ''{"call":"echo","params":["a"]}''\<close>

definition demo_cancel :: ws_msg where
  \<open>demo_cancel = WsBinary ''{"signal":"cancel"}''\<close>

definition demo_close :: ws_msg where
  \<open>demo_close = WsBinary ''{"signal":"close"}''\<close>

definition ws_run :: "bytes ws_event list \<Rightarrow> bytes ws_state option" where
  "ws_run es = (case ws_begin Subprotocol of None \<Rightarrow> None | Some x \<Rightarrow> run_events (ws_step demo_mj) es x)"

lemma ws_run_reachable: "ws_run es = Some x \<Longrightarrow> ws_reachable demo_mj x"
  by (auto simp: ws_run_def ws_start_def intro: run_from_start_reachable split: option.splits)

text \<open>A run of the whole protocol: input, the end of the input, output, and the result.\<close>

definition demo_begin :: "bytes ws_event list" where
  "demo_begin = [WsMsg demo_call, WsReader, WsCall, WsGetOk]"

definition demo_whole :: "bytes ws_event list" where
  "demo_whole = demo_begin @ [WsMsg (WsText (Some ''in'')), WsReader, WsWriter, WsWriter, WsDoRead 1,
     WsDoWrite ''out'' True, WsDoRead 4, WsWriter, WsMsg demo_close, WsReader, WsWriter, WsWriter,
     WsDoRead 4, WsDoReturn (Some ''v'') None, WsMain, WsMain, WsMain, WsWriteResult True, WsMain]"

lemma demo_whole_ok: "case ws_run demo_whole of None \<Rightarrow> False
    | Some x \<Rightarrow> wx_read x = ''in'' \<and> wx_main x = MWait \<and> wx_sent x \<noteq> [] \<and> last (wx_sent x) = FClose"
  by code_simp

lemma demo_begin_ok: "case ws_run demo_begin of None \<Rightarrow> False
    | Some x \<Rightarrow> wx_main x = MDo \<lparr>cm_call = ''echo'', cm_params = [''a'']\<rparr> \<and> wx_conn x = None"
  by code_simp

lemma ws_run_cases:
  assumes "case ws_run es of None \<Rightarrow> False | Some x \<Rightarrow> P x"
  obtains x where "ws_run es = Some x" "ws_reachable demo_mj x" "P x"
  using assms by (auto dest: ws_run_reachable split: option.splits)

section \<open>The result\<close>

text \<open>
  Property C27. Whatever the client, the process and the network do, what a connection sends is
  the output of the process, then at most one binary message, the encoding of the one result of
  \<open>serve\<close>, then at most a close frame; nothing follows. \<open>Get\<close> and \<open>Do\<close> are each called at most
  once, and no result is sent before \<open>serve\<close> has one.
\<close>

theorem ws_result_once:
  assumes "ws_reachable mj x"
  shows "wx_gets x \<le> 1 \<and> wx_dos x \<le> wx_gets x \<and>
    (\<exists>ts tail. wx_sent x = map FText ts @ tail \<and>
      (tail = [] \<or> (\<exists>r. wx_result x = Some r \<and>
         (tail = [FBinary (Result_MarshalJSON mj (Some r))] \<or>
          tail = [FBinary (Result_MarshalJSON mj (Some r)), FClose]))))"
proof -
  have "texts fs \<Longrightarrow> \<exists>ts. fs = map FText ts" for fs
    by (induction fs) (auto simp: texts_def Cons_eq_map_conv)
  then have w: "sent_with tail fs \<Longrightarrow> \<exists>ts. fs = map FText ts @ tail" for tail fs
    by (auto simp: sent_with_def)
  have "main_ok mj (wx_main x) x" using ws.reachable_inv [OF assms] by (simp add: ws_inv_def main_inv_def)
  then show ?thesis
    by (cases "wx_main x") (auto simp: result_sent_def dest!: w)
qed

theorem ws_result_once_witness:
  "\<exists>x r. ws_run demo_whole = Some x \<and> wx_gets x \<le> 1 \<and> wx_result x = Some r \<and>
     (\<exists>ts. wx_sent x = map FText ts @ [FBinary (Result_MarshalJSON demo_mj (Some r)), FClose])"
  using demo_whole_ok
proof (cases rule: ws_run_cases)
  case (1 x)
  have "map FText ts \<noteq> [] \<Longrightarrow> last (map FText ts) \<noteq> FClose" for ts by (simp add: last_map)
  with 1 ws_result_once [OF 1(2)] show ?thesis by fastforce
qed

text \<open>
  Property C28. The arguments of \<open>Get\<close> and \<open>Do\<close> are the call decoded from the first binary
  message the client sent, whatever it sent before and after.
\<close>

theorem ws_call_first_binary:
  assumes "ws_reachable mj x" and "wx_main x = MGet c \<or> wx_main x = MDo c"
  shows "\<exists>before b after. wx_msgs x = before @ WsBinary b # after \<and>
    list_all (\<lambda>m. \<nexists>d. m = WsBinary d) before \<and> unmarshal_call b = Some c"
proof -
  have first: "sp_init (client_means ms) = Some b \<Longrightarrow>
      \<exists>before after. ms = before @ WsBinary b # after \<and> list_all (\<lambda>m. \<nexists>d. m = WsBinary d) before" for ms b
  proof (induction ms rule: rev_induct)
    case (snoc m ms)
    show ?case
    proof (cases "sp_init (client_means ms)")
      case None
      then have "list_all (\<lambda>m. \<nexists>d. m = WsBinary d) ms"
      proof (induction ms rule: rev_induct)
        case (snoc n ns)
        then show ?case using spec_msg_init by (cases "sp_init (client_means ns)"; cases n) (auto simp: spec_msg_def)
      qed simp
      then show ?thesis using snoc.prems None by (cases m) (auto simp: spec_msg_def)
    next
      case (Some d)
      then have "sp_init (spec_msg m (client_means ms)) = Some d" by (rule spec_msg_init)
      then have "d = b" using snoc.prems by simp
      with Some snoc.IH obtain u v where "ms = u @ WsBinary b # v" "list_all (\<lambda>m. \<nexists>d. m = WsBinary d) u" by blast
      then show ?thesis by (intro exI [of _ u] exI [of _ "v @ [m]"]) simp
    qed
  qed (simp add: spec_none_def)
  have "init_ok (wx_reader x) (wx_had_init x) (wx_init x) (sp_init (wx_spec x)) (main_call_of (wx_main x))"
    using ws.reachable_inv [OF assms(1)] by (simp add: ws_inv_def follows_def)
  moreover have "main_call_of (wx_main x) = Some c" using assms(2) by auto
  ultimately obtain b where "sp_init (wx_spec x) = Some b" "unmarshal_call b = Some c"
    by (auto simp: init_ok_def)
  then show ?thesis using first by blast
qed

theorem ws_call_first_binary_witness:
  "\<exists>x. ws_run demo_begin = Some x \<and> (\<exists>before b after. wx_msgs x = before @ WsBinary b # after \<and>
    unmarshal_call b = Some \<lparr>cm_call = ''echo'', cm_params = [''a'']\<rparr>)"
  using demo_begin_ok
proof (cases rule: ws_run_cases)
  case (1 x)
  have m: "wx_main x = MDo \<lparr>cm_call = ''echo'', cm_params = [''a'']\<rparr>" using 1(3) by simp
  show ?thesis using ws_call_first_binary [OF 1(2) disjI2 [OF m]] 1(1) by blast
qed

section \<open>The input\<close>

text \<open>
  Property C29. What the process has read is a prefix of the texts the client sent, in order, up
  to its first close signal (or second cancel signal).
\<close>

theorem ws_input_fifo:
  assumes "ws_reachable mj x"
  shows "prefix (wx_read x) (input_of (sp_queue (client_means (wx_msgs x))))"
proof -
  note i = ws.reachable_inv [OF assms]
  obtain q where q: "sp_queue (wx_spec x) = wx_taken x @ q" using i taken_prefix by (auto simp: ws_inv_def)
  have "prefix (wx_read x) (input_of (wx_taken x))" using i by (simp add: ws_inv_def data_inv_def)
  then show ?thesis using input_of_mono [of "wx_taken x" q] q by (auto intro: prefix_order.trans)
qed

theorem ws_input_fifo_witness:
  "\<exists>x. ws_run demo_whole = Some x \<and> wx_read x = ''in'' \<and>
     prefix (wx_read x) (input_of (sp_queue (client_means (wx_msgs x))))"
  using demo_whole_ok
proof (cases rule: ws_run_cases)
  case (1 x)
  then show ?thesis using ws_input_fifo [OF 1(2)] by auto
qed

text \<open>
  Property C30. A read of the process fails only with \<open>io.EOF\<close>, and only after the process has
  read all the texts the client sent before its end mark, without loss; the input ends only by
  such a mark or with the connection.
\<close>

theorem ws_input_eof:
  assumes "ws_reachable mj x" and "wx_main x = MDo c" and "fst (pipe_read k (wx_pipe x)) = ReadErr e"
  shows "e = io_EOF \<and> wx_read x = input_of (sp_queue (client_means (wx_msgs x))) \<and>
    (None \<in> set (sp_queue (client_means (wx_msgs x))) \<or> wx_conn x \<noteq> None)"
proof -
  note i = ws.reachable_inv [OF assms(1)]
  have "wx_reader x = RDone \<longrightarrow> wx_conn x \<noteq> None" using i by (simp add: ws_inv_def follows_def close_ok_def)
  then show ?thesis using read_error [OF i assms(2,3)] by auto
qed

definition demo_eof :: "bytes ws_event list" where
  "demo_eof = demo_begin @ [WsMsg (WsText (Some ''in'')), WsReader, WsMsg demo_close, WsReader,
     WsWriter, WsWriter, WsDoRead 4, WsWriter, WsWriter, WsWriter]"

theorem ws_input_eof_witness:
  "\<exists>x. ws_run demo_eof = Some x \<and> wx_read x = input_of (sp_queue (client_means (wx_msgs x))) \<and> wx_read x = ''in''"
proof -
  have "case ws_run demo_eof of None \<Rightarrow> False
    | Some x \<Rightarrow> wx_main x = MDo \<lparr>cm_call = ''echo'', cm_params = [''a'']\<rparr> \<and>
        fst (pipe_read 4 (wx_pipe x)) = ReadErr io_EOF \<and> wx_read x = ''in''"
    by code_simp
  then show ?thesis
  proof (cases rule: ws_run_cases)
    case (1 x)
    then show ?thesis using ws_input_eof [OF 1(2), of "\<lparr>cm_call = ''echo'', cm_params = [''a'']\<rparr>" 4 io_EOF] by auto
  qed
qed

section \<open>Cancellation\<close>

text \<open>
  Property C31. As long as the connection lives and \<open>serve\<close> has not finished, the context of the
  process is cancelled exactly as the received messages say: live until the first \<open>cancel\<close>
  signal or malformed control message, then cancelled for good with that message's cause.
\<close>

theorem ws_cancel_cause:
  assumes "ws_reachable mj x" and "wx_conn x = None" and "main_live (wx_main x)"
  shows "wx_ctx x = first_cancel (sp_cancels (client_means (wx_msgs x)))"
  using ws.reachable_inv [OF assms(1)] assms(2,3) by (simp add: ws_inv_def follows_def ctx_ok_def)

theorem ws_cancel_cause_witness:
  "\<exists>x. ws_run (demo_begin @ [WsMsg demo_cancel, WsMsg (WsBinary ''junk'')]) = Some x \<and>
     wx_ctx x = first_cancel (sp_cancels (client_means (wx_msgs x))) \<and> wx_ctx x = Some ErrCancelClientRequest"
proof -
  have "case ws_run (demo_begin @ [WsMsg demo_cancel, WsMsg (WsBinary ''junk'')]) of None \<Rightarrow> False
    | Some x \<Rightarrow> main_live (wx_main x) \<and> wx_conn x = None \<and> wx_ctx x = Some ErrCancelClientRequest"
    by code_simp
  then show ?thesis
  proof (cases rule: ws_run_cases)
    case (1 x)
    then show ?thesis using ws_cancel_cause [OF 1(2)] by auto
  qed
qed

text \<open>
  Property C32. The context of a process is only ever cancelled with one of the documented causes
  (client request, protocol error, client gone, handler return) or with the cause the connection's
  own context ended with.
\<close>

theorem ws_causes:
  assumes "ws_reachable mj x" and "wx_ctx x = Some e"
  shows "e \<in> {ErrCancelClientRequest, ErrCancelProtocolError, ErrCancelClientGone, ErrCancelHandlerReturn} \<or>
    wx_conn x = Some e"
proof -
  have "ctx_ok (wx_conn x) (main_live (wx_main x)) (wx_ctx x) (sp_cancels (wx_spec x))"
    using ws.reachable_inv [OF assms(1)] by (simp add: ws_inv_def follows_def)
  then show ?thesis using assms(2) sp_cancels_known [of "wx_msgs x"] by (auto simp: ctx_ok_def)
qed

definition demo_lost :: "bytes ws_event list" where
  "demo_lost = demo_begin @ [WsConnDone (Foreign ''gone''), WsGone]"

theorem ws_causes_witness:
  "\<exists>x e. ws_run demo_lost = Some x \<and> wx_ctx x = Some e \<and>
     (e \<in> {ErrCancelClientRequest, ErrCancelProtocolError, ErrCancelClientGone, ErrCancelHandlerReturn} \<or> wx_conn x = Some e)"
proof -
  have "case ws_run demo_lost of None \<Rightarrow> False | Some x \<Rightarrow> wx_ctx x = Some ErrCancelClientGone" by code_simp
  then show ?thesis
  proof (cases rule: ws_run_cases)
    case (1 x)
    then show ?thesis using ws_causes [OF 1(2,3)] by blast
  qed
qed

section \<open>Back pressure\<close>

text \<open>The buffer is full, the reader waits to add to it, and nobody takes from it.\<close>

definition abandoned :: "'v ws_state \<Rightarrow> bool" where
  "abandoned x \<longleftrightarrow> wx_main x = MWait \<and> wx_writer x = WNone \<and> length (wx_text x) = messageBufferSize \<and>
     pending_send (wx_reader x) \<noteq> []"

lemma pending_send_RSend: "pending_send r \<noteq> [] \<longleftrightarrow> (\<exists>m. r = RSend m)"
  by (cases r) (auto simp: pending_send_def)

lemma abandoned_step: "abandoned x \<Longrightarrow> ws_step mj e x = Some y \<Longrightarrow> abandoned y"
  unfolding abandoned_def pending_send_RSend
  by (cases e) (auto simp: reader_gone_def reader_step_def writer_step_def main_step_def main_call_def main_timeout_def
      split: if_splits option.splits)

interpretation abandoned: invariant_system abandoned "ws_step mj" abandoned for mj :: "'v \<Rightarrow> marshalled"
  by unfold_locales (auto intro: abandoned_step)

text \<open>
  Property C33. When a connection ends without a process (no call in time, a malformed call, or
  \<open>Get\<close> failed) after more than \<open>messageBufferSize\<close> input messages, \<open>serve\<close> never returns: the
  reader waits for ever to send into the full channel, even when the client is gone, and
  \<open>wg.Wait\<close> waits for the reader.
\<close>

theorem ws_reader_leaks:
  assumes "ws_reachable mj x" and "wx_main x = MWait" and "wx_dos x = 0"
    and "messageBufferSize < length (sp_queue (client_means (wx_msgs x)))"
    and "run_events (ws_step mj) es x = Some y"
  shows "wx_main y = MWait \<and> wx_reader y \<noteq> RDone"
proof -
  note i = ws.reachable_inv [OF assms(1)]
  have w: "wx_writer x = WNone" using i assms(3) by (simp add: ws_inv_def main_inv_def)
  then have "wx_taken x = []" using i assms(2) by (simp add: ws_inv_def data_inv_def)
  then have q: "wx_text x @ pending_send (wx_reader x) = sp_queue (wx_spec x)" "length (wx_text x) \<le> messageBufferSize"
    using i by (simp_all add: ws_inv_def follows_def queue_ok_def)
  have "length (pending_send r) \<le> 1" for r by (cases r) (simp_all add: pending_send_def)
  from this [of "wx_reader x"] have "length (wx_text x) = messageBufferSize \<and> length (pending_send (wx_reader x)) = 1"
    using assms(4) q(2) by (simp flip: q(1))
  then have "length (wx_text x) = messageBufferSize" "pending_send (wx_reader x) \<noteq> []" by auto
  then have "abandoned y"
    using w assms(2) by (intro abandoned.run_inv [OF _ assms(5)]) (simp add: abandoned_def)
  then show ?thesis by (auto simp: abandoned_def pending_send_def)
qed

definition demo_leak :: "bytes ws_event list" where
  "demo_leak = concat (replicate 5 [WsMsg (WsText (Some ''x'')), WsReader]) @
     [WsMsg (WsText (Some ''x'')), WsTimeout, WsMain, WsMain, WsWriteResult True, WsMain]"

theorem ws_reader_leaks_witness:
  "\<exists>x y. ws_run demo_leak = Some x \<and> run_events (ws_step demo_mj) [WsConnDone (Foreign ''gone''), WsPropagate] x = Some y \<and>
     wx_main y = MWait \<and> wx_reader y \<noteq> RDone"
proof -
  have "case ws_run demo_leak of None \<Rightarrow> False
    | Some x \<Rightarrow> wx_main x = MWait \<and> wx_dos x = 0 \<and> messageBufferSize < length (sp_queue (client_means (wx_msgs x))) \<and>
        run_events (ws_step demo_mj) [WsConnDone (Foreign ''gone''), WsPropagate] x \<noteq> None"
    by code_simp
  then show ?thesis
  proof (cases rule: ws_run_cases)
    case (1 x)
    then obtain y where "run_events (ws_step demo_mj) [WsConnDone (Foreign ''gone''), WsPropagate] x = Some y" by auto
    then show ?thesis using 1 ws_reader_leaks [OF 1(2)] by blast
  qed
qed

text \<open>The events a process that neither reads nor returns leaves possible.\<close>

fun not_consuming :: "'v ws_event \<Rightarrow> bool" where
  "not_consuming (WsDoRead k) = False"
| "not_consuming (WsDoReturn v e) = False"
| "not_consuming (WsPanic p) = False"
| "not_consuming _ = True"

definition jammed :: "'v ws_state \<Rightarrow> bool" where
  "jammed x \<longleftrightarrow> in_do (wx_main x) \<and> wx_writer x = WWriting \<and> \<not> p_done (wx_pipe x) \<and> pending_bytes (wx_pipe x) \<noteq> [] \<and>
     length (wx_text x) = messageBufferSize \<and> pending_send (wx_reader x) \<noteq> []"

lemma jammed_write_end: "\<not> p_done p \<Longrightarrow> pending_bytes p \<noteq> [] \<Longrightarrow> write_end p = (WriteBlocks, p)"
  by (auto simp: write_end_def pending_bytes_def split: option.splits)

lemma jammed_step:
  assumes "jammed x" "not_consuming e" "ws_step mj e x = Some y"
  shows "jammed y \<and> wx_msgs y = wx_msgs x \<and> wx_reader y = wx_reader x \<and>
    (wx_conn y = None \<longrightarrow> wx_conn x = None \<and> wx_ctx y = wx_ctx x)"
proof -
  obtain c where c: "wx_main x = MDo c" using assms(1) by (cases "wx_main x") (auto simp: jammed_def)
  have "write_end (wx_pipe x) = (WriteBlocks, wx_pipe x)" using assms(1) by (simp add: jammed_def jammed_write_end)
  with assms c show ?thesis unfolding jammed_def pending_send_RSend
    by (cases e) (auto simp: reader_gone_def reader_step_def writer_step_def main_step_def main_call_def main_timeout_def
      split: if_splits option.splits)
qed

lemma run_conn: "run_events (ws_step mj) es x = Some y \<Longrightarrow> wx_conn y = None \<Longrightarrow> wx_conn x = None"
proof (induction es arbitrary: x)
  case (Cons e es)
  then obtain u where "ws_step mj e x = Some u" "run_events (ws_step mj) es u = Some y" by (auto split: option.splits)
  then show ?case using Cons ws_grows_step [of mj e x u] by (cases "wx_conn x") (auto simp: ws_grows_def)
qed simp

text \<open>
  Property C34. A client cannot cancel a process that does not read its input: once a write to the
  process waits, the channel is full and the reader waits, no further message is received, and as
  long as the connection lives the context stays as it is, whatever the client sends.
\<close>

theorem ws_cancel_not_received:
  assumes "ws_reachable mj x" and "wx_main x = MDo c" and "wx_writer x = WWriting"
    and "pending_bytes (wx_pipe x) \<noteq> []" and "length (wx_text x) = messageBufferSize" and "wx_reader x = RSend m"
    and "run_events (ws_step mj) es x = Some y" and "list_all not_consuming es"
  shows "wx_msgs y = wx_msgs x \<and> wx_reader y = RSend m \<and> (wx_conn y = None \<longrightarrow> wx_ctx y = wx_ctx x)"
proof -
  have "\<not> p_done (wx_pipe x)"
    using ws.reachable_inv [OF assms(1)] assms(2,3) by (simp add: ws_inv_def data_inv_def pipe_open_def)
  then have "jammed x" using assms by (simp add: jammed_def pending_send_def)
  then show ?thesis using assms(6-8)
  proof (induction es arbitrary: x)
    case (Cons e es)
    then obtain u where u: "ws_step mj e x = Some u" "run_events (ws_step mj) es u = Some y"
      by (auto split: option.splits)
    have "not_consuming e" using Cons.prems by simp
    note j = jammed_step [OF Cons.prems(1) this u(1)]
    then have "wx_msgs y = wx_msgs u \<and> wx_reader y = RSend m \<and> (wx_conn y = None \<longrightarrow> wx_ctx y = wx_ctx u)"
      using Cons.IH [of u] Cons.prems u by simp
    moreover have "wx_conn y = None \<Longrightarrow> wx_conn u = None" using run_conn [OF u(2)] by blast
    ultimately show ?case using j by auto
  qed simp
qed

definition demo_jam :: "bytes ws_event list" where
  "demo_jam = demo_begin @ [WsMsg (WsText (Some ''x'')), WsReader, WsWriter, WsWriter] @
     concat (replicate 5 [WsMsg (WsText (Some ''x'')), WsReader]) @ [WsMsg (WsText (Some ''x''))]"

theorem ws_cancel_not_received_witness:
  "\<exists>x y. ws_run demo_jam = Some x \<and> run_events (ws_step demo_mj) [WsDoWrite ''out'' True] x = Some y \<and>
     wx_msgs y = wx_msgs x \<and> (wx_conn y = None \<longrightarrow> wx_ctx y = wx_ctx x)"
proof -
  have "case ws_run demo_jam of None \<Rightarrow> False
    | Some x \<Rightarrow> wx_main x = MDo \<lparr>cm_call = ''echo'', cm_params = [''a'']\<rparr> \<and> wx_writer x = WWriting \<and>
        pending_bytes (wx_pipe x) \<noteq> [] \<and> length (wx_text x) = messageBufferSize \<and> wx_reader x = RSend (Some ''x'')"
    by code_simp
  then show ?thesis
  proof (cases rule: ws_run_cases)
    case (1 x)
    then obtain y where y: "run_events (ws_step demo_mj) [WsDoWrite ''out'' True] x = Some y" by auto
    have "list_all not_consuming [WsDoWrite ''out'' True :: bytes ws_event]" by simp
    then show ?thesis using 1 y ws_cancel_not_received [OF 1(2) _ _ _ _ _ y] by blast
  qed
qed

section \<open>Clean-up\<close>

text \<open>The steps that need no client and no process; the network may refuse the result.\<close>

fun housekeeping :: "'v ws_event \<Rightarrow> bool" where
  "housekeeping WsReader = True"
| "housekeeping WsWriter = True"
| "housekeeping WsGone = True"
| "housekeeping WsMain = True"
| "housekeeping (WsWriteResult ok) = (\<not> ok)"
| "housekeeping _ = False"

text \<open>What is left to do, and that some goroutine can do it.\<close>

fun main_left :: "'v main_pc \<Rightarrow> nat" where
  "main_left (MCloseWriter r) = 5"
| "main_left (MCancel r) = 4"
| "main_left (MMarshal r) = 3"
| "main_left (MWrite d) = 2"
| "main_left MShutdown = 2"
| "main_left MWait = 1"
| "main_left _ = 0"

fun reader_left :: "reader_pc \<Rightarrow> nat" where
  "reader_left RSelect = 3"
| "reader_left (RSend m) = 4"
| "reader_left (RSendInit b) = 4"
| "reader_left RCloseInit = 2"
| "reader_left RCloseText = 1"
| "reader_left RDone = 0"

fun writer_left :: "writer_pc \<Rightarrow> nat" where
  "writer_left WRecv = 3"
| "writer_left (WWrite t) = 4"
| "writer_left WWriting = 4"
| "writer_left WClose = 2"
| "writer_left WDrain = 1"
| "writer_left _ = 0"

definition ws_left :: "'v ws_state \<Rightarrow> nat" where
  "ws_left x = main_left (wx_main x) + 3 * reader_left (wx_reader x) + 2 * length (wx_text x) + writer_left (wx_writer x)"

definition finishing :: "'v ws_state \<Rightarrow> bool" where
  "finishing x \<longleftrightarrow> wx_result x \<noteq> None \<and> wx_conn x \<noteq> None \<and>
     (wx_dos x = 1 \<or> length (sp_queue (wx_spec x)) \<le> messageBufferSize)"

lemma finishing_cong: "finishing x \<Longrightarrow> wx_result y = wx_result x \<Longrightarrow> wx_conn y = wx_conn x \<Longrightarrow> wx_dos y = wx_dos x \<Longrightarrow>
    wx_msgs y = wx_msgs x \<Longrightarrow> finishing y"
  by (simp add: finishing_def)

definition progresses :: "('v \<Rightarrow> marshalled) \<Rightarrow> 'v ws_state \<Rightarrow> bool" where
  "progresses mj x \<longleftrightarrow> (\<exists>e y. housekeeping e \<and> ws_step mj e x = Some y \<and> finishing y \<and> ws_left y < ws_left x)"

lemma progressesI: "ws_step mj e x = Some y \<Longrightarrow> housekeeping e \<Longrightarrow> finishing y \<Longrightarrow> ws_left y < ws_left x \<Longrightarrow> progresses mj x"
  by (auto simp: progresses_def)

lemma main_progress:
  assumes f: "finishing x" and i: "ws_inv mj x" and m: "wx_main x \<noteq> MWait" "wx_main x \<noteq> MReturned"
  shows "progresses mj x"
proof -
  have "main_ok mj (wx_main x) x" using i by (simp add: ws_inv_def main_inv_def)
  moreover have "wx_result x \<noteq> None" "wx_conn x \<noteq> None" using f by (simp_all add: finishing_def)
  ultimately show ?thesis using m f
  proof (cases "wx_main x")
    case (MWrite d)
    then show ?thesis using f
      by (intro progressesI [of mj "WsWriteResult False" x "x\<lparr>wx_main := MWait\<rparr>"]) (simp_all add: ws_left_def finishing_def)
  qed (auto intro!: progressesI [of mj WsMain] simp: main_step_def ws_left_def finishing_def)
qed

lemma reader_progress:
  assumes f: "finishing x" and i: "ws_inv mj x" and r: "wx_reader x \<noteq> RDone"
      "pending_send (wx_reader x) \<noteq> [] \<Longrightarrow> length (wx_text x) < messageBufferSize"
  shows "progresses mj x"
proof (cases "wx_reader x")
  case RSelect
  then show ?thesis using f
    by (auto intro!: progressesI [of mj WsGone] simp: reader_gone_def ws_left_def finishing_def)
next
  case (RSendInit b)
  have "init_ok (RSendInit b) (wx_had_init x) (wx_init x) (sp_init (wx_spec x)) (main_call_of (wx_main x))"
    using i RSendInit by (simp add: ws_inv_def follows_def)
  then have "wx_init x = []" using init_ok_sent by blast
  then show ?thesis using f RSendInit
    by (auto intro!: progressesI [of mj WsReader] simp: reader_step_def ws_left_def finishing_def)
qed (use f r in \<open>auto intro!: progressesI [of mj WsReader] simp: pending_send_def reader_step_def ws_left_def finishing_def\<close>)

lemma writer_progress:
  assumes f: "finishing x" and i: "ws_inv mj x" and m: "wx_main x = MWait"
    and w: "wx_writer x \<noteq> WNone" "wx_writer x \<noteq> WDone" and t: "wx_text x \<noteq> [] \<or> wx_text_closed x"
  shows "progresses mj x"
proof -
  have e: "p_done (wx_pipe x)" "wx_writer x = WWriting \<longrightarrow> p_pend (wx_pipe x) \<noteq> None"
    using i m w(1) by (simp_all add: ws_inv_def end_inv_def)
  obtain y where y: "writer_step x = Some y" "writer_left (wx_writer y) + 2 * length (wx_text y) < writer_left (wx_writer x) + 2 * length (wx_text x)"
  proof (cases "wx_writer x")
    case WWriting
    then obtain n b off where p: "p_pend (wx_pipe x) = Some (n, b, off)" using e(2) by (cases "p_pend (wx_pipe x)") auto
    then obtain k er q where "write_end (wx_pipe x) = (WriteDone k er, q)"
      using e(1) that by (cases "off \<and> b = []") (auto simp: write_end_def)
    then show thesis using that WWriting by (simp add: writer_step_def)
  next
    case WRecv
    then show thesis using that t by (cases "wx_text x"; cases "hd (wx_text x)") (auto simp: writer_step_def)
  next
    case WDrain
    then show thesis using that t by (cases "wx_text x") (auto simp: writer_step_def)
  qed (use that w e t in \<open>auto simp: writer_step_def\<close>)
  then show ?thesis using f writer_step_fields [OF y(1)]
    by (intro progressesI [of mj WsWriter x y]) (simp_all add: ws_left_def finishing_def)
qed

lemma finishing_progress:
  assumes f: "finishing x" and i: "ws_inv mj x" and m: "wx_main x \<noteq> MReturned"
  shows "progresses mj x"
proof (cases "wx_main x = MWait")
  case False
  then show ?thesis using main_progress f i m by blast
next
  case w: True
  have c: "wx_text_closed x \<longleftrightarrow> wx_reader x = RDone" and q: "queue_ok (sp_queue (wx_spec x)) (wx_taken x) (wx_text x) (wx_reader x)"
    using i by (simp_all add: ws_inv_def follows_def close_ok_def)
  show ?thesis
  proof (cases "wx_reader x = RDone")
    case True
    show ?thesis
    proof (cases "wx_writer x \<in> {WNone, WDone}")
      case False
      then show ?thesis using writer_progress [OF f i w] c True by simp
    next
      case True': True
      then show ?thesis using f w True
        by (intro progressesI [of mj WsMain "x" "x\<lparr>wx_main := MReturned\<rparr>"]) (auto simp: main_step_def ws_left_def finishing_def)
    qed
  next
    case False
    show ?thesis
    proof (cases "pending_send (wx_reader x) \<noteq> [] \<longrightarrow> length (wx_text x) < messageBufferSize")
      case True
      then show ?thesis using reader_progress f i False by blast
    next
      case full: False
      then have n: "wx_text x \<noteq> []" "pending_send (wx_reader x) \<noteq> []" by (auto simp: messageBufferSize_def)
      have "wx_writer x \<noteq> WNone"
      proof
        assume wn: "wx_writer x = WNone"
        then have "wx_dos x = 0" "wx_taken x = []" using i w by (simp_all add: ws_inv_def main_inv_def data_inv_def)
        then have "length (wx_text x @ pending_send (wx_reader x)) \<le> messageBufferSize"
          using q f by (simp add: finishing_def queue_ok_def)
        then show False using full by (cases "pending_send (wx_reader x)") auto
      qed
      moreover have "wx_writer x \<noteq> WDone" using i n by (auto simp: ws_inv_def end_inv_def)
      ultimately show ?thesis using writer_progress [OF f i w] n by blast
    qed
  qed
qed


text \<open>
  Property C35. Once \<open>serve\<close> has its result and the connection has ended, the steps of the three
  goroutines alone (no client, no process) end all of them and let \<open>serve\<close> return, unless no
  process ran and the client had sent more input than the channel holds.
\<close>

theorem ws_cleanup:
  assumes "ws_reachable mj x" and "wx_result x \<noteq> None" and "wx_conn x \<noteq> None"
    and "wx_dos x = 1 \<or> length (sp_queue (client_means (wx_msgs x))) \<le> messageBufferSize"
  shows "\<exists>es y. list_all housekeeping es \<and> run_events (ws_step mj) es x = Some y \<and>
    wx_main y = MReturned \<and> wx_reader y = RDone \<and> wx_writer y \<in> {WNone, WDone}"
proof -
  have "finishing x" "ws_inv mj x" using assms ws.reachable_inv by (auto simp: finishing_def)
  then show ?thesis
  proof (induction "ws_left x" arbitrary: x rule: less_induct)
    case less
    show ?case
    proof (cases "wx_main x = MReturned")
      case True
      then have "wx_reader x = RDone \<and> wx_writer x \<in> {WNone, WDone}" using less.prems by (simp add: ws_inv_def end_inv_def)
      then show ?thesis using True by (intro exI [of _ "[]"] exI [of _ x]) simp
    next
      case False
      then obtain e y where y: "housekeeping e" "ws_step mj e x = Some y" "finishing y" "ws_left y < ws_left x"
        using finishing_progress [OF less.prems False] by (auto simp: progresses_def)
      then have "ws_inv mj y" using less.prems ws.step_inv by blast
      then obtain es z where "list_all housekeeping es" "run_events (ws_step mj) es y = Some z"
          "wx_main z = MReturned \<and> wx_reader z = RDone \<and> wx_writer z \<in> {WNone, WDone}"
        using less.hyps y by blast
      then show ?thesis using y by (intro exI [of _ "e # es"] exI [of _ z]) simp
    qed
  qed
qed

definition demo_end :: "bytes ws_event list" where
  "demo_end = demo_jam @ [WsConnDone (Foreign ''gone''), WsPropagate, WsDoReturn None (Some (Foreign ''stopped''))]"

theorem ws_cleanup_witness:
  "\<exists>x es y. ws_run demo_end = Some x \<and> list_all housekeeping es \<and> run_events (ws_step demo_mj) es x = Some y \<and>
    wx_main y = MReturned"
proof -
  have "case ws_run demo_end of None \<Rightarrow> False
    | Some x \<Rightarrow> wx_result x \<noteq> None \<and> wx_conn x \<noteq> None \<and> wx_dos x = 1"
    by code_simp
  then show ?thesis
  proof (cases rule: ws_run_cases)
    case (1 x)
    then show ?thesis using ws_cleanup [OF 1(2)] by blast
  qed
qed

section \<open>Routing\<close>

lemma Clean_one_slash:
  assumes "Clean path = base @ [slash]"
  shows "\<not> suffix [slash] base"
proof -
  have last: "segs_of path \<noteq> [] \<Longrightarrow> last (join_with [slash] (segs_of path)) \<noteq> slash \<and> join_with [slash] (segs_of path) \<noteq> []"
    using plain_last [of "segs_of path"] by simp
  show ?thesis
  proof (cases path rule: Clean_cases)
    case bare
    then have b: "slash # join_with [slash] (segs_of path) = base @ [slash]" using assms by simp
    then have "last (slash # join_with [slash] (segs_of path)) = slash" by simp
    with last have "segs_of path = []" by (auto split: if_splits)
    then show ?thesis using b by simp
  next
    case slashed
    then have b: "base = slash # join_with [slash] (segs_of path)" using assms by simp
    have "last base \<noteq> slash" using last slashed(2) by (simp add: b)
    then show ?thesis by (auto simp: suffix_def)
  qed
qed

text \<open>
  A server for a path that ends in a slash accepts that path with and without the
  slash and everything below it, and nothing else.
\<close>

theorem ws_accepts_below_path:
  assumes "Clean path = base @ [slash]"
  shows "ws_ServeHTTP (ws_NewServer path) p = WsConnection \<longleftrightarrow> p = base \<or> prefix (base @ [slash]) p"
proof -
  have "suffix [slash] p \<Longrightarrow> \<exists>q. p = q @ [slash]" by (auto simp: suffix_def)
  then have "isValidRequestPath (ws_NewServer path) p \<longleftrightarrow> p = base \<or> prefix (base @ [slash]) p"
    using assms Clean_one_slash [OF assms] by (auto simp: isValidRequestPath_def ws_NewServer_def Let_def)
  then show ?thesis by (simp add: ws_ServeHTTP_def)
qed

theorem ws_accepts_below_path_witness:
  "ws_ServeHTTP (ws_NewServer ''/api/'') ''/api/x'' = WsConnection \<and> ws_ServeHTTP (ws_NewServer ''/api/'') ''/api'' = WsConnection \<and>
   ws_ServeHTTP (ws_NewServer ''/api/'') ''/apix'' = WsNotFound"
proof -
  have "Clean ''/api/'' = ''/api'' @ [slash]" by code_simp
  note a = ws_accepts_below_path [OF this]
  have "ws_ServeHTTP (ws_NewServer ''/api/'') ''/apix'' \<noteq> WsConnection" by (simp add: a)
  then show ?thesis using a [of "''/api/x''"] a [of "''/api''"] by (cases "ws_ServeHTTP (ws_NewServer ''/api/'') ''/apix''") simp_all
qed

end
