(* ===== verification/Omap.thy ===== *)
theory Omap
  imports JsonDecode
begin

text \<open>
  \<open>internal/omap\<close>: a map from strings to raw JSON that keeps the order of its keys, with which
  the REST server edits the description of its interface. Reading one uses the token stream of
  \<open>json.Decoder\<close>, modelled here as the state machine of the standard library.
\<close>

section \<open>The map\<close>

record om_entry =
  om_Key :: bytes
  om_Value :: bytes

text \<open>The nil map is \<open>None\<close>.\<close>

type_synonym ordered_map = "om_entry list option"

definition om_entries :: "ordered_map \<Rightarrow> om_entry list" where
  "om_entries om = (case om of None \<Rightarrow> [] | Some es \<Rightarrow> es)"

fun om_set :: "bytes \<Rightarrow> bytes \<Rightarrow> om_entry list \<Rightarrow> om_entry list" where
  "om_set k value [] = [\<lparr>om_Key = k, om_Value = value\<rparr>]"
| "om_set k value (entry # es) =
     (if om_Key entry = k then entry\<lparr>om_Value := value\<rparr> # es else entry # om_set k value es)"

definition OrderedMap_Set :: "bytes \<Rightarrow> bytes \<Rightarrow> ordered_map \<Rightarrow> ordered_map" where
  "OrderedMap_Set k value om = Some (om_set k value (om_entries om))"

fun om_get :: "bytes \<Rightarrow> om_entry list \<Rightarrow> bytes option" where
  "om_get key [] = None"
| "om_get key (entry # es) = (if om_Key entry = key then Some (om_Value entry) else om_get key es)"

definition OrderedMap_Get :: "bytes \<Rightarrow> ordered_map \<Rightarrow> bytes option" where
  "OrderedMap_Get key om = om_get key (om_entries om)"

section \<open>Writing\<close>

definition om_entry_text :: "om_entry \<Rightarrow> bytes" where
  "om_entry_text entry = json_string (om_Key entry) @ '':'' @ om_Value entry"

definition OrderedMap_MarshalJSON :: "ordered_map \<Rightarrow> bytes" where
  "OrderedMap_MarshalJSON om =
     (case om of
        None \<Rightarrow> ''null''
      | Some [] \<Rightarrow> ''{}''
      | Some es \<Rightarrow> ''{'' @ join_with '','' (map om_entry_text es) @ ''}'')"

section \<open>The token stream\<close>

datatype token_state =
    tokenTopValue | tokenArrayStart | tokenArrayValue | tokenArrayComma
  | tokenObjectStart | tokenObjectKey | tokenObjectColon | tokenObjectValue | tokenObjectComma

record decoder =
  de_rest :: bytes
  de_state :: token_state
  de_stack :: "token_state list"

text \<open>A bracket or brace, a string, or another value (whose kind nothing depends on).\<close>

datatype token = Delim char | StrTok bytes | ValTok

fun value_allowed :: "token_state \<Rightarrow> bool" where
  "value_allowed tokenTopValue = True"
| "value_allowed tokenArrayStart = True"
| "value_allowed tokenArrayValue = True"
| "value_allowed tokenObjectValue = True"
| "value_allowed _ = False"

fun value_end :: "token_state \<Rightarrow> token_state" where
  "value_end tokenArrayStart = tokenArrayComma"
| "value_end tokenArrayValue = tokenArrayComma"
| "value_end tokenObjectValue = tokenObjectComma"
| "value_end s = s"

definition dec_open :: "char \<Rightarrow> token_state \<Rightarrow> bytes \<Rightarrow> decoder \<Rightarrow> (token \<times> decoder) option" where
  "dec_open c s r d =
     (if value_allowed (de_state d)
      then Some (Delim c, \<lparr>de_rest = r, de_state = s, de_stack = de_state d # de_stack d\<rparr>) else None)"

definition dec_close :: "char \<Rightarrow> bytes \<Rightarrow> decoder \<Rightarrow> (token \<times> decoder) option" where
  "dec_close c r d =
     (case de_stack d of
        [] \<Rightarrow> None
      | s # ss \<Rightarrow> Some (Delim c, \<lparr>de_rest = r, de_state = value_end s, de_stack = ss\<rparr>))"

definition dec_scalar :: "token \<Rightarrow> bytes \<Rightarrow> decoder \<Rightarrow> (token \<times> decoder) option" where
  "dec_scalar t r d =
     (if value_allowed (de_state d)
      then Some (t, d\<lparr>de_rest := r, de_state := value_end (de_state d)\<rparr>) else None)"

text \<open>
  A number token becomes a \<open>float64\<close>, which is an error when it is too large: rounding gives
  infinity from \<open>2 ^ 1024 - 2 ^ 970\<close> on.
\<close>

definition digits_value :: "bytes \<Rightarrow> int" where
  "digits_value ds = foldl (\<lambda>n c. 10 * n + (of_char c - 0x30)) 0 ds"

definition float_overflow :: "bytes \<Rightarrow> bool" where
  "float_overflow s =
     (let s1 = (if take 1 s = ''-'' then drop 1 s else s);
          i = takeWhile is_digit s1; s2 = dropWhile is_digit s1;
          f = (if take 1 s2 = ''.'' then takeWhile is_digit (drop 1 s2) else []);
          s3 = dropWhile (\<lambda>c. c \<noteq> CHR ''e'' \<and> c \<noteq> CHR ''E'') s2;
          x = digits_value (filter is_digit s3);
          e = (if CHR ''-'' \<in> set s3 then - x else x) - int (length f);
          m = digits_value (i @ f); limit = 2 ^ 1024 - 2 ^ 970
      in if 0 \<le> e then limit \<le> m * 10 ^ nat e else limit * 10 ^ nat (- e) \<le> m)"

text \<open>\<open>Decoder.Token\<close>; \<open>None\<close> is an error (bad syntax, or the end of the text).\<close>

function dec_token :: "decoder \<Rightarrow> (token \<times> decoder) option" where
  "dec_token d =
     (case next_tok (de_rest d) of
        None \<Rightarrow> None
      | Some (tk, r) \<Rightarrow> (case tk of
          TLBrack \<Rightarrow> dec_open (CHR ''['') tokenArrayStart r d
        | TRBrack \<Rightarrow> if de_state d = tokenArrayStart \<or> de_state d = tokenArrayComma then dec_close (CHR '']'') r d else None
        | TLBrace \<Rightarrow> dec_open (CHR ''{'') tokenObjectStart r d
        | TRBrace \<Rightarrow> if de_state d = tokenObjectStart \<or> de_state d = tokenObjectComma then dec_close (CHR ''}'') r d else None
        | TColon \<Rightarrow>
            if de_state d = tokenObjectColon then dec_token (d\<lparr>de_rest := r, de_state := tokenObjectValue\<rparr>) else None
        | TComma \<Rightarrow>
            if de_state d = tokenArrayComma then dec_token (d\<lparr>de_rest := r, de_state := tokenArrayValue\<rparr>)
            else if de_state d = tokenObjectComma then dec_token (d\<lparr>de_rest := r, de_state := tokenObjectKey\<rparr>)
            else None
        | TStr s \<Rightarrow>
            if de_state d = tokenObjectStart \<or> de_state d = tokenObjectKey
            then Some (StrTok s, d\<lparr>de_rest := r, de_state := tokenObjectColon\<rparr>) else dec_scalar (StrTok s) r d
        | TNum n \<Rightarrow> if float_overflow n then None else dec_scalar ValTok r d
        | _ \<Rightarrow> dec_scalar ValTok r d))"
  by pat_completeness auto
termination
  by (relation "measure (\<lambda>d. length (de_rest d))") (auto dest: next_tok_len)

declare dec_token.simps [simp del]

section \<open>Reading\<close>

definition errWantObjectStart :: go_error where
  "errWantObjectStart = Sentinel ''omap.errWantObjectStart'' ''expected object start''"

definition errObjectEnded :: go_error where
  "errObjectEnded = Sentinel ''omap.errObjectEnded'' ''object or array ended unexpectedly''"

text \<open>The text of the decoder's own errors is left open.\<close>

definition token_error :: go_error where
  "token_error = Foreign []"

text \<open>
  \<open>readValue\<close> and the loop inside it, with fuel; \<open>readValue_eq\<close> below is the recursion of the
  code, without fuel.
\<close>

fun read_value :: "nat \<Rightarrow> decoder \<Rightarrow> go_error option \<times> decoder" and
  read_loop :: "nat \<Rightarrow> decoder \<Rightarrow> go_error option \<times> decoder" where
  "read_value 0 d = (None, d)"
| "read_value (Suc n) d =
     (case dec_token d of
        None \<Rightarrow> (Some (Errorf ''failed to read value from decoder: '' token_error []), d)
      | Some (t, d') \<Rightarrow>
          if t = Delim (CHR ''['') \<or> t = Delim (CHR ''{'') then read_loop n d'
          else if t = Delim (CHR '']'') \<or> t = Delim (CHR ''}'') then (Some errObjectEnded, d')
          else (None, d'))"
| "read_loop 0 d = (None, d)"
| "read_loop (Suc n) d =
     (case read_value n d of
        (None, d') \<Rightarrow> read_loop n d'
      | (Some err, d') \<Rightarrow> if errors_Is err errObjectEnded then (None, d') else (Some err, d'))"

definition readValue :: "decoder \<Rightarrow> go_error option \<times> decoder" where
  "readValue d = read_value (2 * length (de_rest d) + 1) d"

definition read_values :: "decoder \<Rightarrow> go_error option \<times> decoder" where
  "read_values d = read_loop (2 * length (de_rest d) + 2) d"

text \<open>\<open>parseValue\<close> gets the text between the two offsets.\<close>

definition om_parseValue :: "bytes \<Rightarrow> bytes" where
  "om_parseValue value = (case dropWhile (\<lambda>c. c \<noteq> CHR '':'') value of [] \<Rightarrow> [] | _ # v \<Rightarrow> v)"

text \<open>The loop of \<open>UnmarshalJSON\<close>; the result \<open>None\<close> is a panic of the type assertion.\<close>

fun um_loop :: "nat \<Rightarrow> om_entry list \<Rightarrow> decoder \<Rightarrow> (ordered_map \<times> go_error option) option" where
  "um_loop 0 es d = None"
| "um_loop (Suc n) es d =
     (case dec_token d of
        None \<Rightarrow> Some (Some es, Some (Errorf ''failed to read token: '' token_error []))
      | Some (t, d1) \<Rightarrow>
          if t = Delim (CHR ''}'') then Some (Some es, None)
          else (case t of
              StrTok k \<Rightarrow>
                (case readValue d1 of
                   (Some err, _) \<Rightarrow> Some (Some es, Some err)
                 | (None, d2) \<Rightarrow>
                     um_loop n (es @ [\<lparr>om_Key = k, om_Value =
                       om_parseValue (take (length (de_rest d1) - length (de_rest d2)) (de_rest d1))\<rparr>]) d2)
            | _ \<Rightarrow> None))"

definition OrderedMap_UnmarshalJSON :: "bytes \<Rightarrow> ordered_map \<Rightarrow> (ordered_map \<times> go_error option) option" where
  "OrderedMap_UnmarshalJSON data om =
     (case dec_token \<lparr>de_rest = data, de_state = tokenTopValue, de_stack = []\<rparr> of
        None \<Rightarrow> Some (om, Some (Errorf ''failed to read token: '' token_error []))
      | Some (t, d) \<Rightarrow>
          if t \<noteq> Delim (CHR ''{'') then Some (om, Some errWantObjectStart)
          else um_loop (Suc (length (de_rest d))) [] d)"

end
