(* ===== verification/OmapProps.thy ===== *)
theory OmapProps
  imports Omap
begin

text \<open>
  The laws of the ordered map, that reading one always ends without a panic, and that reading
  what was written gives the map back.
\<close>

section \<open>The contract of an ordered map\<close>

text \<open>
  What the REST server relies on: a lookup after a set, and that setting keeps the order of the
  keys. Two maps with the same keys in the same order and the same values print the same.
\<close>

locale ordered_map_spec =
  fixes get :: "bytes \<Rightarrow> 'm \<Rightarrow> bytes option" and set_key :: "bytes \<Rightarrow> bytes \<Rightarrow> 'm \<Rightarrow> 'm" and keys :: "'m \<Rightarrow> bytes list"
  assumes get_set: "get k (set_key k' v m) = (if k = k' then Some v else get k m)"
    and keys_set: "keys (set_key k v m) = (if k \<in> set (keys m) then keys m else keys m @ [k])"
    and get_keys: "get k m = None \<longleftrightarrow> k \<notin> set (keys m)"
begin

lemma get_fold: "get k (fold (\<lambda>(k, v). set_key k v) kvs m) =
    (case map_of (rev kvs) k of None \<Rightarrow> get k m | Some v \<Rightarrow> Some v)"
  by (induction kvs arbitrary: m) (auto simp: get_set map_add_def split: option.splits)

lemma keys_distinct: "distinct (keys m) \<Longrightarrow> distinct (keys (set_key k v m))"
  by (simp add: keys_set)

lemma keys_kept: "k \<in> set (keys m) \<Longrightarrow> keys (set_key k v m) = keys m"
  by (simp add: keys_set)

end

definition om_keys :: "ordered_map \<Rightarrow> bytes list" where
  "om_keys om = map om_Key (om_entries om)"

lemma om_get_set: "om_get k (om_set k' v es) = (if k = k' then Some v else om_get k es)"
  by (induction es) auto

lemma om_keys_set: "map om_Key (om_set k v es) = (if k \<in> om_Key ` set es then map om_Key es else map om_Key es @ [k])"
  by (induction es) auto

lemma om_get_keys: "om_get k es = None \<longleftrightarrow> k \<notin> om_Key ` set es"
  by (induction es) auto

lemma om_entries_Some [simp]: "om_entries (Some es) = es" "om_entries None = []"
  by (simp_all add: om_entries_def)

interpretation om: ordered_map_spec OrderedMap_Get OrderedMap_Set om_keys
  by unfold_locales (auto simp: OrderedMap_Get_def OrderedMap_Set_def om_keys_def om_get_set om_keys_set om_get_keys)

section \<open>Reading ends\<close>

lemma dec_token_len: "dec_token d = Some (t, d') \<Longrightarrow> length (de_rest d') < length (de_rest d)"
proof (induction d arbitrary: t d' rule: dec_token.induct)
  case (1 d)
  obtain tk r where n: "next_tok (de_rest d) = Some (tk, r)"
    using "1.prems" by (cases "next_tok (de_rest d)") (auto simp: dec_token.simps [of d])
  note l = next_tok_len [OF n]
  have c: "length (de_rest d') < length (de_rest d)" if "dec_token (d\<lparr>de_rest := r, de_state := s\<rparr>) = Some (t, d')"
      "\<And>t d'. dec_token (d\<lparr>de_rest := r, de_state := s\<rparr>) = Some (t, d') \<Longrightarrow> length (de_rest d') < length r" for s
    using that l by fastforce
  show ?case
  proof (cases tk)
    case TColon
    then show ?thesis using "1.prems" n l "1.IH"(1) [OF n refl TColon]
      by (fastforce simp: dec_token.simps [of d] split: if_splits)
  next
    case TComma
    then show ?thesis using "1.prems" n l "1.IH"(2,3) [OF n refl TComma]
      by (fastforce simp: dec_token.simps [of d] split: if_splits)
  qed (use "1.prems" n l in \<open>auto simp: dec_token.simps [of d] dec_open_def dec_close_def dec_scalar_def split: if_splits list.splits\<close>)
qed

lemma read_len:
  "read_value n d = (e, d') \<Longrightarrow> length (de_rest d') \<le> length (de_rest d)"
  "read_loop n d = (e, d') \<Longrightarrow> length (de_rest d') \<le> length (de_rest d)"
proof (induction n d and n d arbitrary: e d' and e d' rule: read_value_read_loop.induct)
  case (2 n d)
  then show ?case by (fastforce dest: dec_token_len split: option.splits prod.splits if_splits)
next
  case (4 n d)
  then show ?case by (fastforce split: option.splits prod.splits if_splits)
qed auto

lemma read_fuel:
  "2 * length (de_rest d) + 1 \<le> n \<Longrightarrow> read_value n d = readValue d"
  "2 * length (de_rest d) + 2 \<le> n \<Longrightarrow> read_loop n d = read_values d"
proof -
  have "(\<forall>n m. 2 * length (de_rest d) + 1 \<le> n \<longrightarrow> 2 * length (de_rest d) + 1 \<le> m \<longrightarrow> read_value n d = read_value m d) \<and>
      (\<forall>n m. 2 * length (de_rest d) + 2 \<le> n \<longrightarrow> 2 * length (de_rest d) + 2 \<le> m \<longrightarrow> read_loop n d = read_loop m d)" for d
  proof (induction "length (de_rest d)" arbitrary: d rule: less_induct)
    case less
    have v: "read_value n d = read_value m d"
      if nm: "2 * length (de_rest d) + 1 \<le> n" "2 * length (de_rest d) + 1 \<le> m" for n m
    proof -
      obtain n' m' where s: "n = Suc n'" "m = Suc m'" using nm by (cases n; cases m) auto
      show ?thesis
      proof (cases "dec_token d")
        case (Some p)
        then obtain t d' where p: "dec_token d = Some (t, d')" by (cases p) auto
        have "length (de_rest d') < length (de_rest d)" by (rule dec_token_len [OF p])
        then have "read_loop n' d' = read_loop m' d'" using less [of d'] nm s by simp
        then show ?thesis by (simp add: s p)
      qed (simp add: s)
    qed
    have "read_loop n d = read_loop m d"
      if nm: "2 * length (de_rest d) + 2 \<le> n" "2 * length (de_rest d) + 2 \<le> m" for n m
    proof -
      obtain n' m' where s: "n = Suc n'" "m = Suc m'" using nm by (cases n; cases m) auto
      obtain e d' where r: "read_value n' d = (e, d')" by force
      have r': "read_value m' d = (e, d')" using v [of n' m'] nm s r by simp
      show ?thesis
      proof (cases e)
        case None
        obtain k where k: "n' = Suc k" using nm s by (cases n') auto
        have "length (de_rest d') < length (de_rest d)"
        proof (cases "dec_token d")
          case (Some p)
          then obtain t d1 where p: "dec_token d = Some (t, d1)" by (cases p) auto
          have "length (de_rest d') \<le> length (de_rest d1)"
            using r None k p by (auto dest: read_len split: if_splits)
          then show ?thesis using dec_token_len [OF p] by simp
        qed (use r None k in simp)
        then have "read_loop n' d' = read_loop m' d'" using less [of d'] nm s by simp
        then show ?thesis using None by (simp add: s r r')
      qed (simp add: s r r')
    qed
    with v show ?case by blast
  qed
  then show "2 * length (de_rest d) + 1 \<le> n \<Longrightarrow> read_value n d = readValue d"
    "2 * length (de_rest d) + 2 \<le> n \<Longrightarrow> read_loop n d = read_values d"
    unfolding readValue_def read_values_def by blast+
qed

lemma read_values_len: "read_values d = (e, d') \<Longrightarrow> length (de_rest d') \<le> length (de_rest d)"
  unfolding read_values_def by (rule read_len(2))

text \<open>The recursion of the code.\<close>

lemma readValue_eq:
  "readValue d =
     (case dec_token d of
        None \<Rightarrow> (Some (Errorf ''failed to read value from decoder: '' token_error []), d)
      | Some (t, d') \<Rightarrow>
          if t = Delim (CHR ''['') \<or> t = Delim (CHR ''{'') then read_values d'
          else if t = Delim (CHR '']'') \<or> t = Delim (CHR ''}'') then (Some errObjectEnded, d')
          else (None, d'))"
proof (cases "dec_token d")
  case (Some p)
  then obtain t d' where p: "dec_token d = Some (t, d')" by (cases p) auto
  have "read_loop (2 * length (de_rest d)) d' = read_values d'"
    using dec_token_len [OF p] by (intro read_fuel) simp
  then show ?thesis by (simp add: readValue_def p)
qed (simp add: readValue_def)

lemma readValue_len: "readValue d = (None, d') \<Longrightarrow> length (de_rest d') < length (de_rest d)"
proof -
  assume r: "readValue d = (None, d')"
  then obtain t d1 where p: "dec_token d = Some (t, d1)" by (auto simp: readValue_eq split: option.splits)
  have "length (de_rest d') \<le> length (de_rest d1)"
    using r p by (auto simp: readValue_eq dest: read_values_len split: if_splits)
  then show ?thesis using dec_token_len [OF p] by simp
qed

lemma read_values_eq:
  "read_values d =
     (case readValue d of
        (None, d') \<Rightarrow> read_values d'
      | (Some err, d') \<Rightarrow> if errors_Is err errObjectEnded then (None, d') else (Some err, d'))"
proof -
  have v: "read_value (2 * length (de_rest d) + 1) d = readValue d" by (rule read_fuel) simp
  have l: "read_loop (2 * length (de_rest d) + 1) d' = read_values d'" if "readValue d = (None, d')" for d'
    using readValue_len [OF that] by (intro read_fuel) simp
  have "read_values d = read_loop (Suc (2 * length (de_rest d) + 1)) d" by (simp add: read_values_def)
  then show ?thesis using v l by (auto split: option.splits prod.splits)
qed

section \<open>Where the decoder stands\<close>

definition opens :: "token \<Rightarrow> bool" where
  "opens t \<longleftrightarrow> t = Delim (CHR ''['') \<or> t = Delim (CHR ''{'')"

definition closes :: "token \<Rightarrow> bool" where
  "closes t \<longleftrightarrow> t = Delim (CHR '']'') \<or> t = Delim (CHR ''}'')"

definition key_place :: "token_state \<Rightarrow> bool" where
  "key_place s \<longleftrightarrow> s = tokenObjectStart \<or> s = tokenObjectKey \<or> s = tokenObjectComma"

lemma opens_simps [simp]: "opens (Delim (CHR ''[''))" "opens (Delim (CHR ''{''))" "\<not> opens (StrTok k)" "\<not> opens ValTok"
    "\<not> opens (Delim (CHR '']''))" "\<not> opens (Delim (CHR ''}''))" "closes (Delim (CHR '']''))" "closes (Delim (CHR ''}''))"
    "\<not> closes (StrTok k)" "\<not> closes ValTok" "\<not> closes (Delim (CHR ''[''))" "\<not> closes (Delim (CHR ''{''))"
  by (simp_all add: opens_def closes_def)

text \<open>What a token does to the stack and, after a key's colon or where a key may come, to the state.\<close>

definition token_effect :: "token \<Rightarrow> decoder \<Rightarrow> decoder \<Rightarrow> bool" where
  "token_effect t d d' \<longleftrightarrow>
     (opens t \<longrightarrow> (\<exists>s. de_stack d' = s # de_stack d \<and> (de_state d = tokenObjectColon \<longrightarrow> s = tokenObjectValue))) \<and>
     (closes t \<longrightarrow> (\<exists>s. de_stack d = s # de_stack d' \<and> de_state d' = value_end s)) \<and>
     (\<not> opens t \<and> \<not> closes t \<longrightarrow> de_stack d' = de_stack d \<and>
        (de_state d = tokenObjectColon \<longrightarrow> de_state d' = tokenObjectComma)) \<and>
     (key_place (de_state d) \<longrightarrow> t = Delim (CHR ''}'') \<or> (\<exists>k. t = StrTok k \<and> de_state d' = tokenObjectColon))"

lemma token_effect:
  "dec_token d = Some (t, d') \<Longrightarrow> token_effect t d d'"
proof (induction d arbitrary: t d' rule: dec_token.induct)
  case (1 d)
  obtain tk r where n: "next_tok (de_rest d) = Some (tk, r)"
    using "1.prems" by (cases "next_tok (de_rest d)") (auto simp: dec_token.simps [of d])
  show ?case
  proof (cases tk)
    case TColon
    then have c: "de_state d = tokenObjectColon" "dec_token (d\<lparr>de_rest := r, de_state := tokenObjectValue\<rparr>) = Some (t, d')"
      using "1.prems" n by (simp_all add: dec_token.simps [of d] split: if_splits)
    let ?u = "d\<lparr>de_rest := r, de_state := tokenObjectValue\<rparr>"
    have e: "token_effect t ?u d'" using "1.IH"(1) [OF n refl TColon c(1) c(2)] .
    obtain tk2 r2 where n2: "next_tok r = Some (tk2, r2)"
      using c(2) by (cases "next_tok r") (auto simp: dec_token.simps [of ?u])
    have "(opens t \<longrightarrow> de_stack d' = tokenObjectValue # de_stack d) \<and>
        (\<not> opens t \<and> \<not> closes t \<longrightarrow> de_state d' = tokenObjectComma)"
      using c(2) n2 by (cases tk2) (auto simp: dec_token.simps [of ?u] dec_open_def dec_scalar_def split: if_splits)
    then show ?thesis using e c(1) by (auto simp: token_effect_def key_place_def)
  next
    case TComma
    then consider (arr) "de_state d = tokenArrayComma" "dec_token (d\<lparr>de_rest := r, de_state := tokenArrayValue\<rparr>) = Some (t, d')"
      | (obj) "de_state d \<noteq> tokenArrayComma" "de_state d = tokenObjectComma"
          "dec_token (d\<lparr>de_rest := r, de_state := tokenObjectKey\<rparr>) = Some (t, d')"
      using "1.prems" n by (simp add: dec_token.simps [of d] split: if_splits)
    then show ?thesis
    proof cases
      case arr
      from "1.IH"(2) [OF n refl TComma arr] arr show ?thesis by (auto simp: token_effect_def key_place_def)
    next
      case obj
      from "1.IH"(3) [OF n refl TComma obj] obj show ?thesis by (auto simp: token_effect_def key_place_def)
    qed
  next
    case (TStr s)
    then show ?thesis using "1.prems" n
      by (cases "de_state d") (auto simp: dec_token.simps [of d] dec_scalar_def token_effect_def key_place_def)
  qed (use "1.prems" n in \<open>cases "de_state d"; auto simp: dec_token.simps [of d] dec_open_def dec_close_def dec_scalar_def
      token_effect_def key_place_def split: if_splits list.splits\<close>)+
qed

lemma token_error_not_ended [simp]: "\<not> errors_Is token_error errObjectEnded" "Errorf p e q \<noteq> errObjectEnded"
  by (simp_all add: token_error_def errObjectEnded_def)

definition popped :: "decoder \<Rightarrow> decoder \<Rightarrow> bool" where
  "popped d d' \<longleftrightarrow> (\<exists>s. de_stack d = s # de_stack d' \<and> de_state d' = value_end s)"

text \<open>
  Reading a value keeps the stack, or meets the end of the container around it; reading the rest
  of a container leaves it.
\<close>

lemma read_effect:
  "(readValue d = (None, d') \<longrightarrow> de_stack d' = de_stack d \<and> (de_state d = tokenObjectColon \<longrightarrow> de_state d' = tokenObjectComma)) \<and>
   (\<forall>e. readValue d = (Some e, d') \<longrightarrow> errors_Is e errObjectEnded \<longrightarrow> popped d d') \<and>
   (read_values d = (None, d') \<longrightarrow> popped d d') \<and>
   (\<forall>e. read_values d = (Some e, d') \<longrightarrow> \<not> errors_Is e errObjectEnded)"
proof (induction "length (de_rest d)" arbitrary: d d' rule: less_induct)
  case less
  note IH = less [rule_format]
  have v: "(readValue d = (None, d') \<longrightarrow> de_stack d' = de_stack d \<and> (de_state d = tokenObjectColon \<longrightarrow> de_state d' = tokenObjectComma)) \<and>
      (\<forall>e. readValue d = (Some e, d') \<longrightarrow> errors_Is e errObjectEnded \<longrightarrow> popped d d')" for d'
  proof (cases "dec_token d")
    case None
    then show ?thesis by (simp add: readValue_eq)
  next
    case (Some p)
    then obtain t d1 where p: "dec_token d = Some (t, d1)" by (cases p) auto
    have l: "length (de_rest d1) < length (de_rest d)" by (rule dec_token_len [OF p])
    have e: "token_effect t d d1" by (rule token_effect [OF p])
    consider (op) "opens t" | (cl) "closes t" "\<not> opens t" | (other) "\<not> opens t" "\<not> closes t" by blast
    then show ?thesis
    proof cases
      case op
      then have r: "readValue d = read_values d1" using p by (simp add: readValue_eq opens_def)
      obtain s where s: "de_stack d1 = s # de_stack d" "de_state d = tokenObjectColon \<longrightarrow> s = tokenObjectValue"
        using e op by (auto simp: token_effect_def)
      show ?thesis using less [OF l, of d'] s unfolding r by (auto simp: popped_def)
    next
      case cl
      then have "readValue d = (Some errObjectEnded, d1)" using p by (auto simp: readValue_eq opens_def closes_def)
      moreover have "popped d d1" using e cl by (auto simp: token_effect_def popped_def)
      ultimately show ?thesis by auto
    next
      case other
      then have "readValue d = (None, d1)" using p by (auto simp: readValue_eq opens_def closes_def)
      then show ?thesis using e other by (auto simp: token_effect_def)
    qed
  qed
  have "(read_values d = (None, d') \<longrightarrow> popped d d') \<and> (\<forall>e. read_values d = (Some e, d') \<longrightarrow> \<not> errors_Is e errObjectEnded)"
  proof -
    obtain r d1 where r: "readValue d = (r, d1)" by force
    show ?thesis
    proof (cases r)
      case None
      then have q: "read_values d = read_values d1" using r by (simp add: read_values_eq [of d])
      have l: "length (de_rest d1) < length (de_rest d)" using r None readValue_len by blast
      have "de_stack d1 = de_stack d" using v [of d1] r None by simp
      then show ?thesis using less [OF l, of d'] unfolding q by (simp add: popped_def)
    next
      case (Some e)
      then have "read_values d = (if errors_Is e errObjectEnded then (None, d1) else (Some e, d1))"
        using r by (subst read_values_eq) simp
      then show ?thesis using v [of d1] r Some by auto
    qed
  qed
  with v show ?case by blast
qed

lemma um_loop_ok:
  "length (de_rest d) < n \<Longrightarrow> key_place (de_state d) \<Longrightarrow> um_loop n es d \<noteq> None"
proof (induction n arbitrary: es d)
  case (Suc n)
  show ?case
  proof (cases "dec_token d")
    case (Some p)
    then obtain t d1 where p: "dec_token d = Some (t, d1)" by (cases p) auto
    have l: "length (de_rest d1) < length (de_rest d)" by (rule dec_token_len [OF p])
    have e: "token_effect t d d1" by (rule token_effect [OF p])
    show ?thesis
    proof (cases "t = Delim (CHR ''}'')")
      case True
      then show ?thesis using p by simp
    next
      case False
      then obtain k where k: "t = StrTok k" "de_state d1 = tokenObjectColon"
        using e Suc.prems(2) by (auto simp: token_effect_def)
      obtain r d2 where r: "readValue d1 = (r, d2)" by force
      show ?thesis
      proof (cases r)
        case None
        have "de_state d2 = tokenObjectComma" using read_effect [of d1 d2] r None k(2) by simp
        moreover have "length (de_rest d2) < n" using readValue_len [of d1 d2] r None l Suc.prems(1) by simp
        ultimately have "um_loop n es' d2 \<noteq> None" for es' using Suc.IH by (simp add: key_place_def)
        then show ?thesis using p k r None by simp
      qed (use p k r in simp)
    qed
  qed simp
qed simp

text \<open>
  Property C37. Whatever the bytes are, reading them into an ordered map ends, and never with the
  panic of the type assertion on a key: every token where a key is expected is a string or the end
  of the object.
\<close>

theorem omap_unmarshal_no_panic:
  "OrderedMap_UnmarshalJSON data om \<noteq> None"
proof (cases "dec_token \<lparr>de_rest = data, de_state = tokenTopValue, de_stack = []\<rparr>")
  case (Some p)
  then obtain t d where p: "dec_token \<lparr>de_rest = data, de_state = tokenTopValue, de_stack = []\<rparr> = Some (t, d)"
    by (cases p) auto
  have "t = Delim (CHR ''{'') \<Longrightarrow> de_state d = tokenObjectStart"
  proof -
    assume t: "t = Delim (CHR ''{'')"
    obtain tk r where "next_tok data = Some (tk, r)" using p by (cases "next_tok data") (auto simp: dec_token.simps)
    then show ?thesis using p t
      by (cases tk) (auto simp: dec_token.simps [of "\<lparr>de_rest = data, de_state = tokenTopValue, de_stack = []\<rparr>"]
          dec_open_def dec_scalar_def split: if_splits)
  qed
  then show ?thesis using p um_loop_ok [of d "Suc (length (de_rest d))" "[]"]
    by (auto simp: OrderedMap_UnmarshalJSON_def key_place_def)
qed (simp add: OrderedMap_UnmarshalJSON_def)

section \<open>Writing and reading back\<close>

text \<open>Compact JSON texts, and the values that have one.\<close>

fun json_print :: "json \<Rightarrow> bytes" where
  "json_print JNull = ''null''"
| "json_print (JBool b) = (if b then ''true'' else ''false'')"
| "json_print (JNum n) = n"
| "json_print (JStr s) = json_string s"
| "json_print (JArr js) = ''['' @ join_with '','' (map json_print js) @ '']''"
| "json_print (JObj ms) = ''{'' @ join_with '','' (map (\<lambda>(k, j). json_string k @ '':'' @ json_print j) ms) @ ''}''"

fun json_wf :: "json \<Rightarrow> bool" where
  "json_wf (JNum n) = (scan_number n = Some (n, []) \<and> \<not> float_overflow n)"
| "json_wf (JArr js) = list_all json_wf js"
| "json_wf (JObj ms) = list_all (\<lambda>(k, j). json_wf j) ms"
| "json_wf _ = True"

text \<open>What may follow a value: a number must not go on.\<close>

definition number_stops :: "bytes \<Rightarrow> bool" where
  "number_stops r = (case r of [] \<Rightarrow> True | c # cs \<Rightarrow> \<not> is_digit c \<and> c \<noteq> CHR ''.'' \<and> c \<noteq> CHR ''e'' \<and> c \<noteq> CHR ''E'')"

lemma digit_facts: "is_digit c \<Longrightarrow> \<not> is_space c \<and> c \<noteq> CHR ''{'' \<and> c \<noteq> CHR ''}'' \<and> c \<noteq> CHR ''['' \<and> c \<noteq> CHR '']'' \<and>
    c \<noteq> CHR '':'' \<and> c \<noteq> CHR '','' \<and> c \<noteq> dquote \<and> c \<noteq> CHR ''t'' \<and> c \<noteq> CHR ''f'' \<and> c \<noteq> CHR ''n'' \<and>
    c \<noteq> CHR ''.'' \<and> c \<noteq> CHR ''e'' \<and> c \<noteq> CHR ''E'' \<and> c \<noteq> CHR ''-'' \<and> c \<noteq> CHR ''+''"
  by (auto simp: is_digit_def is_space_def)

lemma takeWhile_stop: "takeWhile P s @ dropWhile P s = s \<Longrightarrow> (case dropWhile P s @ r of [] \<Rightarrow> True | c # _ \<Rightarrow> \<not> P c) \<Longrightarrow>
    takeWhile P (s @ r) = takeWhile P s \<and> dropWhile P (s @ r) = dropWhile P s @ r"
  by (induction s) (auto split: list.splits if_splits)

lemma scan_digits_stop: "scan_digits s = Some (d, x) \<Longrightarrow> number_stops r \<Longrightarrow> scan_digits (s @ r) = Some (d, x @ r)"
proof -
  assume s: "scan_digits s = Some (d, x)" and r: "number_stops r"
  have "case dropWhile is_digit s @ r of [] \<Rightarrow> True | c # _ \<Rightarrow> \<not> is_digit c"
  proof (cases "dropWhile is_digit s")
    case Nil
    show ?thesis unfolding Nil using r by (simp add: number_stops_def split: list.splits)
  next
    case (Cons a as)
    then show ?thesis using hd_dropWhile [of is_digit s] by (metis append_Cons list.distinct(1) list.sel(1) list.simps(5))
  qed
  then have "takeWhile is_digit (s @ r) = takeWhile is_digit s \<and> dropWhile is_digit (s @ r) = dropWhile is_digit s @ r"
    by (intro takeWhile_stop) simp_all
  then show ?thesis using s by (auto simp: scan_digits_def split: list.splits)
qed

lemma scan_int_stop: "scan_int s = Some (d, x) \<Longrightarrow> number_stops r \<Longrightarrow> scan_int (s @ r) = Some (d, x @ r)"
  using scan_digits_stop [of s d x r] by (cases s) (auto simp: scan_int_def split: if_splits)

lemma scan_frac_stop: "scan_frac s = Some (d, x) \<Longrightarrow> number_stops r \<Longrightarrow> scan_frac (s @ r) = Some (d, x @ r)"
proof (cases s)
  case (Cons c cs)
  then show "scan_frac s = Some (d, x) \<Longrightarrow> number_stops r \<Longrightarrow> ?thesis"
    using scan_digits_stop [of cs _ _ r] by (fastforce simp: scan_frac_def split: if_splits)
qed (auto simp: scan_frac_def number_stops_def split: list.splits)

lemma scan_exp_stop: "scan_exp s = Some (d, x) \<Longrightarrow> number_stops r \<Longrightarrow> scan_exp (s @ r) = Some (d, x @ r)"
proof (cases s)
  case (Cons c cs)
  then show "scan_exp s = Some (d, x) \<Longrightarrow> number_stops r \<Longrightarrow> ?thesis"
    using scan_digits_stop [of cs _ _ r] scan_digits_stop [of "tl cs" _ _ r]
    by (cases cs) (fastforce simp: scan_exp_def split: if_splits)+
qed (auto simp: scan_exp_def number_stops_def split: list.splits)

lemma scan_number_stop: "scan_number n = Some (n, []) \<Longrightarrow> number_stops r \<Longrightarrow> scan_number (n @ r) = Some (n, r)"
proof -
  assume n: "scan_number n = Some (n, [])" and r: "number_stops r"
  obtain sg s1 where s: "(case n of c # cs \<Rightarrow> if c = CHR ''-'' then ([c], cs) else ([], n) | [] \<Rightarrow> ([], n)) = (sg, s1)" by force
  have "n \<noteq> []" using scan_number_app [OF n] by simp
  then have s': "(case n @ r of c # cs \<Rightarrow> if c = CHR ''-'' then ([c], cs) else ([], n @ r) | [] \<Rightarrow> ([], n @ r)) = (sg, s1 @ r)"
    using s by (cases n) (auto split: if_splits)
  obtain i s2 f s3 e s4 where p: "scan_int s1 = Some (i, s2)" "scan_frac s2 = Some (f, s3)" "scan_exp s3 = Some (e, s4)"
      "n = sg @ i @ f @ e" "s4 = []"
    using n s by (auto simp: scan_number_def split: option.splits)
  show ?thesis unfolding scan_number_def s' using scan_int_stop [OF p(1) r] scan_frac_stop [OF p(2) r] scan_exp_stop [OF p(3) r] p(4,5)
    by simp
qed

text \<open>The first token of a text.\<close>

lemma next_tok_print:
  "next_tok (CHR ''{'' # r) = Some (TLBrace, r)" "next_tok (CHR ''}'' # r) = Some (TRBrace, r)"
  "next_tok (CHR ''['' # r) = Some (TLBrack, r)" "next_tok (CHR '']'' # r) = Some (TRBrack, r)"
  "next_tok (CHR '':'' # r) = Some (TColon, r)" "next_tok (CHR '','' # r) = Some (TComma, r)"
  "next_tok (''null'' @ r) = Some (TNull, r)" "next_tok (''true'' @ r) = Some (TTrue, r)"
  "next_tok (''false'' @ r) = Some (TFalse, r)"
  "next_tok (json_string s @ r) = Some (TStr (unquote (json_escape s)), r)"
  by (simp_all add: next_tok_def skip_ws_def is_space_def json_string_def scan_str_escape)

lemma next_tok_number: "scan_number n = Some (n, []) \<Longrightarrow> number_stops r \<Longrightarrow> next_tok (n @ r) = Some (TNum n, r)"
proof -
  assume n: "scan_number n = Some (n, [])" and r: "number_stops r"
  obtain c cs where c: "n = c # cs" using scan_number_app [OF n] by (cases n) auto
  have "is_digit c \<or> c = CHR ''-''"
    using n c by (auto simp: scan_number_def scan_int_def scan_digits_def is_digit_def split: if_splits option.splits list.splits)
  moreover have "\<not> is_space (CHR ''-'')" by (simp add: is_space_def)
  ultimately have neq: "\<not> is_space c \<and> c \<noteq> CHR ''{'' \<and> c \<noteq> CHR ''}'' \<and> c \<noteq> CHR ''['' \<and> c \<noteq> CHR '']'' \<and>
      c \<noteq> CHR '':'' \<and> c \<noteq> CHR '','' \<and> c \<noteq> dquote \<and> c \<noteq> CHR ''t'' \<and> c \<noteq> CHR ''f'' \<and> c \<noteq> CHR ''n''"
    using digit_facts [of c] by (elim disjE) simp_all
  have "scan_number (c # cs @ r) = Some (c # cs, r)" using scan_number_stop [OF n r] c by simp
  moreover have "skip_ws (n @ r) = c # cs @ r" using neq by (simp add: c skip_ws_def)
  ultimately show ?thesis using neq unfolding next_tok_def by (simp only: list.case if_False option.map prod.case c append_Cons)
qed

lemma number_stops_simps [simp]: "number_stops (CHR '','' # r)" "number_stops (CHR '']'' # r)" "number_stops (CHR ''}'' # r)"
  by (simp_all add: number_stops_def is_digit_def)

text \<open>Tokens of a printed text.\<close>

abbreviation dec :: "bytes \<Rightarrow> token_state \<Rightarrow> token_state list \<Rightarrow> decoder" where
  "dec r s st \<equiv> \<lparr>de_rest = r, de_state = s, de_stack = st\<rparr>"

lemma dec_token_print:
  "value_allowed s \<Longrightarrow> dec_token (dec (CHR ''['' # r) s st) = Some (Delim (CHR ''[''), dec r tokenArrayStart (s # st))"
  "value_allowed s \<Longrightarrow> dec_token (dec (CHR ''{'' # r) s st) = Some (Delim (CHR ''{''), dec r tokenObjectStart (s # st))"
  "s \<in> {tokenArrayStart, tokenArrayComma} \<Longrightarrow> dec_token (dec (CHR '']'' # r) s (s' # st)) = Some (Delim (CHR '']''), dec r (value_end s') st)"
  "s \<in> {tokenObjectStart, tokenObjectComma} \<Longrightarrow> dec_token (dec (CHR ''}'' # r) s (s' # st)) = Some (Delim (CHR ''}''), dec r (value_end s') st)"
  "dec_token (dec (CHR '','' # r) tokenArrayComma st) = dec_token (dec r tokenArrayValue st)"
  "dec_token (dec (CHR '','' # r) tokenObjectComma st) = dec_token (dec r tokenObjectKey st)"
  "dec_token (dec (CHR '':'' # r) tokenObjectColon st) = dec_token (dec r tokenObjectValue st)"
  "value_allowed s \<Longrightarrow> dec_token (dec (''null'' @ r) s st) = Some (ValTok, dec r (value_end s) st)"
  "value_allowed s \<Longrightarrow> dec_token (dec (''true'' @ r) s st) = Some (ValTok, dec r (value_end s) st)"
  "value_allowed s \<Longrightarrow> dec_token (dec (''false'' @ r) s st) = Some (ValTok, dec r (value_end s) st)"
  by (auto simp: dec_token.simps [of "dec (c # r) s st" for c r s st] next_tok_print next_tok_print [simplified]
      dec_open_def dec_close_def dec_scalar_def)

lemma dec_token_string:
  "value_allowed s \<Longrightarrow> dec_token (dec (json_string k @ r) s st) = Some (StrTok (unquote (json_escape k)), dec r (value_end s) st)"
  "s \<in> {tokenObjectStart, tokenObjectKey} \<Longrightarrow>
     dec_token (dec (json_string k @ r) s st) = Some (StrTok (unquote (json_escape k)), dec r tokenObjectColon st)"
  by (cases s; simp add: dec_token.simps [of "dec (json_string k @ r) s st" for s] next_tok_print dec_scalar_def)+

lemma dec_token_number:
  "json_wf (JNum n) \<Longrightarrow> number_stops r \<Longrightarrow> value_allowed s \<Longrightarrow> dec_token (dec (n @ r) s st) = Some (ValTok, dec r (value_end s) st)"
  by (simp add: dec_token.simps [of "dec (n @ r) s st"] next_tok_number dec_scalar_def)

text \<open>A separator before a value is skipped; a closing bracket ends the container.\<close>

lemma readValue_same: "dec_token d = dec_token d' \<Longrightarrow> readValue d' = (None, e) \<Longrightarrow> readValue d = (None, e)"
  by (auto simp: readValue_eq split: option.splits)

lemma read_values_step: "readValue d = (None, d') \<Longrightarrow> read_values d = read_values d'"
  by (subst read_values_eq) simp

lemma read_values_close:
  "dec_token d = Some (t, d') \<Longrightarrow> closes t \<Longrightarrow> read_values d = (None, d')"
  by (subst read_values_eq) (auto simp: readValue_eq closes_def)

lemma join_cons: "join_with '','' (map f (x # y # ys)) @ r = f x @ CHR '','' # join_with '','' (map f (y # ys)) @ r"
  by simp

definition reads :: "json \<Rightarrow> bool" where
  "reads j \<longleftrightarrow> (\<forall>s st r. value_allowed s \<longrightarrow> number_stops r \<longrightarrow>
     readValue (dec (json_print j @ r) s st) = (None, dec r (value_end s) st))"

lemma readsD: "reads j \<Longrightarrow> value_allowed s \<Longrightarrow> number_stops r \<Longrightarrow>
    readValue (dec (json_print j @ r) s st) = (None, dec r (value_end s) st)"
  by (simp add: reads_def)

lemma read_array:
  assumes "list_all reads js" "js \<noteq> []" "s0 \<in> {tokenArrayStart, tokenArrayValue}"
  shows "read_values (dec (join_with '','' (map json_print js) @ CHR '']'' # r) s0 (s # st)) = (None, dec r (value_end s) st)"
  using assms
proof (induction js arbitrary: s0 rule: induct_list012)
  case (2 j)
  have "readValue (dec (json_print j @ CHR '']'' # r) s0 (s # st)) = (None, dec (CHR '']'' # r) tokenArrayComma (s # st))"
    using 2 readsD [of j s0 "CHR '']'' # r" "s # st"] by auto
  from read_values_step [OF this] show ?case
    using read_values_close [OF dec_token_print(3) [of tokenArrayComma r s st]] by simp
next
  case (3 j j' js)
  let ?t = "join_with '','' (map json_print (j' # js)) @ CHR '']'' # r"
  have a: "readValue (dec (json_print j @ CHR '','' # ?t) s0 (s # st)) = (None, dec (CHR '','' # ?t) tokenArrayComma (s # st))"
    using "3.prems" readsD [of j s0 "CHR '','' # ?t" "s # st"] by auto
  have b: "read_values (dec ?t tokenArrayValue (s # st)) = (None, dec r (value_end s) st)"
    using "3.IH"(2) [of tokenArrayValue] "3.prems" by simp
  obtain d1 where d1: "readValue (dec ?t tokenArrayValue (s # st)) = (None, d1)" "read_values d1 = (None, dec r (value_end s) st)"
  proof -
    have "\<exists>x. readValue (dec ?t tokenArrayValue (s # st)) = (None, x)"
      using "3.prems" readsD [of j' tokenArrayValue _ "s # st"]
      by (cases js) (auto simp del: join_with.simps(3) simp add: join_with.simps(3) [of "'',''" "json_print j'"])
    then show thesis using b that by (auto simp: read_values_step)
  qed
  have "readValue (dec (CHR '','' # ?t) tokenArrayComma (s # st)) = (None, d1)"
    by (rule readValue_same [OF dec_token_print(5) d1(1)])
  then have "read_values (dec (CHR '','' # ?t) tokenArrayComma (s # st)) = (None, dec r (value_end s) st)"
    using d1(2) by (simp only: read_values_step)
  then show ?case using read_values_step [OF a] by simp
qed simp

text \<open>A member of an object is a key and a value.\<close>

definition member_print :: "bytes \<times> json \<Rightarrow> bytes" where
  "member_print m = json_string (fst m) @ CHR '':'' # json_print (snd m)"

lemma read_member:
  assumes "reads j" "s0 \<in> {tokenObjectStart, tokenObjectKey}" "number_stops r"
  shows "readValue (dec (json_string k @ CHR '':'' # json_print j @ r) s0 st) = (None, dec (CHR '':'' # json_print j @ r) tokenObjectColon st)"
    "readValue (dec (CHR '':'' # json_print j @ r) tokenObjectColon st) = (None, dec r tokenObjectComma st)"
proof -
  show "readValue (dec (json_string k @ CHR '':'' # json_print j @ r) s0 st) = (None, dec (CHR '':'' # json_print j @ r) tokenObjectColon st)"
    using dec_token_string(2) [OF assms(2), of k "CHR '':'' # json_print j @ r" st] by (simp add: readValue_eq)
  have "readValue (dec (json_print j @ r) tokenObjectValue st) = (None, dec r tokenObjectComma st)"
    using readsD [OF assms(1) _ assms(3), of tokenObjectValue st] by simp
  then show "readValue (dec (CHR '':'' # json_print j @ r) tokenObjectColon st) = (None, dec r tokenObjectComma st)"
    by (rule readValue_same [OF dec_token_print(7)])
qed

lemma read_object:
  assumes "list_all (\<lambda>m. reads (snd m)) ms" "ms \<noteq> []" "s0 \<in> {tokenObjectStart, tokenObjectKey}"
  shows "read_values (dec (join_with '','' (map member_print ms) @ CHR ''}'' # r) s0 (s # st)) = (None, dec r (value_end s) st)"
  using assms
proof (induction ms arbitrary: s0 rule: induct_list012)
  case (2 m)
  note a = read_member(1) [of "snd m" s0 "CHR ''}'' # r" "fst m" "s # st"] read_member(2) [of "snd m" s0 "CHR ''}'' # r" "s # st"]
  have "read_values (dec (member_print m @ CHR ''}'' # r) s0 (s # st)) = read_values (dec (CHR ''}'' # r) tokenObjectComma (s # st))"
    using 2 a by (simp add: member_print_def read_values_step)
  then show ?case using read_values_close [OF dec_token_print(4) [of tokenObjectComma r s st]] by simp
next
  case (3 m m' ms)
  let ?t = "join_with '','' (map member_print (m' # ms)) @ CHR ''}'' # r"
  have r: "reads (snd m)" using "3.prems" by simp
  note a = read_member [OF r "3.prems"(3) number_stops_simps(1)]
  have b: "read_values (dec ?t tokenObjectKey (s # st)) = (None, dec r (value_end s) st)"
    using "3.IH"(2) [of tokenObjectKey] "3.prems" by simp
  obtain u where u: "?t = json_string (fst m') @ u" by (cases ms) (auto simp: member_print_def)
  have k: "readValue (dec ?t tokenObjectKey (s # st)) = (None, dec u tokenObjectColon (s # st))"
    using dec_token_string(2) [of tokenObjectKey "fst m'" u "s # st"] unfolding u by (simp add: readValue_eq)
  have "readValue (dec (CHR '','' # ?t) tokenObjectComma (s # st)) = (None, dec u tokenObjectColon (s # st))"
    by (rule readValue_same [OF dec_token_print(6) k])
  then have "read_values (dec (CHR '','' # ?t) tokenObjectComma (s # st)) = (None, dec r (value_end s) st)"
    using b k by (simp only: read_values_step)
  moreover have "read_values (dec (json_string (fst m) @ CHR '':'' # json_print (snd m) @ CHR '','' # ?t) s0 (s # st)) =
      read_values (dec (CHR '','' # ?t) tokenObjectComma (s # st))"
    by (simp only: read_values_step [OF a(1)] read_values_step [OF a(2)])
  moreover have "join_with '','' (map member_print (m # m' # ms)) @ CHR ''}'' # r =
      json_string (fst m) @ CHR '':'' # json_print (snd m) @ CHR '','' # ?t"
    by (simp add: member_print_def [of m])
  ultimately show ?case by (simp only:)
qed simp

lemma json_reads: "json_wf j \<Longrightarrow> reads j"
proof (induction j)
  case JNull
  then show ?case by (simp add: reads_def readValue_eq dec_token_print(8) [simplified])
next
  case (JBool b)
  then show ?case by (cases b) (simp_all add: reads_def readValue_eq dec_token_print(9,10) [simplified])
next
  case (JNum n)
  then show ?case by (auto simp: reads_def readValue_eq dec_token_number simp del: json_wf.simps)
next
  case (JStr k)
  then show ?case by (simp add: reads_def readValue_eq dec_token_string)
next
  case (JArr js)
  then have "list_all reads js" by (auto simp: list_all_iff)
  then have "js \<noteq> [] \<Longrightarrow> read_values (dec (join_with '','' (map json_print js) @ CHR '']'' # r) tokenArrayStart (s # st)) =
      (None, dec r (value_end s) st)" for r s st
    by (simp add: read_array)
  moreover have "read_values (dec (CHR '']'' # r) tokenArrayStart (s # st)) = (None, dec r (value_end s) st)" for r s st
    using read_values_close [OF dec_token_print(3) [of tokenArrayStart r s st]] by simp
  ultimately show ?case by (cases "js = []") (simp_all add: reads_def readValue_eq dec_token_print)
next
  case (JObj ms)
  then have "list_all (\<lambda>m. reads (snd m)) ms" by (fastforce simp: list_all_iff)
  then have "ms \<noteq> [] \<Longrightarrow> read_values (dec (join_with '','' (map member_print ms) @ CHR ''}'' # r) tokenObjectStart (s # st)) =
      (None, dec r (value_end s) st)" for r s st
    by (simp add: read_object)
  moreover have "(\<lambda>(k, j). json_string k @ '':'' @ json_print j) = member_print"
    by (auto simp: fun_eq_iff member_print_def)
  moreover have "read_values (dec (CHR ''}'' # r) tokenObjectStart (s # st)) = (None, dec r (value_end s) st)" for r s st
    using read_values_close [OF dec_token_print(4) [of tokenObjectStart r s st]] by simp
  ultimately show ?case by (cases "ms = []") (simp_all add: reads_def readValue_eq dec_token_print)
qed

section \<open>Reading a written map\<close>

abbreviation entry_of :: "bytes \<times> json \<Rightarrow> om_entry" where
  "entry_of m \<equiv> \<lparr>om_Key = fst m, om_Value = json_print (snd m)\<rparr>"

lemma um_loop_same: "dec_token d = dec_token d' \<Longrightarrow> um_loop n es d = um_loop n es d'"
  by (cases n) simp_all

lemma um_loop_member:
  assumes "valid_utf8 k" "json_wf j" "s0 \<in> {tokenObjectStart, tokenObjectKey}" "number_stops r"
  shows "um_loop (Suc n) es (dec (json_string k @ CHR '':'' # json_print j @ r) s0 st) =
    um_loop n (es @ [entry_of (k, j)]) (dec r tokenObjectComma st)"
proof -
  note v = read_member(2) [OF json_reads [OF assms(2)] assms(3,4), of st]
  have "take (length (CHR '':'' # json_print j @ r) - length r) (CHR '':'' # json_print j @ r) = CHR '':'' # json_print j"
    by simp
  then have p: "om_parseValue (take (length (CHR '':'' # json_print j @ r) - length r) (CHR '':'' # json_print j @ r)) = json_print j"
    by (simp only: om_parseValue_def) simp
  show ?thesis
    using dec_token_string(2) [OF assms(3), of k "CHR '':'' # json_print j @ r" st] v p
    by (simp add: unquote_escape [OF assms(1)] del: length_append length_Cons)
qed

lemma um_loop_entries:
  assumes "list_all (\<lambda>m. valid_utf8 (fst m) \<and> json_wf (snd m)) ms" "ms \<noteq> []" "s0 \<in> {tokenObjectStart, tokenObjectKey}"
    "length ms < n"
  shows "um_loop n es (dec (join_with '','' (map member_print ms) @ ''}'') s0 [tokenTopValue]) = Some (Some (es @ map entry_of ms), None)"
  using assms
proof (induction ms arbitrary: s0 es n rule: induct_list012)
  case (2 m)
  obtain n' where n: "n = Suc (Suc n')" using "2.prems"(4) by (cases n; cases "n - 1") auto
  have "um_loop n es (dec (json_string (fst m) @ CHR '':'' # json_print (snd m) @ ''}'') s0 [tokenTopValue]) =
      um_loop (Suc n') (es @ [entry_of m]) (dec ''}'' tokenObjectComma [tokenTopValue])"
    using um_loop_member [of "fst m" "snd m" s0 "''}''"] "2.prems" by (simp add: n del: um_loop.simps)
  then show ?case using dec_token_print(4) [of tokenObjectComma "[]" tokenTopValue "[]"] by (simp add: member_print_def)
next
  case (3 m m' ms)
  obtain n' where n: "n = Suc n'" using "3.prems"(4) by (cases n) auto
  let ?t = "join_with '','' (map member_print (m' # ms)) @ ''}''"
  have "um_loop n es (dec (json_string (fst m) @ CHR '':'' # json_print (snd m) @ CHR '','' # ?t) s0 [tokenTopValue]) =
      um_loop n' (es @ [entry_of m]) (dec (CHR '','' # ?t) tokenObjectComma [tokenTopValue])"
    using um_loop_member [of "fst m" "snd m" s0 "CHR '','' # ?t"] "3.prems" by (simp add: n del: um_loop.simps join_with.simps list.map)
  also have "\<dots> = um_loop n' (es @ [entry_of m]) (dec ?t tokenObjectKey [tokenTopValue])"
    by (rule um_loop_same [OF dec_token_print(6)])
  also have "\<dots> = Some (Some ((es @ [entry_of m]) @ map entry_of (m' # ms)), None)"
    using "3.prems" n by (intro "3.IH"(2)) simp_all
  moreover have "join_with '','' (map member_print (m # m' # ms)) @ ''}'' =
      json_string (fst m) @ CHR '':'' # json_print (snd m) @ CHR '','' # ?t"
    by (simp add: member_print_def [of m])
  ultimately show ?case by simp
qed simp

lemma om_roundtrip_entries:
  assumes "list_all (\<lambda>m. valid_utf8 (fst m) \<and> json_wf (snd m)) ms"
  shows "OrderedMap_UnmarshalJSON (OrderedMap_MarshalJSON (Some (map entry_of ms))) om = Some (Some (map entry_of ms), None)"
proof -
  let ?r = "join_with '','' (map member_print ms) @ ''}''"
  have c: "om_entry_text \<circ> entry_of = member_print" by (simp add: fun_eq_iff om_entry_text_def member_print_def)
  have "OrderedMap_MarshalJSON (Some (map entry_of ms)) = CHR ''{'' # ?r"
  proof -
    have "OrderedMap_MarshalJSON (Some es) = CHR ''{'' # join_with '','' (map om_entry_text es) @ ''}''" for es
      by (cases es) (simp_all add: OrderedMap_MarshalJSON_def)
    then show ?thesis by (simp add: c)
  qed
  moreover have "dec_token (dec (CHR ''{'' # ?r) tokenTopValue []) = Some (Delim (CHR ''{''), dec ?r tokenObjectStart [tokenTopValue])"
    by (rule dec_token_print(2)) simp
  moreover have "um_loop (Suc (length ?r)) [] (dec ?r tokenObjectStart [tokenTopValue]) = Some (Some (map entry_of ms), None)"
  proof (cases "ms = []")
    case True
    then show ?thesis using dec_token_print(4) [of tokenObjectStart "[]" tokenTopValue "[]"] by simp
  next
    case False
    have "length xs \<le> Suc (length (join_with '','' (map member_print xs)))" for xs :: "(bytes \<times> json) list"
      by (induction xs rule: induct_list012) (simp_all add: member_print_def)
    then have "length ms < Suc (length ?r)" by (simp add: le_imp_less_Suc)
    with assms False show ?thesis using um_loop_entries [of ms tokenObjectStart "Suc (length ?r)" "[]"] by simp
  qed
  ultimately show ?thesis by (simp add: OrderedMap_UnmarshalJSON_def del: um_loop.simps)
qed

text \<open>
  Property C36. Reading a written map gives the same map back, with its keys in the same order: for
  all keys that are valid UTF-8 and all values that are compact JSON texts.
\<close>

theorem omap_roundtrip:
  assumes "list_all (\<lambda>m. valid_utf8 (fst m) \<and> json_wf (snd m)) kjs"
    and "es = map (\<lambda>m. \<lparr>om_Key = fst m, om_Value = json_print (snd m)\<rparr>) kjs"
  shows "OrderedMap_UnmarshalJSON (OrderedMap_MarshalJSON (Some es)) om = Some (Some es, None)"
  unfolding assms(2) by (rule om_roundtrip_entries [OF assms(1)])

theorem omap_roundtrip_witness:
  \<open>OrderedMap_UnmarshalJSON (OrderedMap_MarshalJSON (Some [\<lparr>om_Key = ''b'', om_Value = ''[1.5,null]''\<rparr>,
     \<lparr>om_Key = ''a'', om_Value = ''{"x":"y"}''\<rparr>])) None =
   Some (Some [\<lparr>om_Key = ''b'', om_Value = ''[1.5,null]''\<rparr>, \<lparr>om_Key = ''a'', om_Value = ''{"x":"y"}''\<rparr>], None)\<close>
proof (rule omap_roundtrip)
  let ?kjs = "[(''b'', JArr [JNum ''1.5'', JNull]), (''a'', JObj [(''x'', JStr ''y'')])]"
  show "list_all (\<lambda>m. valid_utf8 (fst m) \<and> json_wf (snd m)) ?kjs" by code_simp
  show \<open>[\<lparr>om_Key = ''b'', om_Value = ''[1.5,null]''\<rparr>, \<lparr>om_Key = ''a'', om_Value = ''{"x":"y"}''\<rparr>] =
      map (\<lambda>m. \<lparr>om_Key = fst m, om_Value = json_print (snd m)\<rparr>) ?kjs\<close> by code_simp
qed

end
