(* ===== verification/Rest.thy ===== *)
theory Rest
  imports Omap Clean Session Vapor
begin

text \<open>
  \<open>internal/rest_impl/serve.go\<close>: the REST server. It keeps its sessions in a vapor, so the
  elements of the vapor are the session systems of \<open>Session\<close>. The first half holds the set-up
  and the routing, the second half the requests and \<open>Close\<close> as goroutines over the two
  components: every step is one call of a method of the vapor or of a session.
\<close>

section \<open>Options\<close>

record rest_options =
  ro_Timeout :: int
  ro_DisableSwaggerUI :: bool
  ro_OpenAPIServerDescription :: bytes
  ro_Session :: session_opts

text \<open>Durations are nanoseconds.\<close>

definition minTimeout :: int where
  "minTimeout = 60 * 1000000000"

definition rest_SetDefaults :: "rest_options \<Rightarrow> rest_options" where
  "rest_SetDefaults opt = (if ro_Timeout opt < minTimeout then opt\<lparr>ro_Timeout := minTimeout\<rparr> else opt)"

section \<open>The description of the interface\<close>

text \<open>
  What \<open>json.Marshal\<close> does to the bytes a \<open>MarshalJSON\<close> method returns: they must be one JSON
  value; space outside strings is dropped and characters special in HTML are escaped.
\<close>

fun compact_text :: "bool \<Rightarrow> bytes \<Rightarrow> bytes" where
  "compact_text quoted [] = []"
| "compact_text quoted (c # cs) =
     (if c = CHR ''<'' \<or> c = CHR ''>'' \<or> c = CHR ''&'' then escape_u (byte c) @ compact_text quoted cs
      else if c = CHR 0xE2 \<and> take 2 cs = [CHR 0x80, CHR 0xA8] then escape_u 0x2028 @ compact_text quoted (drop 2 cs)
      else if c = CHR 0xE2 \<and> take 2 cs = [CHR 0x80, CHR 0xA9] then escape_u 0x2029 @ compact_text quoted (drop 2 cs)
      else if quoted \<and> c = backslash then c # take 1 cs @ compact_text True (drop 1 cs)
      else if c = dquote then c # compact_text (\<not> quoted) cs
      else if \<not> quoted \<and> is_space c then compact_text quoted cs
      else c # compact_text quoted cs)"

definition json_compact :: "bytes \<Rightarrow> bytes option" where
  "json_compact s = (if json_unmarshal s = None then None else Some (compact_text False s))"

text \<open>The only value of \<open>servers\<close>; the keys of a Go map are written in order.\<close>

definition server_spec :: "bytes \<Rightarrow> bytes \<Rightarrow> bytes" where
  \<open>server_spec server description =
     ''[{'' @ (if description = [] then [] else ''"description":'' @ json_string description @ '','') @
     ''"url":'' @ json_string server @ ''}]''\<close>

text \<open>\<open>Unmarshal\<close> hands the method the bytes of the value, without the space around it.\<close>

definition value_text :: "bytes \<Rightarrow> bytes" where
  "value_text s =
     (case parse_value s PValue [] of
        None \<Rightarrow> []
      | Some (j, r) \<Rightarrow> take (length (skip_ws s) - length r) (skip_ws s))"

definition getSpecWithServer :: "bytes \<Rightarrow> bytes \<Rightarrow> bytes \<Rightarrow> bytes \<times> go_error option" where
  "getSpecWithServer spec server description =
     (let serverBytes = server_spec server description;
          failed = (\<lambda>err. (spec, Some (Errorf ''failed to parse openapi spec: '' err [])))
      in if json_unmarshal spec = None then failed token_error
         else (case OrderedMap_UnmarshalJSON (value_text spec) None of
             None \<Rightarrow> failed token_error
           | Some (parsed, Some err) \<Rightarrow> failed err
           | Some (None, None) \<Rightarrow> failed token_error
           | Some (Some es, None) \<Rightarrow>
               (case json_compact (OrderedMap_MarshalJSON (OrderedMap_Set ''servers'' serverBytes (Some es))) of
                  None \<Rightarrow> (spec, Some (Errorf ''failed to marshal openapi spec (shouldn't happen): '' token_error []))
                | Some result \<Rightarrow> (result, None))))"

section \<open>Routing\<close>

datatype rest_route =
    RouteNew | RouteStatus | RouteInput | RouteCloseInput | RouteCancel | RouteSpec | RouteDocs

text \<open>A pattern of \<open>ServeMux\<close>: an exact path, a path and one more segment, or a subtree.\<close>

datatype mux_pattern = MuxExact bytes | MuxSegment bytes | MuxTree bytes

type_synonym mux = "(bytes option \<times> mux_pattern \<times> rest_route) list"

fun mux_match :: "mux_pattern \<Rightarrow> bytes \<Rightarrow> bytes option" where
  "mux_match (MuxExact p) path = (if path = p then Some [] else None)"
| "mux_match (MuxSegment p) path =
     (if prefix p path \<and> length p < length path \<and> slash \<notin> set (drop (length p) path)
      then Some (drop (length p) path) else None)"
| "mux_match (MuxTree p) path = (if prefix p path then Some [] else None)"

definition method_ok :: "bytes option \<Rightarrow> bytes \<Rightarrow> bool" where
  "method_ok m method = (case m of None \<Rightarrow> True | Some m \<Rightarrow> m = method \<or> (m = ''GET'' \<and> method = ''HEAD''))"

datatype mux_result = MuxHandler rest_route bytes | MuxRedirect | MuxNotFound | MuxMethodNotAllowed

text \<open>
  \<open>ServeMux.ServeHTTP\<close>: a path that is not clean, or is a subtree without its slash, redirects.
  The patterns of the server never overlap, so the first that matches is the one.
\<close>

definition mux_find :: "mux \<Rightarrow> bytes \<Rightarrow> bytes \<Rightarrow> mux_result" where
  "mux_find m method path =
     (let hits = List.map_filter (\<lambda>(mt, p, r). map_option (\<lambda>x. (mt, r, x)) (mux_match p path)) m
      in if Clean path \<noteq> path then MuxRedirect
         else (case find (\<lambda>(mt, r, x). method_ok mt method) hits of
             Some (mt, r, x) \<Rightarrow> MuxHandler r x
           | None \<Rightarrow>
               if list_ex (\<lambda>(mt, p, r). p = MuxTree (path @ [slash]) \<and> method_ok mt method) m then MuxRedirect
               else if hits = [] then MuxNotFound else MuxMethodNotAllowed))"

section \<open>The server\<close>

record rest_server =
  rv_inited :: bool
  rv_context :: ctx
  rv_mux :: mux
  rv_spec :: bytes
  rv_path :: bytes
  rv_options :: rest_options

definition rest_NewServer :: "bytes \<Rightarrow> rest_options \<Rightarrow> rest_server" where
  "rest_NewServer path options = \<lparr>rv_inited = False, rv_context = None, rv_mux = [], rv_spec = [],
     rv_path = path, rv_options = options\<rparr>"

definition rest_mux_ops :: "bytes \<Rightarrow> mux" where
  [simp]: "rest_mux_ops base =
     [(Some ''POST'', MuxExact (base @ ''new''), RouteNew),
      (Some ''GET'', MuxSegment (base @ ''status/''), RouteStatus),
      (Some ''POST'', MuxSegment (base @ ''input/''), RouteInput),
      (Some ''POST'', MuxSegment (base @ ''closeInput/''), RouteCloseInput),
      (Some ''POST'', MuxSegment (base @ ''cancel/''), RouteCancel)]"

definition rest_mux :: "bytes \<Rightarrow> bool \<Rightarrow> mux" where
  "rest_mux base disable_docs =
     rest_mux_ops base @ [(Some ''GET'', MuxExact (base @ ''openapi.json''), RouteSpec)] @
     (if disable_docs then [] else [(None, MuxTree (base @ ''docs/''), RouteDocs)])"

text \<open>
  A description that cannot be read is a panic (\<open>True\<close>), in the middle of the function that
  \<open>sync.Once\<close> calls; it is not called again.
\<close>

definition rest_doInit :: "bytes \<Rightarrow> rest_server \<Rightarrow> rest_server \<times> bool" where
  "rest_doInit specJSON server =
     (if rv_inited server then (server, False)
      else (let options = rest_SetDefaults (rv_options server); base = Clean (rv_path server);
                server = server\<lparr>rv_inited := True, rv_context := None, rv_options := options, rv_mux := rest_mux_ops base\<rparr>
            in case getSpecWithServer specJSON base (ro_OpenAPIServerDescription options) of
                 (_, Some err) \<Rightarrow> (server, True)
               | (spec, None) \<Rightarrow>
                   (server\<lparr>rv_mux := rest_mux base (ro_DisableSwaggerUI options), rv_spec := spec\<rparr>, False)))"

section \<open>Requests\<close>

record rest_request =
  rq_method :: bytes
  rq_path :: bytes
  rq_upgrade :: bool
  rq_body :: "bytes list"
  rq_fails :: bool

text \<open>
  The body arrives in pieces, and then ends or fails. An answer is a status code and a body; the
  pages under \<open>docs/\<close> are third-party.
\<close>

datatype rest_response = Response nat bytes | DocsPage

definition http_Error :: "bytes \<Rightarrow> nat \<Rightarrow> rest_response" where
  "http_Error txt code = Response code (txt @ [newline])"

datatype rest_op = OpStatus | OpInput "bytes list" bool | OpCloseInput | OpCancel

text \<open>
  Where the goroutine of a request is: before, in and after \<open>GetNew\<close> for a new process (with the
  rounds of \<open>newEntry\<close> so far); before and in \<open>Get\<close>; at its operation on the session; in a
  \<open>Write\<close>; in \<open>CloseInput\<close> or \<open>CloseWith\<close> as client \<open>i\<close> of session \<open>e\<close>; or done.
\<close>

datatype rest_req =
    NewBegin call_message | NewTry call_message nat
  | NewInit call_message bytes nat | NewStart call_message bytes nat
  | Find rest_op bytes | Lookup rest_op bytes | InitFound rest_op nat | Operate rest_op nat
  | Writing "bytes list" bool nat | ClosingInput nat nat | Closing nat nat
  | Answered rest_response

definition with_id :: "bytes \<Rightarrow> rest_op \<Rightarrow> rest_req" where
  "with_id key op = (if key = [] then Answered (http_Error ''did not provide id'' 400) else Find op key)"

definition rest_handle :: "rest_server \<Rightarrow> rest_request \<Rightarrow> rest_route \<Rightarrow> bytes \<Rightarrow> rest_req" where
  "rest_handle server r route key =
     (case route of
        RouteNew \<Rightarrow>
          (case body_call (concat (rq_body r)) of
             None \<Rightarrow> Answered (http_Error ''failed to decode call message'' 400)
           | Some call \<Rightarrow> NewBegin call)
      | RouteStatus \<Rightarrow> with_id key OpStatus
      | RouteInput \<Rightarrow> with_id key (OpInput (rq_body r) (rq_fails r))
      | RouteCloseInput \<Rightarrow> with_id key OpCloseInput
      | RouteCancel \<Rightarrow> with_id key OpCancel
      | RouteSpec \<Rightarrow> Answered (Response 200 (rv_spec server))
      | RouteDocs \<Rightarrow> Answered DocsPage)"

definition rest_ServeHTTP :: "rest_server \<Rightarrow> rest_request \<Rightarrow> rest_req" where
  "rest_ServeHTTP server r =
     (if rq_upgrade r then Answered (http_Error ''Not Found'' 404)
      else if rv_context server \<noteq> None then Answered (http_Error ''Service Unavailable'' 503)
      else (case mux_find (rv_mux server) (rq_method r) (rq_path r) of
          MuxHandler route key \<Rightarrow> rest_handle server r route key
        | MuxRedirect \<Rightarrow> Answered (Response 301 [])
        | MuxNotFound \<Rightarrow> Answered (http_Error ''404 page not found'' 404)
        | MuxMethodNotAllowed \<Rightarrow> Answered (http_Error ''Method Not Allowed'' 405)))"

end
