(* ===== verification/RestSystem.thy ===== *)
theory RestSystem
  imports Rest
begin

text \<open>
  The REST server at work: the goroutines of requests and of \<open>Close\<close>, over one vapor whose
  elements are session systems. Every step is a step of the vapor, a step of one session, or both.
\<close>

section \<open>State\<close>

text \<open>What does not change: the cache and buffer packages, \<open>json.Marshal\<close> on values, the server.\<close>

record ('c, 'v, 'rb, 'lb) rest_env =
  re_cache :: "'c cache_ops"
  re_bufs :: "('rb, 'lb) buf_ops"
  re_marshal :: "'v \<Rightarrow> marshalled"
  re_server :: rest_server

datatype close_pc = CloseEvict nat | CloseVapor | CloseDone

text \<open>
  \<open>rx_in_f\<close> has, for each worker of \<open>EvictAfter\<close> that called the server's function, the session
  and the client number of its \<open>CloseWith\<close>.
\<close>

record ('c, 'v, 'rb, 'lb) rest_sys =
  rx_v :: "('c, ('v, 'rb, 'lb) sess_sys) vap_sys"
  rx_reqs :: "rest_req list"
  rx_in_f :: "nat \<Rightarrow> (nat \<times> nat) option"
  rx_closes :: "close_pc list"

definition errServerClose :: go_error where
  "errServerClose = Sentinel ''rest_impl.errServerClose'' ''server closing''"

text \<open>The functions \<open>doInit\<close> sets on the vapor; \<open>Finalize\<close> is \<open>rest_callback\<close> below.\<close>

definition sess_zero :: "('rb, 'lb) buf_ops \<Rightarrow> ('v, 'rb, 'lb) sess_sys" where
  "sess_zero bufs = \<lparr>sy_s = session_zero bufs, sy_run = RunNone, sy_outcome = None, sy_clients = [],
     sy_gets = 0, sy_dos = 0\<rparr>"

definition rest_Initialize :: "rest_server \<Rightarrow> ('v, 'rb, 'lb) sess_sys \<Rightarrow> ('v, 'rb, 'lb) sess_sys" where
  "rest_Initialize server s = s\<lparr>sy_s := session_Init (rv_context server) (ro_Session (rv_options server)) (sy_s s)\<rparr>"

definition rest_conf :: "('c, 'v, 'rb, 'lb) rest_env \<Rightarrow> ('v, 'rb, 'lb) sess_sys vap_conf" where
  "rest_conf env = \<lparr>vc_zero = sess_zero (re_bufs env), vc_Initialize = Some (rest_Initialize (re_server env)),
     vc_Finalize = True\<rparr>"

section \<open>Steps of the components\<close>

definition rx_vap :: "('c, 'v, 'rb, 'lb) rest_env \<Rightarrow> ('v, 'rb, 'lb) sess_sys vap_event \<Rightarrow>
    ('c, 'v, 'rb, 'lb) rest_sys \<Rightarrow> ('c, 'v, 'rb, 'lb) rest_sys option" where
  "rx_vap env ev y = map_option (\<lambda>v. y\<lparr>rx_v := v\<rparr>) (vap_step (re_cache env) (rest_conf env) ev (rx_v y))"

definition rx_session :: "nat \<Rightarrow> ('c, 'v, 'rb, 'lb) rest_sys \<Rightarrow> ('v, 'rb, 'lb) sess_sys" where
  "rx_session e y = en_value (vp_heap (vy_v (rx_v y)) ! e)"

definition rx_sess :: "('c, 'v, 'rb, 'lb) rest_env \<Rightarrow> nat \<Rightarrow> 'v sess_event \<Rightarrow>
    ('c, 'v, 'rb, 'lb) rest_sys \<Rightarrow> ('c, 'v, 'rb, 'lb) rest_sys option" where
  "rx_sess env e ev y =
     (case sess_step (re_bufs env) ev (rx_session e y) of
        None \<Rightarrow> None
      | Some s \<Rightarrow> rx_vap env (VMutate e s) y)"

text \<open>A goroutine calls \<open>CloseWith\<close> or \<open>CloseInput\<close>: it becomes a new client of the session.\<close>

definition rx_call :: "('c, 'v, 'rb, 'lb) rest_env \<Rightarrow> nat \<Rightarrow> (nat \<Rightarrow> 'v sess_event) \<Rightarrow>
    ('c, 'v, 'rb, 'lb) rest_sys \<Rightarrow> (nat \<times> ('c, 'v, 'rb, 'lb) rest_sys) option" where
  "rx_call env e mk y =
     (let s = rx_session e y; i = length (sy_clients s)
      in case sess_step (re_bufs env) (mk i) (s\<lparr>sy_clients := sy_clients s @ [Idle]\<rparr>) of
           None \<Rightarrow> None
         | Some s' \<Rightarrow> map_option (Pair i) (rx_vap env (VMutate e s') y))"

definition set_req :: "nat \<Rightarrow> rest_req \<Rightarrow> ('c, 'v, 'rb, 'lb) rest_sys \<Rightarrow> ('c, 'v, 'rb, 'lb) rest_sys" where
  "set_req q pc y = y\<lparr>rx_reqs := (rx_reqs y)[q := pc]\<rparr>"

definition set_close :: "nat \<Rightarrow> close_pc \<Rightarrow> ('c, 'v, 'rb, 'lb) rest_sys \<Rightarrow> ('c, 'v, 'rb, 'lb) rest_sys" where
  "set_close c pc y = y\<lparr>rx_closes := (rx_closes y)[c := pc]\<rparr>"

section \<open>The handlers\<close>

text \<open>One round of \<open>newEntry\<close> for request \<open>q\<close>, with the id that \<open>uuid.NewRandom\<close> gave.\<close>

definition new_failed :: rest_req where
  "new_failed = Answered (http_Error ''failed to create new process'' 500)"

definition serveNew_try :: "('c, 'v, 'rb, 'lb) rest_env \<Rightarrow> nat \<Rightarrow> bytes \<Rightarrow>
    ('c, 'v, 'rb, 'lb) rest_sys \<Rightarrow> ('c, 'v, 'rb, 'lb) rest_sys option" where
  "serveNew_try env q key y =
     (case rx_reqs y ! q of
        NewTry call n \<Rightarrow>
          if n < maxNewIDCalls then
            (let d = ro_Timeout (rv_options (re_server env));
                 r = snd (newEntry_try (re_cache env) (rest_conf env) (vy_now (rx_v y)) key d (vy_v (rx_v y)))
             in map_option (set_req q (case r of
                    TryAgain \<Rightarrow> NewTry call (Suc n)
                  | TryStopped \<Rightarrow> new_failed
                  | TryGot e \<Rightarrow> NewInit call key e))
                  (rx_vap env (VTry key d) y))
          else None
      | _ \<Rightarrow> None)"

text \<open>The other steps of \<open>serveNew\<close>: the answer does not depend on what \<open>Start\<close> returns.\<close>

definition serveNew_step :: "('c, 'v, 'rb, 'lb) rest_env \<Rightarrow> nat \<Rightarrow>
    ('c, 'v, 'rb, 'lb) rest_sys \<Rightarrow> ('c, 'v, 'rb, 'lb) rest_sys option" where
  "serveNew_step env q y =
     (case rx_reqs y ! q of
        NewBegin call \<Rightarrow> map_option (set_req q (NewTry call 0)) (rx_vap env VStart y)
      | NewTry call n \<Rightarrow> if n < maxNewIDCalls then None else Some (set_req q new_failed y)
      | NewInit call key e \<Rightarrow> map_option (set_req q (NewStart call key e)) (rx_vap env (VInitItem e) y)
      | NewStart call key e \<Rightarrow>
          map_option (set_req q (Answered (Response 200 (json_string key @ [newline])))) (rx_sess env e (EStart call) y)
      | _ \<Rightarrow> None)"

text \<open>\<open>vapor.Get\<close>, which all other handlers begin with.\<close>

definition serve_get_step :: "('c, 'v, 'rb, 'lb) rest_env \<Rightarrow> nat \<Rightarrow>
    ('c, 'v, 'rb, 'lb) rest_sys \<Rightarrow> ('c, 'v, 'rb, 'lb) rest_sys option" where
  "serve_get_step env q y =
     (case rx_reqs y ! q of
        Find op key \<Rightarrow> map_option (set_req q (Lookup op key)) (rx_vap env VStart y)
      | Lookup op key \<Rightarrow>
          map_option (set_req q
              (case snd (tc_Get (re_cache env) True (vy_now (rx_v y)) key (vp_cache (vy_v (rx_v y)))) of
                 None \<Rightarrow> Answered (http_Error ''process not found'' 404)
               | Some e \<Rightarrow> InitFound op e))
            (rx_vap env (VLookup key) y)
      | InitFound op e \<Rightarrow> map_option (set_req q (Operate op e)) (rx_vap env (VInitItem e) y)
      | _ \<Rightarrow> None)"

definition serveStatus_step :: "('c, 'v, 'rb, 'lb) rest_env \<Rightarrow> nat \<Rightarrow> nat \<Rightarrow>
    ('c, 'v, 'rb, 'lb) rest_sys \<Rightarrow> ('c, 'v, 'rb, 'lb) rest_sys option" where
  "serveStatus_step env q e y =
     (let st = snd (session_Status (re_bufs env) (sy_s (rx_session e y)))
      in map_option (set_req q (Answered (Response 200 (Status_MarshalJSON (re_marshal env) st @ [newline]))))
           (rx_sess env e EStatus y))"

text \<open>\<open>io.Copy\<close>: the pieces of the body are written one after another until one fails.\<close>

definition copy_failed :: rest_req where
  "copy_failed = Answered (http_Error ''error copying data to process'' 500)"

definition copied :: "bytes list \<Rightarrow> bool \<Rightarrow> nat \<Rightarrow> write_result \<Rightarrow> rest_req" where
  "copied cs fails e r =
     (case r of
        WriteBlocks \<Rightarrow> Writing cs fails e
      | WriteDone n None \<Rightarrow> Operate (OpInput cs fails) e
      | WriteDone n (Some err) \<Rightarrow> copy_failed)"

definition serveInput_step :: "('c, 'v, 'rb, 'lb) rest_env \<Rightarrow> nat \<Rightarrow> bytes list \<Rightarrow> bool \<Rightarrow> nat \<Rightarrow>
    ('c, 'v, 'rb, 'lb) rest_sys \<Rightarrow> ('c, 'v, 'rb, 'lb) rest_sys option" where
  "serveInput_step env q chunks fails e y =
     (case chunks of
        [] \<Rightarrow> Some (set_req q (if fails then copy_failed else Answered (Response 200 ''input sent'')) y)
      | c # cs \<Rightarrow>
          if c = [] then Some (set_req q (Operate (OpInput cs fails) e) y)
          else (case session_Write c (sy_s (rx_session e y)) of
              None \<Rightarrow> None
            | Some (r, _) \<Rightarrow> map_option (set_req q (copied cs fails e r)) (rx_sess env e (EWrite c) y)))"

definition serveInput_wait :: "('c, 'v, 'rb, 'lb) rest_env \<Rightarrow> nat \<Rightarrow> bytes list \<Rightarrow> bool \<Rightarrow> nat \<Rightarrow>
    ('c, 'v, 'rb, 'lb) rest_sys \<Rightarrow> ('c, 'v, 'rb, 'lb) rest_sys option" where
  "serveInput_wait env q cs fails e y =
     map_option (set_req q (copied cs fails e (fst (session_Write_end (sy_s (rx_session e y))))))
       (rx_sess env e EWriteEnd y)"

definition client_at :: "nat \<Rightarrow> nat \<Rightarrow> ('c, 'v, 'rb, 'lb) rest_sys \<Rightarrow> client_pc" where
  "client_at e i y = sy_clients (rx_session e y) ! i"

definition serve_op_step :: "('c, 'v, 'rb, 'lb) rest_env \<Rightarrow> nat \<Rightarrow>
    ('c, 'v, 'rb, 'lb) rest_sys \<Rightarrow> ('c, 'v, 'rb, 'lb) rest_sys option" where
  "serve_op_step env q y =
     (case rx_reqs y ! q of
        Operate OpStatus e \<Rightarrow> serveStatus_step env q e y
      | Operate (OpInput chunks fails) e \<Rightarrow> serveInput_step env q chunks fails e y
      | Writing cs fails e \<Rightarrow> serveInput_wait env q cs fails e y
      | Operate OpCloseInput e \<Rightarrow> map_option (\<lambda>(i, y). set_req q (ClosingInput e i) y) (rx_call env e ECloseInput y)
      | ClosingInput e i \<Rightarrow>
          if client_at e i y = CI_returned then
            Some (set_req q (if snd (session_CloseInput (sy_s (rx_session e y))) \<noteq> None
                then Answered (http_Error ''error closing input'' 500)
                else Answered (Response 200 ''input closed'')) y)
          else None
      | Operate OpCancel e \<Rightarrow>
          map_option (\<lambda>(i, y). set_req q (Closing e i) y) (rx_call env e (\<lambda>i. ECloseWith i ErrCancelClientRequest) y)
      | Closing e i \<Rightarrow>
          if client_at e i y = CW_returned then Some (set_req q (Answered (Response 200 ''process cancelled'')) y) else None
      | _ \<Rightarrow> None)"

definition rest_req_step :: "('c, 'v, 'rb, 'lb) rest_env \<Rightarrow> nat \<Rightarrow>
    ('c, 'v, 'rb, 'lb) rest_sys \<Rightarrow> ('c, 'v, 'rb, 'lb) rest_sys option" where
  "rest_req_step env q y =
     (case rx_reqs y ! q of
        NewBegin _ \<Rightarrow> serveNew_step env q y
      | NewTry _ _ \<Rightarrow> serveNew_step env q y
      | NewInit _ _ _ \<Rightarrow> serveNew_step env q y
      | NewStart _ _ _ \<Rightarrow> serveNew_step env q y
      | Find _ _ \<Rightarrow> serve_get_step env q y
      | Lookup _ _ \<Rightarrow> serve_get_step env q y
      | InitFound _ _ \<Rightarrow> serve_get_step env q y
      | _ \<Rightarrow> serve_op_step env q y)"

section \<open>Evictions and Close\<close>

text \<open>An eviction callback of the vapor, with the server's \<open>Finalize\<close>: only expiry closes.\<close>

definition rest_callback :: "('c, 'v, 'rb, 'lb) rest_env \<Rightarrow> nat \<Rightarrow>
    ('c, 'v, 'rb, 'lb) rest_sys \<Rightarrow> ('c, 'v, 'rb, 'lb) rest_sys option" where
  "rest_callback env n y =
     (if n < length (vy_pending (rx_v y)) then
        (let (er, e) = vy_pending (rx_v y) ! n
         in case rx_vap env (VCallback n) y of
              None \<Rightarrow> None
            | Some y \<Rightarrow>
                if finalize_reason er = Some FinalizeReasonExpired
                then map_option snd (rx_call env e (\<lambda>i. ECloseWith i ErrCancelTimeout) y) else Some y)
      else None)"

text \<open>A worker of \<open>EvictAfter\<close>; the function it calls is \<open>CloseWith(errServerClose)\<close>.\<close>

definition rest_worker :: "('c, 'v, 'rb, 'lb) rest_env \<Rightarrow> nat \<Rightarrow>
    ('c, 'v, 'rb, 'lb) rest_sys \<Rightarrow> ('c, 'v, 'rb, 'lb) rest_sys option" where
  "rest_worker env j y =
     (if j < length (vy_workers (rx_v y)) then
        (case vy_workers (rx_v y) ! j of
           W_call k e \<Rightarrow>
             (case rx_vap env (VWorker j) y of
                None \<Rightarrow> None
              | Some y \<Rightarrow> map_option (\<lambda>(i, y). y\<lparr>rx_in_f := (rx_in_f y)(j \<mapsto> (e, i))\<rparr>)
                  (rx_call env e (\<lambda>i. ECloseWith i errServerClose) y))
         | W_in_f k \<Rightarrow>
             (case rx_in_f y j of
                None \<Rightarrow> None
              | Some (e, i) \<Rightarrow> if client_at e i y = CW_returned then rx_vap env (VWorker j) y else None)
         | _ \<Rightarrow> rx_vap env (VWorker j) y)
      else None)"

definition rest_Close :: "('c, 'v, 'rb, 'lb) rest_env \<Rightarrow>
    ('c, 'v, 'rb, 'lb) rest_sys \<Rightarrow> ('c, 'v, 'rb, 'lb) rest_sys option" where
  "rest_Close env y =
     map_option (\<lambda>z. z\<lparr>rx_closes := rx_closes z @ [CloseEvict (length (vy_evicts (rx_v y)))]\<rparr>)
       (rx_vap env (VEvictAfter True) y)"

definition rest_Close_step :: "('c, 'v, 'rb, 'lb) rest_env \<Rightarrow> nat \<Rightarrow>
    ('c, 'v, 'rb, 'lb) rest_sys \<Rightarrow> ('c, 'v, 'rb, 'lb) rest_sys option" where
  "rest_Close_step env c y =
     (if c < length (rx_closes y) then
        (case rx_closes y ! c of
           CloseEvict i \<Rightarrow> if vy_evicts (rx_v y) ! i = EA_returned then Some (set_close c CloseVapor y) else None
         | CloseVapor \<Rightarrow> map_option (set_close c CloseDone) (rx_vap env VClose y)
         | CloseDone \<Rightarrow> None)
      else None)"

section \<open>The system\<close>

text \<open>
  A request arrives; it takes a step; the goroutines and the handler of a session act; time
  passes; the vapor's cleaning goroutine, callbacks and \<open>EvictAfter\<close> act; the server is closed.
\<close>

datatype 'v rest_event =
    RRequest rest_request | RReq nat | RTry nat bytes | RSess nat "'v sess_event"
  | RTick nat | RCleanup | RCallback nat | RKeys nat | RWorker nat | RWait nat
  | RClose | RCloseStep nat

text \<open>The events of a session that are not a method the server calls.\<close>

fun handler_event :: "'v sess_event \<Rightarrow> bool" where
  "handler_event EGetOk = True"
| "handler_event (EGetErr e) = True"
| "handler_event (EPanic r) = True"
| "handler_event (EDoRead k) = True"
| "handler_event (EDoWrite d) = True"
| "handler_event (EDoReturn v e) = True"
| "handler_event ERun = True"
| "handler_event (EClient i) = True"
| "handler_event _ = False"

fun rest_step :: "('c, 'v, 'rb, 'lb) rest_env \<Rightarrow> 'v rest_event \<Rightarrow>
    ('c, 'v, 'rb, 'lb) rest_sys \<Rightarrow> ('c, 'v, 'rb, 'lb) rest_sys option" where
  "rest_step env (RRequest r) y = Some (y\<lparr>rx_reqs := rx_reqs y @ [rest_ServeHTTP (re_server env) r]\<rparr>)"
| "rest_step env (RReq q) y = (if q < length (rx_reqs y) then rest_req_step env q y else None)"
| "rest_step env (RTry q key) y = (if q < length (rx_reqs y) then serveNew_try env q key y else None)"
| "rest_step env (RSess e ev) y =
     (if e < length (vp_heap (vy_v (rx_v y))) \<and> handler_event ev then rx_sess env e ev y else None)"
| "rest_step env (RTick n) y = rx_vap env (VTick n) y"
| "rest_step env RCleanup y = rx_vap env VCleanup y"
| "rest_step env (RCallback n) y = rest_callback env n y"
| "rest_step env (RKeys i) y = rx_vap env (VKeys i) y"
| "rest_step env (RWorker j) y = rest_worker env j y"
| "rest_step env (RWait i) y = rx_vap env (VWait i) y"
| "rest_step env RClose y = rest_Close env y"
| "rest_step env (RCloseStep c) y = rest_Close_step env c y"

definition rest_start :: "('c, 'v, 'rb, 'lb) rest_env \<Rightarrow> ('c, 'v, 'rb, 'lb) rest_sys \<Rightarrow> bool" where
  "rest_start env y \<longleftrightarrow> vap_start (re_cache env) (rx_v y) \<and> rx_reqs y = [] \<and> rx_in_f y = Map.empty \<and> rx_closes y = []"

abbreviation rest_reachable :: "('c, 'v, 'rb, 'lb) rest_env \<Rightarrow> ('c, 'v, 'rb, 'lb) rest_sys \<Rightarrow> bool" where
  "rest_reachable env \<equiv> reachable_in (rest_start env) (rest_step env)"

end
