(* ===== verification/RestInv.thy ===== *)
theory RestInv
  imports RestSystem VaporInv SessionInv
begin

text \<open>
  The invariants of the REST server: its vapor and its sessions are in reachable states of their
  own systems, and every session that anything refers to has been started or is about to be.
\<close>

section \<open>What the steps of a vapor do to its entries\<close>

abbreviation vy_heap :: "('c, 't) vap_sys \<Rightarrow> 't vap_entry list" where
  "vy_heap y \<equiv> vp_heap (vy_v y)"

definition init_value :: "'t vap_conf \<Rightarrow> 't \<Rightarrow> 't" where
  "init_value cf x = (case vc_Initialize cf of None \<Rightarrow> x | Some f \<Rightarrow> f x)"

definition entry_step :: "'t vap_conf \<Rightarrow> 't vap_entry \<Rightarrow> 't vap_entry \<Rightarrow> bool" where
  "entry_step cf a b \<longleftrightarrow> b = a \<or> (\<not> en_once a \<and> b = \<lparr>en_once = True, en_value = init_value cf (en_value a)\<rparr>)"

definition heap_step :: "'t vap_conf \<Rightarrow> 't vap_entry list \<Rightarrow> 't vap_entry list \<Rightarrow> bool" where
  "heap_step cf h h' \<longleftrightarrow> length h \<le> length h' \<and> (\<forall>e < length h. entry_step cf (h ! e) (h' ! e)) \<and>
     (\<forall>e < length h'. length h \<le> e \<longrightarrow> h' ! e = zero_entry cf)"

lemma heap_step_refl [simp]: "heap_step cf h h"
  by (simp add: heap_step_def entry_step_def)

lemma heap_step_alloc: "heap_step cf h (h @ [zero_entry cf])"
  by (auto simp: heap_step_def entry_step_def nth_append less_Suc_eq)

lemma heap_step_update: "entry_step cf (h ! e) b \<Longrightarrow> heap_step cf h (h[e := b])"
  by (cases "e < length h") (auto simp: heap_step_def entry_step_def nth_list_update)

lemma heap_step_init: "heap_step cf (vp_heap v) (vp_heap (vapor_initItem cf e v))"
  by (auto simp: vapor_initItem_def Let_def intro!: heap_step_update) (simp add: entry_step_def init_value_def)

lemma vapor_start_heap' [simp]: "vp_heap (vapor_start ops v) = vp_heap v"
  by (simp add: vapor_start_def Let_def)

lemma newEntry_try_heap:
  "heap_step cf (vp_heap v) (vp_heap (fst (newEntry_try ops cf now key d v)))"
  using heap_step_alloc by (auto simp: newEntry_try_def Let_def zero_entry_def split: prod.split)

lemma on_eviction_heap: "heap_step cf (vy_heap y) (vy_heap (on_eviction cf ev y))"
  by (auto simp: on_eviction_def Let_def heap_step_init split: option.split)

lemma worker_step_heap: "worker_step ops cf j w y = Some z \<Longrightarrow> heap_step cf (vy_heap y) (vy_heap z)"
  by (cases w) (auto simp: worker_step_def set_worker_def Let_def heap_step_init split: prod.splits)

lemma vap_step_heap:
  assumes "vap_step ops cf ev y = Some z" "\<And>e x. ev \<noteq> VMutate e x"
  shows "heap_step cf (vy_heap y) (vy_heap z)"
proof (cases ev)
  case (VTry key d)
  then show ?thesis using assms newEntry_try_heap by (auto split: if_splits)
next
  case (VInitItem e)
  then show ?thesis using assms heap_step_init by (auto split: if_splits)
next
  case (VCallback n)
  then show ?thesis
    using assms on_eviction_heap [of cf "y\<lparr>vy_pending := take n (vy_pending y) @ drop (Suc n) (vy_pending y)\<rparr>" "vy_pending y ! n"]
    by (auto split: if_splits)
next
  case (VWorker j)
  then show ?thesis using assms worker_step_heap by (auto split: if_splits)
next
  case (VEvict key)
  then show ?thesis using assms by (auto simp: vapor_Evict_def Let_def split: prod.splits)
next
  case VClose
  then show ?thesis using assms by (auto simp: vapor_Close_def vapor_stop_def split: prod.splits if_splits)
next
  case VCleanup
  then show ?thesis using assms by (auto split: prod.splits if_splits)
next
  case (VKeys i)
  then show ?thesis using assms
    by (auto simp: evictAfter_keys_def set_evict_def Let_def split: if_splits evict_pc.splits)
next
  case (VWait i)
  then show ?thesis using assms
    by (auto simp: evictAfter_wait_def set_evict_def split: if_splits evict_pc.splits prod.splits)
qed (use assms in \<open>auto simp: evictAfter_begin_def split: if_splits\<close>)

text \<open>The entries that something outside refers to.\<close>

definition known :: "('c \<Rightarrow> bytes \<rightharpoonup> item) \<Rightarrow> ('c, 't) vap_sys \<Rightarrow> nat set" where
  "known items y = ran (ent (vy_items items y)) \<union> snd ` set (vy_pending y) \<union>
     {e. \<exists>k. W_call k e \<in> set (vy_workers y)}"

lemma ran_le: "m' \<subseteq>\<^sub>m m \<Longrightarrow> ran (ent m') \<subseteq> ran (ent m)"
  by (auto simp: ran_def dest: ent_le)

lemma ran_entI: "m k = Some it \<Longrightarrow> fst it \<in> ran (ent m)"
  by (rule ranI [of _ k]) (simp add: ent_def)

lemma removes_known: "removes m m' evs \<Longrightarrow> ran (ent m') \<union> snd ` set evs \<subseteq> ran (ent m)"
proof -
  assume r: "removes m m' evs"
  then obtain rs ks where k: "set ks = dom m - dom m'" "evs = evictions rs m ks" and le: "m' \<subseteq>\<^sub>m m"
    by (auto simp: removes_def evicts_exactly_def)
  have "fst (the (m k)) \<in> ran (ent m)" if "k \<in> dom m" for k
    using that ran_entI [of m k "the (m k)"] by auto
  then show ?thesis using k ran_le [OF le] by (fastforce simp: evictions_def)
qed

lemma known_update: "set (ws[j := w]) \<subseteq> insert w (set ws)"
  by (rule set_update_subset_insert)

lemma known_trans:
  "vap_trans items cf y z \<Longrightarrow> known items z \<subseteq> known items y \<union> {e. length (vy_heap y) \<le> e \<and> e < length (vy_heap z)}"
proof (induction rule: vap_trans.induct)
  case (fresh y k c d x)
  have "ran (ent (items c)) \<subseteq> insert (length (vy_heap y)) (ran (ent (vy_items items y)))"
    using fresh(4) by (auto simp: ran_def ent_def split: if_splits)
  then show ?case by (auto simp: known_def)
next
  case (touch y k it c)
  then have "ent (items c) = ent (vy_items items y)" using ent_touch lookup_live_SomeD by metis
  then show ?case by (simp add: known_def)
next
  case (evict y c evs s)
  then show ?case using removes_known [OF evict(1)] by (auto simp: known_def)
next
  case (callback n y)
  then show ?case by (auto simp: known_def dest: in_set_takeD in_set_dropD)
next
  case (ea_keys i y f ks)
  then show ?case by (auto simp: known_def)
next
  case (ea_wait i y lo n c evs)
  then show ?case using removes_known [OF ea_wait(5)] by (auto simp: known_def)
next
  case (w_found j y f k it c w)
  have "fst it \<in> ran (ent (vy_items items y))"
    using lookup_live_SomeD [OF w_found(3)] by (blast intro: ran_entI)
  then show ?case using w_found(4,5) known_update [of "vy_workers y" j w] by (auto simp: known_def)
next
  case (w_gone j y f k c)
  then show ?case using known_update [of "vy_workers y" j W_done] by (auto simp: known_def)
next
  case (w_call j y k e z)
  then show ?case using known_update [of "vy_workers y" j "W_in_f k"] by (auto simp: known_def)
next
  case (w_returned j y k)
  then show ?case using known_update [of "vy_workers y" j "W_delete k"] by (auto simp: known_def)
next
  case (w_delete j y k c evs)
  show ?case using removes_known [OF w_delete(4)] known_update [of "vy_workers y" j W_done] by (auto simp: known_def)
qed (auto simp: known_def evictAfter_begin_def)

lemma vap_trans_len: "vap_trans items cf y z \<Longrightarrow> length (vy_heap y) \<le> length (vy_heap z)"
  by (induction rule: vap_trans.induct) (simp_all add: evictAfter_begin_def)

lemma known_step:
  assumes "cache_laws ops items" "started_inv items y" "vap_step ops cf ev y = Some z"
  shows "known items z \<subseteq> known items y \<union> {e. length (vy_heap y) \<le> e \<and> e < length (vy_heap z)}"
proof -
  obtain u where u: "vap_trans items cf y u" "vap_trans items cf u z"
    using vap_step_trans2 [OF assms] by blast
  have "length (vy_heap y) \<le> length (vy_heap u)" "length (vy_heap u) \<le> length (vy_heap z)"
    using u by (simp_all add: vap_trans_len)
  then show ?thesis using known_trans [OF u(1)] known_trans [OF u(2)] by fastforce
qed

section \<open>The sessions of the server\<close>

text \<open>The causes a session can be cancelled with: the last one is not documented in \<open>proto\<close>.\<close>

definition rest_cause :: "go_error \<Rightarrow> bool" where
  "rest_cause e \<longleftrightarrow> e = ErrCancelHandlerReturn \<or> e = ErrCancelClientRequest \<or> e = ErrCancelTimeout \<or> e = errServerClose"

definition causes_ok :: "('v, 'rb, 'lb) sess_sys \<Rightarrow> bool" where
  "causes_ok s \<longleftrightarrow> (\<forall>e. ss_context (sy_s s) = Some e \<longrightarrow> rest_cause e) \<and>
     list_all (\<lambda>pc. \<forall>e. pc = CW_locked e \<longrightarrow> rest_cause e) (sy_clients s)"

fun rest_safe :: "'v sess_event \<Rightarrow> bool" where
  "rest_safe (EParentCancel e) = False"
| "rest_safe (ECloseWith i e) = rest_cause e"
| "rest_safe _ = True"

lemma rest_causes [simp]: "rest_cause ErrCancelHandlerReturn" "rest_cause ErrCancelClientRequest"
    "rest_cause ErrCancelTimeout" "rest_cause errServerClose"
  by (simp_all add: rest_cause_def)

lemma causes_cong: "causes_ok s \<Longrightarrow> ss_context (sy_s t) = ss_context (sy_s s) \<Longrightarrow> sy_clients t = sy_clients s \<Longrightarrow> causes_ok t"
  by (simp add: causes_ok_def)

lemma causes_cancel: "causes_ok s \<Longrightarrow> rest_cause e \<Longrightarrow> ss_context (sy_s t) = cancel_with e (ss_context (sy_s s)) \<Longrightarrow>
    list_all (\<lambda>pc. \<forall>e. pc = CW_locked e \<longrightarrow> rest_cause e) (sy_clients t) \<Longrightarrow> causes_ok t"
  by (cases "ss_context (sy_s s)") (simp_all add: causes_ok_def)

lemma causes_run: "causes_ok s \<Longrightarrow> run_step s = Some t \<Longrightarrow> causes_ok t"
proof (cases "sy_run s")
  case RunCancel
  then show "causes_ok s \<Longrightarrow> run_step s = Some t \<Longrightarrow> ?thesis"
    by (auto simp: run_step_def intro!: causes_cancel [of s ErrCancelHandlerReturn]) (simp add: causes_ok_def)
qed (auto simp: run_step_def inw_Close_def intro: causes_cong split: if_splits option.splits)

lemma causes_client: "causes_ok s \<Longrightarrow> client_step i s = Some t \<Longrightarrow> causes_ok t"
proof -
  assume c: "causes_ok s" and s: "client_step i s = Some t"
  have i: "i < length (sy_clients s)" using s by (auto simp: client_step_def split: if_splits)
  have u: "list_all (\<lambda>pc. \<forall>e. pc = CW_locked e \<longrightarrow> rest_cause e) ((sy_clients s)[i := pc])" if "\<And>e. pc \<noteq> CW_locked e" for pc
    using c that by (intro list_all_update) (simp_all add: causes_ok_def)
  show ?thesis
  proof (cases "sy_clients s ! i")
    case (CW_locked e)
    then have "rest_cause e" using c i by (auto simp: causes_ok_def list_all_length)
    moreover have "t = set_client i CW_cancelled (if ss_cancel_set (sy_s s) then s\<lparr>sy_s := session_cancel e (sy_s s)\<rparr> else s)"
      using CW_locked s i by (simp add: client_step_def)
    ultimately show ?thesis using c u [of CW_cancelled]
      by (cases "ss_cancel_set (sy_s s)")
        (auto simp: set_client_def intro: causes_cancel [of s e], simp add: causes_ok_def)
  qed (use c s i u in \<open>auto simp: client_step_def set_client_def causes_ok_def inw_Close_def inr_Close_def split: if_splits\<close>)
qed

lemma causes_step:
  assumes "causes_ok s" "sess_step bops ev s = Some t" "rest_safe ev"
  shows "causes_ok t"
proof (cases ev)
  case (ECloseWith i e)
  then show ?thesis using assms by (auto simp: set_client_def causes_ok_def intro!: list_all_update split: if_splits)
next
  case (ECloseInput i)
  then show ?thesis using assms
    by (auto simp: set_client_def causes_ok_def inw_Close_def intro!: list_all_update split: if_splits)
next
  case ERun
  then show ?thesis using assms causes_run by auto
next
  case (EClient i)
  then show ?thesis using assms causes_client by auto
next
  case (EStart c)
  then show ?thesis using assms by (auto simp: session_Start_def intro: causes_cong split: if_splits)
next
  case EStatus
  then show ?thesis using assms
    by (auto simp: session_Status_def Let_def intro: causes_cong split: stage.splits prod.splits)
next
  case EWriteEnd
  then show ?thesis using assms
    by (auto simp: session_Write_end_def Let_def intro: causes_cong split: prod.splits write_result.splits)
next
  case (EWrite d)
  then show ?thesis using assms by (auto simp: session_Write_def intro: causes_cong)
next
  case (EDoRead k)
  then show ?thesis using assms by (auto intro: causes_cong split: if_splits prod.splits read_result.splits)
qed (use assms in \<open>auto simp: end_closure_def intro: causes_cong split: if_splits\<close>)

definition sess_ok :: "('v, 'rb, 'lb) sess_sys \<Rightarrow> bool" where
  "sess_ok s \<longleftrightarrow> sess_inv s \<and> causes_ok s"

lemma sess_ok_step: "sess_ok s \<Longrightarrow> sess_step bops ev s = Some t \<Longrightarrow> rest_safe ev \<Longrightarrow> sess_ok t"
  using sess.step_inv causes_step by (auto simp: sess_ok_def)

lemma sess_ok_idle: "sess_ok s \<Longrightarrow> sess_ok (s\<lparr>sy_clients := sy_clients s @ [Idle]\<rparr>)"
proof -
  assume s: "sess_ok s"
  have "control_inv s" using s unfolding sess_ok_def sess_inv_def by blast
  then have "control_inv (s\<lparr>sy_clients := sy_clients s @ [Idle]\<rparr>)" by (rule control_inv_cong [of s]) simp_all
  moreover have "ends_inv (s\<lparr>sy_clients := sy_clients s @ [Idle]\<rparr>)"
    using s unfolding sess_ok_def sess_inv_def by (simp add: ends_inv_def)
  moreover have "clients_inv (s\<lparr>sy_clients := sy_clients s @ [Idle]\<rparr>)"
    using s unfolding sess_ok_def sess_inv_def by (simp add: clients_inv_def)
  moreover have "causes_ok (s\<lparr>sy_clients := sy_clients s @ [Idle]\<rparr>)"
    using s unfolding sess_ok_def by (simp add: causes_ok_def)
  ultimately show ?thesis unfolding sess_ok_def sess_inv_def by blast
qed

lemma sess_ok_init: "rv_context server = None \<Longrightarrow> sess_ok (rest_Initialize server (sess_zero bufs))"
proof -
  assume c: "rv_context server = None"
  have "sess_start bufs (rest_Initialize server (sess_zero bufs))"
    unfolding sess_start_def
    by (intro exI [of _ "rv_context server"] exI [of _ "ro_Session (rv_options server)"] exI [of _ 0])
      (simp add: rest_Initialize_def sess_zero_def)
  then show ?thesis using c sess_inv_start
    by (auto simp: sess_ok_def causes_ok_def rest_Initialize_def sess_zero_def session_Init_def Let_def)
qed

lemma stage_init_kept:
  assumes "sess_ok s" "ss_stage (sy_s s) = stageInit" "sess_step bops ev s = Some t" "\<And>c. ev \<noteq> EStart c"
  shows "ss_stage (sy_s t) = stageInit"
proof -
  have r: "sy_run s = RunNone" using assms(1,2) control_inv_running by (auto simp: sess_ok_def sess_inv_def)
  show ?thesis
  proof (cases ev)
    case (EClient i)
    then show ?thesis using assms by (cases "sy_clients s ! i")
        (auto simp: client_step_def set_client_def inw_Close_def inr_Close_def split: if_splits)
  next
    case EStatus
    then show ?thesis using assms by (auto simp: session_Status_def)
  next
    case EWriteEnd
    then show ?thesis using assms by (auto simp: session_Write_end_def Let_def split: prod.splits write_result.splits)
  next
    case (EWrite d)
    then show ?thesis using assms by (auto simp: session_Write_def)
  qed (use assms r in \<open>auto simp: run_step_def set_client_def inw_Close_def split: if_splits\<close>)
qed

lemma stage_started_kept:
  assumes "sess_ok s" "ss_stage (sy_s s) \<noteq> stageInit" "sess_step bops ev s = Some t"
  shows "ss_stage (sy_s t) \<noteq> stageInit"
proof -
  have "sess_grows (sy_s s) (sy_s t)"
    using assms sess.step_rel [of s bops ev t] by (simp add: sess_ok_def sess_sys_grows_def)
  then show ?thesis using assms(2) stage_le_from(1) by (auto simp: sess_grows_def)
qed

lemma stage_start:
  "ss_stage (sy_s s) = stageInit \<Longrightarrow> sess_step bops (EStart c) s = Some t \<Longrightarrow>
     ss_stage (sy_s t) = stageRunning \<and> ss_call (sy_s t) = c \<and> sy_run t = RunGet"
  by (auto simp: session_Start_def split: if_splits)

section \<open>The invariant of the server\<close>

fun creating :: "rest_req \<Rightarrow> nat option" where
  "creating (NewInit call key e) = Some e"
| "creating (NewStart call key e) = Some e"
| "creating _ = None"

fun uses :: "rest_req \<Rightarrow> nat option" where
  "uses (InitFound op e) = Some e"
| "uses (Operate op e) = Some e"
| "uses (Writing cs fails e) = Some e"
| "uses (ClosingInput e i) = Some e"
| "uses (Closing e i) = Some e"
| "uses _ = None"

type_synonym ('c, 'v, 'rb, 'lb) rest_vap = "('c, ('v, 'rb, 'lb) sess_sys) vap_sys"

definition started :: "('c, 'v, 'rb, 'lb) rest_vap \<Rightarrow> nat \<Rightarrow> bool" where
  "started v e \<longleftrightarrow> e < length (vy_heap v) \<and> en_once (vy_heap v ! e) \<and> ss_stage (sy_s (en_value (vy_heap v ! e))) \<noteq> stageInit"

definition unstarted :: "('c, 'v, 'rb, 'lb) rest_vap \<Rightarrow> nat \<Rightarrow> bool" where
  "unstarted v e \<longleftrightarrow> e < length (vy_heap v) \<and> (en_once (vy_heap v ! e) \<longrightarrow> ss_stage (sy_s (en_value (vy_heap v ! e))) = stageInit)"

definition ready :: "('c, 'v, 'rb, 'lb) rest_vap \<Rightarrow> nat \<Rightarrow> bool" where
  "ready v e \<longleftrightarrow> e < length (vy_heap v) \<and> en_once (vy_heap v ! e)"

definition created :: "rest_req list \<Rightarrow> nat \<Rightarrow> bool" where
  "created rs e \<longleftrightarrow> (\<exists>q < length rs. creating (rs ! q) = Some e)"

definition sessions_ok :: "('c, 'v, 'rb, 'lb) rest_vap \<Rightarrow> bool" where
  "sessions_ok v \<longleftrightarrow> (\<forall>e < length (vy_heap v). en_once (vy_heap v ! e) \<longrightarrow> sess_ok (en_value (vy_heap v ! e)))"

text \<open>Two requests never create the same session; it is not started before they do so.\<close>

definition creators_ok :: "('c, 'v, 'rb, 'lb) rest_vap \<Rightarrow> rest_req list \<Rightarrow> bool" where
  "creators_ok v rs \<longleftrightarrow>
     (\<forall>q < length rs. \<forall>q' < length rs. creating (rs ! q) \<noteq> None \<longrightarrow> creating (rs ! q) = creating (rs ! q') \<longrightarrow> q = q') \<and>
     (\<forall>q < length rs. \<forall>e. creating (rs ! q) = Some e \<longrightarrow> unstarted v e) \<and>
     (\<forall>q < length rs. \<forall>call key e. rs ! q = NewStart call key e \<longrightarrow> ready v e)"

text \<open>What the cache, the callbacks, the workers and the requests refer to.\<close>

definition referenced :: "('c \<Rightarrow> bytes \<rightharpoonup> item) \<Rightarrow> ('c, 'v, 'rb, 'lb) rest_sys \<Rightarrow> nat \<Rightarrow> bool" where
  "referenced items y e \<longleftrightarrow> e \<in> known items (rx_v y) \<or> (\<exists>q < length (rx_reqs y). uses (rx_reqs y ! q) = Some e) \<or>
     (\<exists>j i. rx_in_f y j = Some (e, i))"

definition attended :: "('c, 'v, 'rb, 'lb) rest_sys \<Rightarrow> nat \<Rightarrow> bool" where
  "attended y e \<longleftrightarrow> started (rx_v y) e \<or> created (rx_reqs y) e"

definition rest_inv :: "('c \<Rightarrow> bytes \<rightharpoonup> item) \<Rightarrow> ('c, 'v, 'rb, 'lb) rest_env \<Rightarrow> ('c, 'v, 'rb, 'lb) rest_sys \<Rightarrow> bool" where
  "rest_inv items env y \<longleftrightarrow> vap_inv items (rest_conf env) (rx_v y) \<and> sessions_ok (rx_v y) \<and>
     creators_ok (rx_v y) (rx_reqs y) \<and> (\<forall>e. referenced items y e \<longrightarrow> attended y e)"

section \<open>Steps that start nothing\<close>

definition quiet :: "('c \<Rightarrow> bytes \<rightharpoonup> item) \<Rightarrow> ('c, 'v, 'rb, 'lb) rest_vap \<Rightarrow> ('c, 'v, 'rb, 'lb) rest_vap \<Rightarrow> bool" where
  "quiet items v w \<longleftrightarrow> known items w \<subseteq> known items v \<and>
     (\<forall>e. (started v e \<longrightarrow> started w e) \<and> (unstarted v e \<longrightarrow> unstarted w e) \<and> (ready v e \<longrightarrow> ready w e))"

lemma quiet_creators: "creators_ok v rs \<Longrightarrow> quiet items v w \<Longrightarrow> creators_ok w rs"
  unfolding creators_ok_def quiet_def by blast

lemma quiet_inv:
  assumes "rest_inv items env y" "vap_inv items (rest_conf env) v" "sessions_ok v" "quiet items (rx_v y) v"
    "rx_v z = v" "rx_reqs z = rx_reqs y" "rx_in_f z = rx_in_f y"
  shows "rest_inv items env z"
proof -
  have "attended z e" if "referenced items z e" for e
  proof -
    have "referenced items y e" using that assms(4-7) unfolding referenced_def quiet_def by auto
    then have "attended y e" using assms(1) unfolding rest_inv_def by blast
    then show ?thesis using assms(4-6) unfolding attended_def quiet_def by auto
  qed
  moreover have "creators_ok (rx_v y) (rx_reqs y)" using assms(1) unfolding rest_inv_def by blast
  then have "creators_ok v (rx_reqs y)" using assms(4) by (rule quiet_creators)
  ultimately show ?thesis using assms unfolding rest_inv_def by metis
qed

lemma vap_step_len:
  assumes "vap_step ops cf ev v = Some w" "\<And>key d. ev \<noteq> VTry key d"
  shows "length (vy_heap w) = length (vy_heap v)"
proof (cases ev)
  case (VWorker j)
  then show ?thesis using assms
    by (cases "vy_workers v ! j") (auto simp: worker_step_def set_worker_def Let_def split: if_splits prod.splits)
next
  case (VEvict key)
  then show ?thesis using assms by (auto simp: vapor_Evict_def Let_def split: prod.splits)
next
  case VClose
  then show ?thesis using assms by (auto simp: vapor_Close_def vapor_stop_def split: prod.splits if_splits)
next
  case VCleanup
  then show ?thesis using assms by (auto split: prod.splits if_splits)
next
  case (VKeys i)
  then show ?thesis using assms
    by (auto simp: evictAfter_keys_def set_evict_def Let_def split: if_splits evict_pc.splits)
next
  case (VWait i)
  then show ?thesis using assms
    by (auto simp: evictAfter_wait_def set_evict_def split: if_splits evict_pc.splits prod.splits)
qed (use assms in \<open>auto simp: evictAfter_begin_def split: if_splits\<close>)

lemma conf_init: "rv_context (re_server env) = None \<Longrightarrow>
    sess_ok (init_value (rest_conf env) (vc_zero (rest_conf env))) \<and>
    ss_stage (sy_s (init_value (rest_conf env) (vc_zero (rest_conf env)))) = stageInit"
  using sess_ok_init [of "re_server env" "re_bufs env"]
  by (simp add: init_value_def rest_conf_def) (simp add: rest_Initialize_def sess_zero_def session_Init_def session_zero_def Let_def)

lemma entry_unused:
  assumes "vap_inv items cf v" "e < length (vy_heap v)" "\<not> en_once (vy_heap v ! e)"
  shows "en_value (vy_heap v ! e) = vc_zero cf"
proof -
  have "heap_ok cf (vy_heap v) (vy_calls v)" using assms(1) unfolding vap_inv_def calls_inv_def by blast
  then have "slot_ok cf (vy_calls v) e (vy_heap v ! e)" using assms(2) unfolding heap_ok_def by blast
  then show ?thesis using assms(3) by (simp add: slot_ok_def zero_entry_def)
qed

lemma vap_quiet:
  assumes l: "cache_laws (re_cache env) items" "rv_context (re_server env) = None"
    and inv: "vap_inv items (rest_conf env) v" "sessions_ok v"
    and s: "vap_step (re_cache env) (rest_conf env) ev v = Some w" "\<And>e x. ev \<noteq> VMutate e x"
  shows "vap_inv items (rest_conf env) w" "sessions_ok w"
    "(\<And>key d. ev \<noteq> VTry key d) \<Longrightarrow> quiet items v w"
proof -
  show i: "vap_inv items (rest_conf env) w" using l(1) inv(1) s(1) by (rule vap_inv_step)
  have h: "heap_step (rest_conf env) (vy_heap v) (vy_heap w)" using s by (rule vap_step_heap)
  have e: "entry_step (rest_conf env) (vy_heap v ! e) (vy_heap w ! e) \<and> e < length (vy_heap w)"
    if "e < length (vy_heap v)" for e
    using h that by (auto simp: heap_step_def)
  have ok: "sess_ok (en_value (vy_heap w ! e))" if "e < length (vy_heap w)" "en_once (vy_heap w ! e)" for e
  proof (cases "e < length (vy_heap v)")
    case True
    then show ?thesis
      using e [OF True] inv that conf_init [OF l(2)] entry_unused [OF inv(1) True]
      by (auto simp: entry_step_def sessions_ok_def)
  next
    case False
    then show ?thesis using h that by (auto simp: heap_step_def zero_entry_def)
  qed
  then show "sessions_ok w" by (simp add: sessions_ok_def)
  assume t: "\<And>key d. ev \<noteq> VTry key d"
  have "known items w \<subseteq> known items v"
    using known_step [OF l(1) _ s(1)] inv(1) vap_step_len [OF s(1) t] by (force simp: vap_inv_def)
  moreover have "(started v e \<longrightarrow> started w e) \<and> (unstarted v e \<longrightarrow> unstarted w e) \<and> (ready v e \<longrightarrow> ready w e)" for e
    using e [of e] entry_unused [OF inv(1), of e] conf_init [OF l(2)]
    by (auto simp: started_def unstarted_def ready_def entry_step_def)
  ultimately show "quiet items v w" unfolding quiet_def by blast
qed

text \<open>The step of one session, seen from the vapor.\<close>

definition mutate :: "nat \<Rightarrow> 't \<Rightarrow> ('c, 't) vap_sys \<Rightarrow> ('c, 't) vap_sys" where
  "mutate e x v = v\<lparr>vy_v := (vy_v v)\<lparr>vp_heap := (vy_heap v)[e := (vy_heap v ! e)\<lparr>en_value := x\<rparr>]\<rparr>\<rparr>"

lemma mutate_fields [simp]:
  "vy_heap (mutate e x v) = (vy_heap v)[e := (vy_heap v ! e)\<lparr>en_value := x\<rparr>]"
  "vy_workers (mutate e x v) = vy_workers v" "vy_pending (mutate e x v) = vy_pending v"
  "vy_evicts (mutate e x v) = vy_evicts v" "vp_cache (vy_v (mutate e x v)) = vp_cache (vy_v v)"
  "vy_now (mutate e x v) = vy_now v" "vp_stopped (vy_v (mutate e x v)) = vp_stopped (vy_v v)"
  by (simp_all add: mutate_def)

lemma known_mutate [simp]: "known items (mutate e x v) = known items v"
  by (simp add: known_def)

lemma ready_mutate [simp]: "ready (mutate e x v) = ready v"
proof (rule ext)
  show "ready (mutate e x v) e' = ready v e'" for e' by (cases "e' = e") (auto simp: ready_def nth_list_update)
qed

lemma step_mutate: "vap_step ops cf (VMutate e x) v = (if ready v e then Some (mutate e x v) else None)"
  by (simp add: ready_def mutate_def)

lemma mutate_quiet:
  assumes "vap_inv items cf v" "cache_laws ops items" "sessions_ok v" "ready v e" "sess_ok s"
  shows "vap_inv items cf (mutate e s v)" "sessions_ok (mutate e s v)"
    "(ss_stage (sy_s s) = stageInit) = (ss_stage (sy_s (en_value (vy_heap v ! e))) = stageInit) \<Longrightarrow> quiet items v (mutate e s v)"
proof -
  show "vap_inv items cf (mutate e s v)"
    using vap_inv_step [OF assms(2,1), of "VMutate e s"] assms(4) by (simp only: step_mutate) simp
  show "sessions_ok (mutate e s v)"
    using assms(3-5) by (simp add: sessions_ok_def ready_def nth_list_update)
  assume "(ss_stage (sy_s s) = stageInit) = (ss_stage (sy_s (en_value (vy_heap v ! e))) = stageInit)"
  then have "(started v e' \<longrightarrow> started (mutate e s v) e') \<and> (unstarted v e' \<longrightarrow> unstarted (mutate e s v) e') \<and>
      (ready v e' \<longrightarrow> ready (mutate e s v) e')" for e'
    using assms(4) by (cases "e' = e") (simp_all add: started_def unstarted_def ready_def)
  then show "quiet items v (mutate e s v)" by (simp add: quiet_def)
qed

lemma rx_sessE:
  assumes "rx_sess env e ev y = Some z"
  obtains s where "ready (rx_v y) e" "sess_step (re_bufs env) ev (rx_session e y) = Some s" "z = y\<lparr>rx_v := mutate e s (rx_v y)\<rparr>"
proof -
  obtain s where s: "sess_step (re_bufs env) ev (rx_session e y) = Some s" "rx_vap env (VMutate e s) y = Some z"
    using assms unfolding rx_sess_def by (auto split: option.splits)
  have "ready (rx_v y) e \<and> z = y\<lparr>rx_v := mutate e s (rx_v y)\<rparr>"
    using s(2) unfolding rx_vap_def step_mutate by (auto split: if_splits)
  then show thesis using that s(1) by blast
qed

lemma rx_callE:
  assumes "rx_call env e mk y = Some (i, z)"
  obtains s where "ready (rx_v y) e" "i = length (sy_clients (rx_session e y))"
    "sess_step (re_bufs env) (mk i) ((rx_session e y)\<lparr>sy_clients := sy_clients (rx_session e y) @ [Idle]\<rparr>) = Some s"
    "z = y\<lparr>rx_v := mutate e s (rx_v y)\<rparr>"
proof -
  obtain s where s: "i = length (sy_clients (rx_session e y))" "rx_vap env (VMutate e s) y = Some z"
      "sess_step (re_bufs env) (mk i) ((rx_session e y)\<lparr>sy_clients := sy_clients (rx_session e y) @ [Idle]\<rparr>) = Some s"
    using assms unfolding rx_call_def Let_def by (auto split: option.splits)
  have "ready (rx_v y) e \<and> z = y\<lparr>rx_v := mutate e s (rx_v y)\<rparr>"
    using s(2) unfolding rx_vap_def step_mutate by (auto split: if_splits)
  then show thesis using that s(1,3) by blast
qed

text \<open>The hypotheses on the environment: the cache keeps its laws and the server's context is live.\<close>

definition good_env :: "('c \<Rightarrow> bytes \<rightharpoonup> item) \<Rightarrow> ('c, 'v, 'rb, 'lb) rest_env \<Rightarrow> bool" where
  "good_env items env \<longleftrightarrow> cache_laws (re_cache env) items \<and> rv_context (re_server env) = None"

text \<open>What a call of a component leaves alone in the server.\<close>

definition same_requests :: "('c, 'v, 'rb, 'lb) rest_sys \<Rightarrow> ('c, 'v, 'rb, 'lb) rest_sys \<Rightarrow> bool" where
  "same_requests y z \<longleftrightarrow> rx_reqs z = rx_reqs y \<and> rx_in_f z = rx_in_f y \<and> rx_closes z = rx_closes y"

lemma rest_mutate:
  assumes "good_env items env" "rest_inv items env y" "ready (rx_v y) e" "sess_ok s"
    "(ss_stage (sy_s s) = stageInit) = (ss_stage (sy_s (rx_session e y)) = stageInit)"
  shows "rest_inv items env (y\<lparr>rx_v := mutate e s (rx_v y)\<rparr>)"
proof -
  have l: "cache_laws (re_cache env) items" and v: "vap_inv items (rest_conf env) (rx_v y)" "sessions_ok (rx_v y)"
    using assms(1,2) unfolding good_env_def rest_inv_def by blast+
  note q = mutate_quiet [OF v(1) l v(2) assms(3,4)]
  show ?thesis by (rule quiet_inv [OF assms(2) q(1,2)]) (use q(3) assms(5) in \<open>simp_all add: rx_session_def\<close>)
qed

lemma session_is_ok: "rest_inv items env y \<Longrightarrow> ready (rx_v y) e \<Longrightarrow> sess_ok (rx_session e y)"
  by (simp add: rest_inv_def sessions_ok_def ready_def rx_session_def)

lemma stage_kept:
  assumes "sess_ok s" "sess_step bops ev s = Some t" "\<And>c. ev \<noteq> EStart c"
  shows "(ss_stage (sy_s t) = stageInit) = (ss_stage (sy_s s) = stageInit)"
  using stage_init_kept [OF assms(1) _ assms(2,3)] stage_started_kept [OF assms(1) _ assms(2)] by blast

lemma rest_sess:
  assumes g: "good_env items env" and i: "rest_inv items env y" and s: "rx_sess env e ev y = Some z"
    and ev: "rest_safe ev" "\<And>c. ev \<noteq> EStart c"
  shows "rest_inv items env z" "same_requests y z" "known items (rx_v z) = known items (rx_v y)" "ready (rx_v z) = ready (rx_v y)"
proof -
  obtain t where t: "ready (rx_v y) e" "sess_step (re_bufs env) ev (rx_session e y) = Some t" "z = y\<lparr>rx_v := mutate e t (rx_v y)\<rparr>"
    using s by (rule rx_sessE)
  note ok = session_is_ok [OF i t(1)]
  show "rest_inv items env z" unfolding t(3)
    using rest_mutate [OF g i t(1) sess_ok_step [OF ok t(2) ev(1)] stage_kept [OF ok t(2) ev(2)]] .
  show "same_requests y z" "known items (rx_v z) = known items (rx_v y)" "ready (rx_v z) = ready (rx_v y)"
    using t(3) by (simp_all add: same_requests_def)
qed

lemma rest_call:
  assumes g: "good_env items env" and i: "rest_inv items env y" and s: "rx_call env e mk y = Some (k, z)"
    and ev: "rest_safe (mk k)" "\<And>c. mk k \<noteq> EStart c"
  shows "rest_inv items env z" "same_requests y z" "known items (rx_v z) = known items (rx_v y)" "ready (rx_v z) = ready (rx_v y)"
proof -
  obtain t where t: "ready (rx_v y) e" "k = length (sy_clients (rx_session e y))"
      "sess_step (re_bufs env) (mk k) ((rx_session e y)\<lparr>sy_clients := sy_clients (rx_session e y) @ [Idle]\<rparr>) = Some t"
      "z = y\<lparr>rx_v := mutate e t (rx_v y)\<rparr>"
    using s by (rule rx_callE)
  note ok = sess_ok_idle [OF session_is_ok [OF i t(1)]]
  show "rest_inv items env z" unfolding t(4)
    using rest_mutate [OF g i t(1) sess_ok_step [OF ok t(3) ev(1)]] stage_kept [OF ok t(3) ev(2)] by simp
  show "same_requests y z" "known items (rx_v z) = known items (rx_v y)" "ready (rx_v z) = ready (rx_v y)"
    using t(4) by (simp_all add: same_requests_def)
qed

lemma rest_vap:
  assumes "good_env items env" "rest_inv items env y" "rx_vap env ev y = Some z"
    "\<And>key d. ev \<noteq> VTry key d" "\<And>e x. ev \<noteq> VMutate e x"
  shows "rest_inv items env z" "same_requests y z" "quiet items (rx_v y) (rx_v z)"
proof -
  obtain w where w: "vap_step (re_cache env) (rest_conf env) ev (rx_v y) = Some w" "z = y\<lparr>rx_v := w\<rparr>"
    using assms(3) unfolding rx_vap_def by auto
  have l: "cache_laws (re_cache env) items" "rv_context (re_server env) = None"
      "vap_inv items (rest_conf env) (rx_v y)" "sessions_ok (rx_v y)"
    using assms(1,2) unfolding good_env_def rest_inv_def by blast+
  note q = vap_quiet [OF l w(1) assms(5)]
  show "rest_inv items env z" by (rule quiet_inv [OF assms(2) q(1,2)]) (use q(3) assms(4) w(2) in simp_all)
  show "same_requests y z" "quiet items (rx_v y) (rx_v z)" using w(2) q(3) assms(4) by (simp_all add: same_requests_def)
qed

section \<open>The steps of the requests\<close>

lemma set_req_fields [simp]:
  "rx_v (set_req q pc y) = rx_v y" "rx_reqs (set_req q pc y) = (rx_reqs y)[q := pc]"
  "rx_in_f (set_req q pc y) = rx_in_f y" "rx_closes (set_req q pc y) = rx_closes y"
  by (simp_all add: set_req_def)

lemma rest_set_req:
  assumes i: "rest_inv items env y" and q: "creating pc = creating (rx_reqs y ! q)"
    and s: "\<And>c k e. pc = NewStart c k e \<Longrightarrow> ready (rx_v y) e"
    and u: "\<And>e. uses pc = Some e \<Longrightarrow> referenced items y e"
  shows "rest_inv items env (set_req q pc y)"
proof -
  have c: "creating ((rx_reqs y)[q := pc] ! j) = creating (rx_reqs y ! j)" for j
    using q by (cases "j = q"; cases "q < length (rx_reqs y)") (simp_all add: list_update_beyond)
  have cr: "creators_ok (rx_v y) (rx_reqs y)" using i unfolding rest_inv_def by blast
  have "ready (rx_v y) e" if "j < length (rx_reqs y)" "(rx_reqs y)[q := pc] ! j = NewStart c' k e" for j c' k e
    using that s cr unfolding creators_ok_def by (cases "j = q") auto
  then have "creators_ok (rx_v y) ((rx_reqs y)[q := pc])"
    using cr unfolding creators_ok_def by (simp only: c length_list_update) blast
  moreover have "created ((rx_reqs y)[q := pc]) = created (rx_reqs y)"
    unfolding created_def by (simp only: c length_list_update)
  moreover have "referenced items y e" if "referenced items (set_req q pc y) e" for e
  proof -
    have "referenced items y e" if "j < length (rx_reqs y)" "uses ((rx_reqs y)[q := pc] ! j) = Some e" for j
      using that u by (cases "j = q") (auto simp: referenced_def)
    then show ?thesis using that by (auto simp: referenced_def)
  qed
  ultimately show ?thesis using i unfolding rest_inv_def attended_def by simp
qed

lemma init_ready: "vap_step ops cf (VInitItem e) v = Some w \<Longrightarrow> ready w e"
  by (auto simp: ready_def vapor_initItem_def Let_def split: if_splits)

lemma lookup_known:
  assumes "cache_laws ops items" "vap_step ops cf (VLookup key) v = Some w"
    "snd (tc_Get ops True (vy_now v) key (vp_cache (vy_v v))) = Some e"
  shows "e \<in> known items w"
proof -
  obtain c r where g: "tc_Get ops True (vy_now v) key (vp_cache (vy_v v)) = (c, r)" by force
  from assms(1) g show ?thesis
  proof (cases rule: law_Get)
    case (hit it)
    have w: "w = v\<lparr>vy_v := (vy_v v)\<lparr>vp_cache := c\<rparr>\<rparr>" using assms(2) g by (auto split: if_splits)
    have "items c key = Some (touch_item (vy_now v) it)" using hit(3) by simp
    then have "fst (touch_item (vy_now v) it) \<in> ran (ent (items c))" by (rule ran_entI)
    moreover have "fst (touch_item (vy_now v) it) = e"
      using hit assms(3) g by (simp add: touch_item_def split: prod.splits)
    ultimately show ?thesis using w by (simp add: known_def)
  qed (use assms(3) g in simp)
qed

lemma rest_vapE:
  assumes "map_option (set_req q pc) (rx_vap env ev y) = Some z"
  obtains x where "rx_vap env ev y = Some x" "z = set_req q pc x"
  using assms by auto

lemma rx_vap_step: "rx_vap env ev y = Some x \<Longrightarrow> vap_step (re_cache env) (rest_conf env) ev (rx_v y) = Some (rx_v x)"
  by (auto simp: rx_vap_def)

lemma rest_vap_req:
  assumes g: "good_env items env" and i: "rest_inv items env y"
    and s: "map_option (set_req q pc) (rx_vap env ev y) = Some z"
    and ev: "\<And>key d. ev \<noteq> VTry key d" "\<And>e x. ev \<noteq> VMutate e x"
    and pc: "creating pc = creating (rx_reqs y ! q)"
    and n: "\<And>c k e. pc = NewStart c k e \<Longrightarrow> ev = VInitItem e"
    and u: "\<And>x e. rx_vap env ev y = Some x \<Longrightarrow> uses pc = Some e \<Longrightarrow>
      e \<in> known items (rx_v x) \<or> q < length (rx_reqs y) \<and> uses (rx_reqs y ! q) = Some e"
  shows "rest_inv items env z"
proof -
  obtain x where x: "rx_vap env ev y = Some x" "z = set_req q pc x" using s by (rule rest_vapE)
  note v = rest_vap [OF g i x(1) ev]
  have r: "rx_reqs x = rx_reqs y" using v(2) by (simp add: same_requests_def)
  show ?thesis unfolding x(2)
  proof (rule rest_set_req [OF v(1)])
    show "creating pc = creating (rx_reqs x ! q)" using pc r by simp
    show "ready (rx_v x) e" if "pc = NewStart c k e" for c k e
      using n [OF that] rx_vap_step [OF x(1)] init_ready by blast
    show "referenced items x e" if "uses pc = Some e" for e
      using u [OF x(1) that] r unfolding referenced_def by auto
  qed
qed

lemma rest_sess_req:
  assumes g: "good_env items env" and i: "rest_inv items env y"
    and s: "map_option (set_req q pc) (rx_sess env e ev y) = Some z"
    and ev: "rest_safe ev" "\<And>c. ev \<noteq> EStart c"
    and pc: "creating pc = creating (rx_reqs y ! q)" "\<And>c k e'. pc \<noteq> NewStart c k e'"
    and u: "\<And>e'. uses pc = Some e' \<Longrightarrow> q < length (rx_reqs y) \<and> uses (rx_reqs y ! q) = Some e'"
  shows "rest_inv items env z"
proof -
  obtain x where x: "rx_sess env e ev y = Some x" "z = set_req q pc x" using s by auto
  note v = rest_sess [OF g i x(1) ev]
  have r: "rx_reqs x = rx_reqs y" using v(2) by (simp add: same_requests_def)
  show ?thesis unfolding x(2)
    by (rule rest_set_req [OF v(1)]) (use pc u r in \<open>auto simp: referenced_def\<close>)
qed

lemma rest_call_req:
  assumes g: "good_env items env" and i: "rest_inv items env y"
    and s: "map_option (\<lambda>(i, y). set_req q (f i) y) (rx_call env e mk y) = Some z"
    and ev: "\<And>k. rest_safe (mk k)" "\<And>k c. mk k \<noteq> EStart c"
    and pc: "\<And>k. creating (f k) = creating (rx_reqs y ! q)" "\<And>k c k' e'. f k \<noteq> NewStart c k' e'"
    and u: "\<And>k e'. uses (f k) = Some e' \<Longrightarrow> q < length (rx_reqs y) \<and> uses (rx_reqs y ! q) = Some e'"
  shows "rest_inv items env z"
proof -
  obtain k x where x: "rx_call env e mk y = Some (k, x)" "z = set_req q (f k) x" using s by auto
  note v = rest_call [OF g i x(1) ev]
  have r: "rx_reqs x = rx_reqs y" using v(2) by (simp add: same_requests_def)
  show ?thesis unfolding x(2)
  proof (rule rest_set_req [OF v(1)])
    show "referenced items x e" if "uses (f k) = Some e" for e
      using u [OF that] r unfolding referenced_def by auto
  qed (use pc r in simp_all)
qed

lemma creating_answers [simp]:
  "creating (Answered a) = None" "creating new_failed = None" "creating copy_failed = None" "creating (copied cs fails e r) = None"
  by (simp_all add: new_failed_def copy_failed_def copied_def split: write_result.split option.split)

lemma uses_answers [simp]: "uses new_failed = None" "uses copy_failed = None"
  by (simp_all add: new_failed_def copy_failed_def)

lemma uses_copied: "uses (copied cs fails e r) = Some e' \<Longrightarrow> e' = e"
  by (simp add: copied_def split: write_result.splits option.splits)

lemma answers_not_start [simp]:
  "new_failed \<noteq> NewStart c k e" "copy_failed \<noteq> NewStart c k e" "copied cs fails e' r \<noteq> NewStart c k e"
  by (simp_all add: new_failed_def copy_failed_def copied_def split: write_result.split option.split)


lemma handle_plain [simp]: "creating (rest_ServeHTTP server r) = None" "uses (rest_ServeHTTP server r) = None"
    "rest_ServeHTTP server r \<noteq> NewStart c k e"
  by (auto simp: rest_ServeHTTP_def rest_handle_def with_id_def split: mux_result.split rest_route.split option.split)

lemma rest_get_inv:
  assumes g: "good_env items env" and i: "rest_inv items env y" and q: "q < length (rx_reqs y)"
    and s: "serve_get_step env q y = Some z"
  shows "rest_inv items env z"
proof (cases "rx_reqs y ! q")
  case (Find op key)
  then have "map_option (set_req q (Lookup op key)) (rx_vap env VStart y) = Some z"
    using s by (simp add: serve_get_step_def)
  then show ?thesis by (rule rest_vap_req [OF g i]) (simp_all add: Find)
next
  case (Lookup op key)
  let ?r = "snd (tc_Get (re_cache env) True (vy_now (rx_v y)) key (vp_cache (vy_v (rx_v y))))"
  have "map_option (set_req q (case ?r of None \<Rightarrow> Answered (http_Error ''process not found'' 404) | Some e \<Rightarrow> InitFound op e))
      (rx_vap env (VLookup key) y) = Some z"
    using s Lookup by (simp add: serve_get_step_def)
  then show ?thesis
  proof (rule rest_vap_req [OF g i])
    fix x e
    assume x: "rx_vap env (VLookup key) y = Some x"
      and u: "uses (case ?r of None \<Rightarrow> Answered (http_Error ''process not found'' 404) | Some e \<Rightarrow> InitFound op e) = Some e"
    have "?r = Some e" using u by (cases ?r) simp_all
    then show "e \<in> known items (rx_v x) \<or> q < length (rx_reqs y) \<and> uses (rx_reqs y ! q) = Some e"
      using lookup_known [OF _ rx_vap_step [OF x]] g unfolding good_env_def by blast
  qed (simp_all add: Lookup split: option.splits)
next
  case (InitFound op e)
  then have "map_option (set_req q (Operate op e)) (rx_vap env (VInitItem e) y) = Some z"
    using s by (simp add: serve_get_step_def)
  then show ?thesis by (rule rest_vap_req [OF g i]) (simp_all add: InitFound q)
qed (use s in \<open>simp_all add: serve_get_step_def\<close>)

lemma rest_op_inv:
  assumes g: "good_env items env" and i: "rest_inv items env y" and q: "q < length (rx_reqs y)"
    and s: "serve_op_step env q y = Some z"
  shows "rest_inv items env z"
proof (cases "rx_reqs y ! q")
  case (Operate op e)
  show ?thesis
  proof (cases op)
    case OpStatus
    then show ?thesis using s Operate unfolding serve_op_step_def serveStatus_step_def Let_def
      by (auto intro!: rest_sess_req [OF g i])
  next
    case (OpInput chunks fails)
    have s': "serveInput_step env q chunks fails e y = Some z" using s Operate OpInput by (simp add: serve_op_step_def)
    show ?thesis
    proof (cases chunks)
      case Nil
      then have "z = set_req q (if fails then copy_failed else Answered (Response 200 ''input sent'')) y"
        using s' by (simp add: serveInput_step_def)
      moreover have "rest_inv items env (set_req q (if fails then copy_failed else Answered (Response 200 ''input sent'')) y)"
        by (rule rest_set_req [OF i]) (use Operate in \<open>simp_all split: if_splits\<close>)
      ultimately show ?thesis by simp
    next
      case (Cons c cs)
      show ?thesis
      proof (cases "c = []")
        case True
        then have "z = set_req q (Operate (OpInput cs fails) e) y" using s' Cons by (simp add: serveInput_step_def)
        moreover have "rest_inv items env (set_req q (Operate (OpInput cs fails) e) y)"
          by (rule rest_set_req [OF i]) (use Operate q in \<open>auto simp: referenced_def\<close>)
        ultimately show ?thesis by simp
      next
        case False
        then obtain r where "map_option (set_req q (copied cs fails e r)) (rx_sess env e (EWrite c) y) = Some z"
          using s' Cons by (auto simp: serveInput_step_def split: option.splits)
        then show ?thesis
          by (rule rest_sess_req [OF g i]) (use Operate q in \<open>auto dest: uses_copied\<close>)
      qed
    qed
  next
    case OpCloseInput
    then have "map_option (\<lambda>(i, y). set_req q (ClosingInput e i) y) (rx_call env e ECloseInput y) = Some z"
      using s Operate by (simp add: serve_op_step_def)
    then show ?thesis by (rule rest_call_req [OF g i]) (simp_all add: Operate q)
  next
    case OpCancel
    then have "map_option (\<lambda>(i, y). set_req q (Closing e i) y) (rx_call env e (\<lambda>i. ECloseWith i ErrCancelClientRequest) y) = Some z"
      using s Operate by (simp add: serve_op_step_def)
    then show ?thesis by (rule rest_call_req [OF g i]) (simp_all add: Operate q)
  qed
next
  case (Writing cs fails e)
  then have "map_option (set_req q (copied cs fails e (fst (session_Write_end (sy_s (rx_session e y)))))) (rx_sess env e EWriteEnd y) = Some z"
    using s by (simp add: serve_op_step_def serveInput_wait_def)
  then show ?thesis by (rule rest_sess_req [OF g i]) (use Writing q in \<open>auto dest: uses_copied\<close>)
next
  case (ClosingInput e k)
  then obtain a where "z = set_req q (Answered a) y" using s by (auto simp: serve_op_step_def split: if_splits)
  then show ?thesis using rest_set_req [OF i, of "Answered a" q] ClosingInput by simp
next
  case (Closing e k)
  then obtain a where "z = set_req q (Answered a) y" using s by (auto simp: serve_op_step_def split: if_splits)
  then show ?thesis using rest_set_req [OF i, of "Answered a" q] Closing by simp
qed (use s in \<open>simp_all add: serve_op_step_def\<close>)

section \<open>Creating a session\<close>

lemma try_result_cases:
  assumes l: "cache_laws ops items" and r: "newEntry_try ops cf now key d v = (w, r)"
  obtains (same) "r = TryAgain \<or> r = TryStopped" "items (vp_cache w) = items (vp_cache v)"
    | (got) x where "r = TryGot (length (vp_heap v))" "items (vp_cache w) = (items (vp_cache v))(key \<mapsto> (length (vp_heap v), d, x))"
        "vp_heap w = vp_heap v @ [zero_entry cf]"
proof (cases "key = [] \<or> vp_stopped v")
  case True
  then show thesis using r same by (auto simp: newEntry_try_def split: if_splits)
next
  case False
  obtain c e found where g: "tc_GetOrSet ops now key (length (vp_heap v)) d (vp_cache v) = (c, e, found)"
    using prod_cases3 by blast
  from l g show thesis
  proof (cases rule: law_GetOrSet)
    case (hit it)
    then show thesis using r False g same by (auto simp: newEntry_try_def)
  next
    case (miss x)
    then show thesis using r False g got [of x] by (auto simp: newEntry_try_def zero_entry_def)
  qed
qed

lemma heap_step_quiet:
  assumes "heap_step (rest_conf env) (vy_heap v) (vy_heap w)" "vap_inv items (rest_conf env) v" "rv_context (re_server env) = None"
  shows "(started v e \<longrightarrow> started w e) \<and> (unstarted v e \<longrightarrow> unstarted w e) \<and> (ready v e \<longrightarrow> ready w e)"
proof (cases "e < length (vy_heap v)")
  case True
  then have "entry_step (rest_conf env) (vy_heap v ! e) (vy_heap w ! e) \<and> e < length (vy_heap w)"
    using assms(1) by (auto simp: heap_step_def)
  then show ?thesis using entry_unused [OF assms(2) True] conf_init [OF assms(3)]
    by (auto simp: started_def unstarted_def ready_def entry_step_def)
qed (simp add: started_def unstarted_def ready_def)

lemma rest_try_inv:
  assumes g: "good_env items env" and i: "rest_inv items env y" and q: "q < length (rx_reqs y)"
    and s: "serveNew_try env q key y = Some z"
  shows "rest_inv items env z"
proof -
  let ?d = "ro_Timeout (rv_options (re_server env))"
  obtain call n where n: "rx_reqs y ! q = NewTry call n" "n < maxNewIDCalls"
    using s by (auto simp: serveNew_try_def split: rest_req.splits if_splits)
  obtain v' r where r: "newEntry_try (re_cache env) (rest_conf env) (vy_now (rx_v y)) key ?d (vy_v (rx_v y)) = (v', r)"
    by force
  let ?pc = "case r of TryAgain \<Rightarrow> NewTry call (Suc n) | TryStopped \<Rightarrow> new_failed | TryGot e \<Rightarrow> NewInit call key e"
  obtain x where x: "rx_vap env (VTry key ?d) y = Some x" "z = set_req q ?pc x"
    using s n r by (auto simp: serveNew_try_def Let_def)
  define w where "w = rx_v x"
  have w: "vy_v w = v'" "vy_pending w = vy_pending (rx_v y)" "vy_workers w = vy_workers (rx_v y)" "x = y\<lparr>rx_v := w\<rparr>"
    using x(1) r by (auto simp: rx_vap_def w_def split: if_splits)
  have l: "cache_laws (re_cache env) items" "rv_context (re_server env) = None"
      "vap_inv items (rest_conf env) (rx_v y)" "sessions_ok (rx_v y)"
    using g i unfolding good_env_def rest_inv_def by blast+
  have step: "vap_step (re_cache env) (rest_conf env) (VTry key ?d) (rx_v y) = Some w"
    using rx_vap_step [OF x(1)] by (simp add: w_def)
  note v = vap_quiet(1,2) [OF l step]
  have h: "heap_step (rest_conf env) (vy_heap (rx_v y)) (vy_heap w)" using step by (rule vap_step_heap) simp
  note hq = heap_step_quiet [OF h l(3,2)]
  from l(1) r show ?thesis
  proof (cases rule: try_result_cases)
    case same
    have "known items w = known items (rx_v y)" using same(2) w by (simp add: known_def)
    then have qt: "quiet items (rx_v y) w" unfolding quiet_def using hq by blast
    have "rest_inv items env x" by (rule quiet_inv [OF i v qt]) (simp_all add: w)
    then show ?thesis unfolding x(2) by (rule rest_set_req) (use same(1) n w in auto)
  next
    case (got b)
    let ?e = "length (vy_heap (rx_v y))"
    have z: "rx_v z = w" "rx_reqs z = (rx_reqs y)[q := NewInit call key ?e]" "rx_in_f z = rx_in_f y"
      using x(2) w got(1) by simp_all
    have cr: "creators_ok (rx_v y) (rx_reqs y)" using i unfolding rest_inv_def by blast
    have old: "creating (rx_reqs y ! j) \<noteq> Some ?e" if "j < length (rx_reqs y)" for j
      using cr that unfolding creators_ok_def unstarted_def by blast
    have un: "unstarted w ?e" using got(3) w(1) by (simp add: unstarted_def zero_entry_def)
    have "creators_ok w (rx_reqs z)"
      unfolding creators_ok_def z(2) length_list_update
    proof (intro conjI allI impI)
      fix j j'
      assume "j < length (rx_reqs y)" "j' < length (rx_reqs y)" "creating ((rx_reqs y)[q := NewInit call key ?e] ! j) \<noteq> None"
        "creating ((rx_reqs y)[q := NewInit call key ?e] ! j) = creating ((rx_reqs y)[q := NewInit call key ?e] ! j')"
      then show "j = j'" using old [of j] old [of j'] cr q unfolding creators_ok_def
        by (cases "j = q"; cases "j' = q") auto
    next
      fix j e
      assume "j < length (rx_reqs y)" "creating ((rx_reqs y)[q := NewInit call key ?e] ! j) = Some e"
      then show "unstarted w e" using un cr hq unfolding creators_ok_def by (cases "j = q") auto
    next
      fix j c k e
      assume "j < length (rx_reqs y)" "(rx_reqs y)[q := NewInit call key ?e] ! j = NewStart c k e"
      then show "ready w e" using cr hq unfolding creators_ok_def by (cases "j = q") auto
    qed
    moreover have "attended z e" if "referenced items z e" for e
    proof (cases "e = ?e")
      case True
      then show ?thesis using q z(2) by (auto simp: attended_def created_def intro!: exI [of _ q])
    next
      case False
      have "ran (ent (vy_items items w)) \<subseteq> insert ?e (ran (ent (vy_items items (rx_v y))))"
        using got(2) w(1) by (auto simp: ran_def ent_def split: if_splits)
      then have "known items w \<subseteq> insert ?e (known items (rx_v y))" using w by (auto simp: known_def)
      moreover have "uses (rx_reqs y ! j) = Some e" if "j < length (rx_reqs y)" "uses (rx_reqs z ! j) = Some e" for j
        using that z(2) by (cases "j = q") auto
      ultimately have "referenced items y e" using \<open>referenced items z e\<close> False z by (auto simp: referenced_def)
      then have "attended y e" using i unfolding rest_inv_def by blast
      moreover have "created (rx_reqs y) e \<Longrightarrow> created (rx_reqs z) e"
        unfolding created_def z(2) using n(1)
        by (metis creating.simps(4) length_list_update nth_list_update_neq option.distinct(1))
      ultimately show ?thesis unfolding attended_def z(1) using hq by blast
    qed
    ultimately show ?thesis using v unfolding rest_inv_def z(1) by blast
  qed
qed

lemma rest_start_facts:
  assumes g: "good_env items env" and i: "rest_inv items env y" and q: "q < length (rx_reqs y)"
    and n: "rx_reqs y ! q = NewStart call key e"
  shows "ready (rx_v y) e" "ss_stage (sy_s (rx_session e y)) = stageInit"
    "\<not> rlocked (rx_session e y) \<Longrightarrow> rx_sess env e (EStart call) y \<noteq> None"
    "rx_sess env e (EStart call) y = Some x \<Longrightarrow>
      \<exists>s. x = y\<lparr>rx_v := mutate e s (rx_v y)\<rparr> \<and> ss_stage (sy_s s) = stageRunning \<and> ss_call (sy_s s) = call \<and>
        sy_run s = RunGet \<and> sess_ok s"
proof -
  have "creators_ok (rx_v y) (rx_reqs y)" using i unfolding rest_inv_def by blast
  moreover have "creating (rx_reqs y ! q) = Some e" using n by simp
  ultimately have r: "unstarted (rx_v y) e" "ready (rx_v y) e" using q n unfolding creators_ok_def by blast+
  then show "ready (rx_v y) e" by blast
  show st: "ss_stage (sy_s (rx_session e y)) = stageInit" using r by (simp add: unstarted_def ready_def rx_session_def)
  show "rx_sess env e (EStart call) y \<noteq> None" if "\<not> rlocked (rx_session e y)"
    using that r(2) by (simp add: rx_sess_def rx_vap_def step_mutate session_Start_def del: not_None_eq vap_step.simps split: prod.split)
  assume "rx_sess env e (EStart call) y = Some x"
  then obtain s where s: "sess_step (re_bufs env) (EStart call) (rx_session e y) = Some s" "x = y\<lparr>rx_v := mutate e s (rx_v y)\<rparr>"
    by (rule rx_sessE)
  have "sess_ok s" using sess_ok_step [OF session_is_ok [OF i r(2)] s(1)] by simp
  then show "\<exists>s. x = y\<lparr>rx_v := mutate e s (rx_v y)\<rparr> \<and> ss_stage (sy_s s) = stageRunning \<and> ss_call (sy_s s) = call \<and>
        sy_run s = RunGet \<and> sess_ok s"
    using s(2) stage_start [OF st s(1)] by blast
qed

end
