(* ===== verification/RestStep.thy ===== *)
theory RestStep
  imports RestInv
begin

text \<open>
  Every step of the REST server keeps its invariant: the start of a session, the callbacks of the
  vapor, the workers of \<open>EvictAfter\<close> and \<open>Close\<close>.
\<close>

section \<open>Starting a session\<close>

lemma answered_not_creating: "rs[q := Answered a] ! j = NewStart c k e \<Longrightarrow> j < length rs \<Longrightarrow> j \<noteq> q \<and> rs ! j = NewStart c k e"
  by (cases "j = q") auto

lemma answered_creating: "j < length rs \<Longrightarrow> creating (rs[q := Answered a] ! j) = (if j = q then None else creating (rs ! j))"
  by simp

lemma rest_start_inv:
  assumes g: "good_env items env" and i: "rest_inv items env y" and q: "q < length (rx_reqs y)"
    and n: "rx_reqs y ! q = NewStart call key e"
    and s: "map_option (set_req q (Answered a)) (rx_sess env e (EStart call) y) = Some z"
  shows "rest_inv items env z"
proof -
  obtain x where x: "rx_sess env e (EStart call) y = Some x" "z = set_req q (Answered a) x" using s by auto
  note f = rest_start_facts [OF g i q n]
  obtain s where s: "x = y\<lparr>rx_v := mutate e s (rx_v y)\<rparr>" "ss_stage (sy_s s) = stageRunning" "sess_ok s"
    using f(4) [OF x(1)] by blast
  define w where "w = mutate e s (rx_v y)"
  have z: "rx_v z = w" "rx_reqs z = (rx_reqs y)[q := Answered a]" "rx_in_f z = rx_in_f y"
    using x(2) s(1) by (simp_all add: w_def)
  have inv: "vap_inv items (rest_conf env) (rx_v y)" "sessions_ok (rx_v y)" "creators_ok (rx_v y) (rx_reqs y)"
    using i unfolding rest_inv_def by blast+
  have l: "cache_laws (re_cache env) items" using g by (simp add: good_env_def)
  note m = mutate_quiet(1,2) [OF inv(1) l inv(2) f(1) s(3), folded w_def]
  have st: "started w e" using f(1) s(2) by (simp add: w_def started_def ready_def)
  have keep: "(started (rx_v y) e' \<longrightarrow> started w e') \<and> (e' \<noteq> e \<longrightarrow> unstarted (rx_v y) e' \<longrightarrow> unstarted w e') \<and> ready w e' = ready (rx_v y) e'" for e'
    using s(2) by (cases "e' = e") (simp_all add: w_def started_def unstarted_def)
  have other: "e' \<noteq> e" if "j < length (rx_reqs y)" "j \<noteq> q" "creating (rx_reqs y ! j) = Some e'" for j e'
    using inv(3) q n that unfolding creators_ok_def by fastforce
  have "creators_ok w (rx_reqs z)"
    unfolding creators_ok_def z(2) length_list_update
  proof (intro conjI allI impI)
    fix j j'
    assume "j < length (rx_reqs y)" "j' < length (rx_reqs y)" "creating ((rx_reqs y)[q := Answered a] ! j) \<noteq> None"
      "creating ((rx_reqs y)[q := Answered a] ! j) = creating ((rx_reqs y)[q := Answered a] ! j')"
    then show "j = j'" using inv(3) unfolding creators_ok_def by (auto simp: answered_creating split: if_splits)
  next
    fix j e'
    assume j: "j < length (rx_reqs y)" "creating ((rx_reqs y)[q := Answered a] ! j) = Some e'"
    then have o: "j \<noteq> q" "creating (rx_reqs y ! j) = Some e'" by (simp_all add: answered_creating split: if_splits)
    then have "unstarted (rx_v y) e'" using j(1) inv(3) unfolding creators_ok_def by blast
    then show "unstarted w e'" using other [OF j(1) o] keep by blast
  next
    fix j c k e'
    assume "j < length (rx_reqs y)" "(rx_reqs y)[q := Answered a] ! j = NewStart c k e'"
    then show "ready w e'" using answered_not_creating keep inv(3) unfolding creators_ok_def by blast
  qed
  moreover have "attended z e'" if r: "referenced items z e'" for e'
  proof -
    have "uses (rx_reqs y ! j) = Some e'" if "j < length (rx_reqs y)" "uses (rx_reqs z ! j) = Some e'" for j
      using that z(2) by (cases "j = q") auto
    then have "referenced items y e'" using r z by (auto simp: referenced_def w_def)
    then have "attended y e'" using i unfolding rest_inv_def by blast
    moreover have "created (rx_reqs z) e'" if c: "created (rx_reqs y) e'" "e' \<noteq> e"
    proof -
      obtain j where j: "j < length (rx_reqs y)" "creating (rx_reqs y ! j) = Some e'" using c(1) by (auto simp: created_def)
      then have "j \<noteq> q" using n c(2) by auto
      then show ?thesis using j z(2) by (auto simp: created_def intro!: exI [of _ j])
    qed
    ultimately show ?thesis unfolding attended_def z(1) using keep st by blast
  qed
  ultimately show ?thesis using m unfolding rest_inv_def z(1) by blast
qed

lemma rest_new_inv:
  assumes g: "good_env items env" and i: "rest_inv items env y" and q: "q < length (rx_reqs y)"
    and s: "serveNew_step env q y = Some z"
  shows "rest_inv items env z"
proof (cases "rx_reqs y ! q")
  case (NewBegin call)
  then have "map_option (set_req q (NewTry call 0)) (rx_vap env VStart y) = Some z"
    using s by (simp add: serveNew_step_def)
  then show ?thesis by (rule rest_vap_req [OF g i]) (simp_all add: NewBegin)
next
  case (NewTry call n)
  then have "z = set_req q new_failed y" using s by (auto simp: serveNew_step_def split: if_splits)
  then show ?thesis using rest_set_req [OF i, of new_failed q] NewTry by simp
next
  case (NewInit call key e)
  then have "map_option (set_req q (NewStart call key e)) (rx_vap env (VInitItem e) y) = Some z"
    using s by (simp add: serveNew_step_def)
  then show ?thesis by (rule rest_vap_req [OF g i]) (simp_all add: NewInit)
next
  case (NewStart call key e)
  then have "map_option (set_req q (Answered (Response 200 (json_string key @ [newline])))) (rx_sess env e (EStart call) y) = Some z"
    using s by (simp add: serveNew_step_def)
  then show ?thesis by (rule rest_start_inv [OF g i q NewStart])
qed (use s in \<open>simp_all add: serveNew_step_def\<close>)

lemma rest_req_inv:
  assumes "good_env items env" "rest_inv items env y" "q < length (rx_reqs y)" "rest_req_step env q y = Some z"
  shows "rest_inv items env z"
proof -
  have "serveNew_step env q y = Some z \<or> serve_get_step env q y = Some z \<or> serve_op_step env q y = Some z"
    using assms(4) by (auto simp: rest_req_step_def split: rest_req.splits)
  then show ?thesis
    using rest_new_inv [OF assms(1-3)] rest_get_inv [OF assms(1-3)] rest_op_inv [OF assms(1-3)] by blast
qed

section \<open>Callbacks, workers and arrivals\<close>

lemma rest_call_quiet:
  assumes g: "good_env items env" and i: "rest_inv items env y" and s: "rx_call env e mk y = Some (k, z)"
    and ev: "rest_safe (mk k)" "\<And>c. mk k \<noteq> EStart c"
  shows "quiet items (rx_v y) (rx_v z)"
proof -
  obtain t where t: "ready (rx_v y) e" "k = length (sy_clients (rx_session e y))"
      "sess_step (re_bufs env) (mk k) ((rx_session e y)\<lparr>sy_clients := sy_clients (rx_session e y) @ [Idle]\<rparr>) = Some t"
      "z = y\<lparr>rx_v := mutate e t (rx_v y)\<rparr>"
    using s by (rule rx_callE)
  note ok = sess_ok_idle [OF session_is_ok [OF i t(1)]]
  have v: "cache_laws (re_cache env) items" "vap_inv items (rest_conf env) (rx_v y)" "sessions_ok (rx_v y)"
    using g i unfolding good_env_def rest_inv_def by blast+
  have "(ss_stage (sy_s t) = stageInit) = (ss_stage (sy_s (en_value (vy_heap (rx_v y) ! e))) = stageInit)"
    using stage_kept [OF ok t(3) ev(2)] by (simp add: rx_session_def)
  then show ?thesis
    using mutate_quiet(3) [OF v(2,1,3) t(1) sess_ok_step [OF ok t(3) ev(1)]] t(4) by simp
qed

lemma attended_kept:
  "quiet items (rx_v y) (rx_v z) \<Longrightarrow> same_requests y z \<Longrightarrow> attended y e \<Longrightarrow> attended z e"
  by (auto simp: quiet_def same_requests_def attended_def)

lemma rest_in_f:
  assumes "rest_inv items env y" "attended y e"
  shows "rest_inv items env (y\<lparr>rx_in_f := (rx_in_f y)(j \<mapsto> (e, k))\<rparr>)"
proof -
  have "attended y e'" if "referenced items (y\<lparr>rx_in_f := (rx_in_f y)(j \<mapsto> (e, k))\<rparr>) e'" for e'
  proof (cases "e' = e")
    case False
    then have "referenced items y e'" using that by (auto simp: referenced_def split: if_splits)
    then show ?thesis using assms(1) unfolding rest_inv_def by blast
  qed (use assms(2) in simp)
  then show ?thesis using assms(1) by (simp add: rest_inv_def attended_def)
qed

lemma rest_callback_inv:
  assumes g: "good_env items env" and i: "rest_inv items env y" and s: "rest_callback env n y = Some z"
  shows "rest_inv items env z"
proof -
  obtain x where x: "rx_vap env (VCallback n) y = Some x"
      "z = x \<or> (\<exists>k e. rx_call env e (\<lambda>i. ECloseWith i ErrCancelTimeout) x = Some (k, z))"
    using s by (auto simp: rest_callback_def split: if_splits option.splits prod.splits)
  have "rest_inv items env x" by (rule rest_vap [OF g i x(1)]) simp_all
  then show ?thesis using x(2) rest_call(1) [OF g] by fastforce
qed

lemma rest_worker_inv:
  assumes g: "good_env items env" and i: "rest_inv items env y" and s: "rest_worker env j y = Some z"
  shows "rest_inv items env z"
proof (cases "\<exists>k e. j < length (vy_workers (rx_v y)) \<and> vy_workers (rx_v y) ! j = W_call k e")
  case True
  then obtain k e where w: "j < length (vy_workers (rx_v y))" "vy_workers (rx_v y) ! j = W_call k e" by blast
  obtain x n u where x: "rx_vap env (VWorker j) y = Some x" "rx_call env e (\<lambda>i. ECloseWith i errServerClose) x = Some (n, u)"
      "z = u\<lparr>rx_in_f := (rx_in_f u)(j \<mapsto> (e, n))\<rparr>"
    using s w by (auto simp: rest_worker_def split: option.splits)
  have "W_call k e \<in> set (vy_workers (rx_v y))" using w by (metis nth_mem)
  then have "attended y e" using i unfolding rest_inv_def referenced_def known_def by blast
  moreover have v: "rest_inv items env x" "same_requests y x" "quiet items (rx_v y) (rx_v x)"
    by (rule rest_vap [OF g i x(1)]; simp)+
  ultimately have "attended x e" using attended_kept by blast
  moreover have "rest_inv items env u" "same_requests x u" by (rule rest_call [OF g v(1) x(2)]; simp)+
  moreover have "quiet items (rx_v x) (rx_v u)" by (rule rest_call_quiet [OF g v(1) x(2)]) simp_all
  ultimately show ?thesis unfolding x(3) using rest_in_f attended_kept by blast
next
  case False
  then have "rx_vap env (VWorker j) y = Some z"
    using s by (auto simp: rest_worker_def split: if_splits worker.splits option.splits prod.splits)
  then show ?thesis by (rule rest_vap [OF g i]) simp_all
qed

lemma rest_arrival:
  assumes i: "rest_inv items env y" and r: "creating r = None" "uses r = None" "\<And>c k e. r \<noteq> NewStart c k e"
  shows "rest_inv items env (y\<lparr>rx_reqs := rx_reqs y @ [r]\<rparr>)"
proof -
  have cr: "creators_ok (rx_v y) (rx_reqs y)" using i unfolding rest_inv_def by blast
  have "creators_ok (rx_v y) (rx_reqs y @ [r])"
    unfolding creators_ok_def
  proof (intro conjI allI impI)
    fix j j'
    assume "j < length (rx_reqs y @ [r])" "j' < length (rx_reqs y @ [r])" "creating ((rx_reqs y @ [r]) ! j) \<noteq> None"
      "creating ((rx_reqs y @ [r]) ! j) = creating ((rx_reqs y @ [r]) ! j')"
    then show "j = j'" using cr r(1) unfolding creators_ok_def by (auto simp: nth_append less_Suc_eq split: if_splits)
  next
    fix j e
    assume "j < length (rx_reqs y @ [r])" "creating ((rx_reqs y @ [r]) ! j) = Some e"
    then show "unstarted (rx_v y) e" using cr r(1) unfolding creators_ok_def
      by (auto simp: nth_append less_Suc_eq split: if_splits)
  next
    fix j c k e
    assume "j < length (rx_reqs y @ [r])" "(rx_reqs y @ [r]) ! j = NewStart c k e"
    then show "ready (rx_v y) e" using cr r(3) unfolding creators_ok_def
      by (auto simp: nth_append less_Suc_eq split: if_splits)
  qed
  moreover have "created (rx_reqs y @ [r]) = created (rx_reqs y)"
    using r(1) by (auto simp: created_def fun_eq_iff nth_append less_Suc_eq)
  moreover have "referenced items (y\<lparr>rx_reqs := rx_reqs y @ [r]\<rparr>) = referenced items y"
    using r(2) by (auto simp: referenced_def fun_eq_iff nth_append less_Suc_eq)
  ultimately show ?thesis using i unfolding rest_inv_def attended_def by simp
qed


section \<open>The invariant\<close>

lemma rest_event_inv:
  assumes g: "good_env items env" and i: "rest_inv items env y" and s: "rest_step env ev y = Some z"
  shows "rest_inv items env z"
proof (cases ev)
  case (RRequest r)
  then show ?thesis using s rest_arrival [OF i, of "rest_ServeHTTP (re_server env) r"] by simp
next
  case (RReq q)
  then show ?thesis using s rest_req_inv [OF g i, of q z] by (simp split: if_splits)
next
  case (RTry q key)
  then show ?thesis using s rest_try_inv [OF g i, of q key z] by (simp split: if_splits)
next
  case (RSess e sv)
  then have h: "handler_event sv" "rx_sess env e sv y = Some z" using s by (simp_all split: if_splits)
  then have "rest_safe sv" "\<And>c. sv \<noteq> EStart c" by (cases sv; simp)+
  then show ?thesis using rest_sess(1) [OF g i h(2)] by blast
next
  case RClose
  then obtain x where x: "rx_vap env (VEvictAfter True) y = Some x" "rx_v z = rx_v x" "rx_reqs z = rx_reqs x" "rx_in_f z = rx_in_f x"
    using s by (auto simp: rest_Close_def)
  have "rest_inv items env x" by (rule rest_vap [OF g i x(1)]) simp_all
  then show ?thesis using x(2-4) by (simp add: rest_inv_def referenced_def attended_def)
next
  case (RCloseStep c)
  have close: "rest_inv items env (set_close c pc x)" if "rest_inv items env x" for pc x
    using that by (simp add: rest_inv_def referenced_def attended_def set_close_def)
  have "z = set_close c CloseVapor y \<or> (\<exists>x. rx_vap env VClose y = Some x \<and> z = set_close c CloseDone x)"
    using s RCloseStep by (auto simp: rest_Close_step_def split: if_splits close_pc.splits)
  moreover have "rest_inv items env x" if "rx_vap env VClose y = Some x" for x
    by (rule rest_vap [OF g i that]) simp_all
  ultimately show ?thesis using close i by blast
next
  case (RCallback n)
  then show ?thesis using s rest_callback_inv [OF g i, of n z] by simp
next
  case (RWorker j)
  then show ?thesis using s rest_worker_inv [OF g i, of j z] by simp
next
  case (RTick n)
  then have "rx_vap env (VTick n) y = Some z" using s by simp
  then show ?thesis by (rule rest_vap [OF g i]) simp_all
next
  case RCleanup
  then have "rx_vap env VCleanup y = Some z" using s by simp
  then show ?thesis by (rule rest_vap [OF g i]) simp_all
next
  case (RKeys n)
  then have "rx_vap env (VKeys n) y = Some z" using s by simp
  then show ?thesis by (rule rest_vap [OF g i]) simp_all
next
  case (RWait n)
  then have "rx_vap env (VWait n) y = Some z" using s by simp
  then show ?thesis by (rule rest_vap [OF g i]) simp_all
qed

lemma rest_inv_start:
  assumes "good_env items env" "rest_start env y"
  shows "rest_inv items env y"
proof -
  have v: "vap_start (re_cache env) (rx_v y)" and r: "rx_reqs y = []" "rx_in_f y = Map.empty"
    using assms(2) unfolding rest_start_def by blast+
  have l: "cache_laws (re_cache env) items" using assms(1) by (simp add: good_env_def)
  have "vap_inv items (rest_conf env) (rx_v y)" using l v by (rule vap_inv_start)
  moreover have "vy_heap (rx_v y) = []" "known items (rx_v y) = {}"
    using v law_New [OF l] by (auto simp: vap_start_def vapor_zero_def known_def)
  ultimately show ?thesis using r
    by (simp add: rest_inv_def sessions_ok_def creators_ok_def referenced_def)
qed

end
