(* ===== verification/RestCalls.thy ===== *)
theory RestCalls
  imports RestStep
begin

text \<open>
  The REST server and time: its steps as moves of the vapor and its sessions, what no step takes
  back, and the calls of \<open>CloseWith\<close>, \<open>CloseInput\<close> and \<open>Close\<close> that wait for something.
\<close>

section \<open>Moves\<close>

text \<open>A step of a session, possibly with a new client, is a change of its element.\<close>

definition session_move :: "('rb, 'lb) buf_ops \<Rightarrow> 'v sess_event \<Rightarrow> ('v, 'rb, 'lb) sess_sys \<Rightarrow> ('v, 'rb, 'lb) sess_sys \<Rightarrow> bool" where
  "session_move bops ev s t \<longleftrightarrow>
     sess_step bops ev s = Some t \<or> sess_step bops ev (s\<lparr>sy_clients := sy_clients s @ [Idle]\<rparr>) = Some t"

inductive move :: "('c, 'v, 'rb, 'lb) rest_env \<Rightarrow> ('c, 'v, 'rb, 'lb) rest_vap \<Rightarrow> ('c, 'v, 'rb, 'lb) rest_vap \<Rightarrow> bool"
  for env :: "('c, 'v, 'rb, 'lb) rest_env" where
  move_stay: "move env v v"
| move_vap: "vap_step (re_cache env) (rest_conf env) ev v = Some w \<Longrightarrow> (\<And>e x. ev \<noteq> VMutate e x) \<Longrightarrow> move env v w"
| move_sess: "ready v e \<Longrightarrow> session_move (re_bufs env) ev (en_value (vy_heap v ! e)) t \<Longrightarrow> rest_safe ev \<Longrightarrow>
    move env v (mutate e t v)"

lemma rx_vap_move: "rx_vap env ev y = Some x \<Longrightarrow> (\<forall>e u. ev \<noteq> VMutate e u) \<longrightarrow> move env (rx_v y) (rx_v x)"
  using rx_vap_step move_vap by blast

lemma rx_sess_move: "rx_sess env e ev y = Some x \<Longrightarrow> rest_safe ev \<longrightarrow> move env (rx_v y) (rx_v x)"
  by (erule rx_sessE) (auto simp: rx_session_def session_move_def intro: move_sess)

lemma rx_call_move: "rx_call env e mk y = Some (k, x) \<Longrightarrow> rest_safe (mk k) \<longrightarrow> move env (rx_v y) (rx_v x)"
  by (erule rx_callE) (auto simp: rx_session_def session_move_def intro: move_sess)

lemmas component_moves = rx_vap_move rx_sess_move rx_call_move

lemma new_step_move: "serveNew_step env q y = Some z \<Longrightarrow> move env (rx_v y) (rx_v z)"
  by (auto simp: serveNew_step_def intro: move_stay dest!: component_moves split: rest_req.splits if_splits)

lemma get_step_move: "serve_get_step env q y = Some z \<Longrightarrow> move env (rx_v y) (rx_v z)"
  by (auto simp: serve_get_step_def dest!: component_moves split: rest_req.splits)

lemma op_step_move: "serve_op_step env q y = Some z \<Longrightarrow> move env (rx_v y) (rx_v z)"
  by (auto simp: serve_op_step_def serveStatus_step_def serveInput_step_def serveInput_wait_def Let_def
      intro: move_stay dest!: component_moves
      split: rest_req.splits rest_op.splits if_splits list.splits option.splits)

lemma req_step_move: "rest_req_step env q y = Some z \<Longrightarrow> move env (rx_v y) (rx_v z)"
  by (auto simp: rest_req_step_def dest: new_step_move get_step_move op_step_move split: rest_req.splits)

lemma one_move: "move env v w \<Longrightarrow> \<exists>u. move env v u \<and> move env u w"
  using move_stay by blast

lemma try_move:
  assumes "serveNew_try env q key y = Some z"
  shows "move env (rx_v y) (rx_v z)"
proof -
  obtain ev pc x where "rx_vap env (VTry key ev) y = Some x" "z = set_req q pc x"
    using assms by (auto simp: serveNew_try_def Let_def split: rest_req.splits if_splits)
  then show ?thesis using rx_vap_move [of env "VTry key ev" y x] by simp
qed

lemma callback_move:
  assumes "rest_callback env n y = Some z"
  shows "\<exists>u. move env (rx_v y) u \<and> move env u (rx_v z)"
proof -
  obtain x where x: "rx_vap env (VCallback n) y = Some x"
      "z = x \<or> (\<exists>k e. rx_call env e (\<lambda>i. ECloseWith i ErrCancelTimeout) x = Some (k, z))"
    using assms by (auto simp: rest_callback_def split: if_splits option.splits prod.splits)
  have "move env (rx_v y) (rx_v x)" using rx_vap_move [OF x(1)] by simp
  then show ?thesis using x(2) rx_call_move move_stay by fastforce
qed

text \<open>What a worker did when it took a step.\<close>

lemma workerE:
  assumes "rest_worker env j y = Some z"
  obtains (call) k e x n u where "j < length (vy_workers (rx_v y))" "vy_workers (rx_v y) ! j = W_call k e"
      "rx_vap env (VWorker j) y = Some x" "rx_call env e (\<lambda>i. ECloseWith i errServerClose) x = Some (n, u)"
      "z = u\<lparr>rx_in_f := (rx_in_f u)(j \<mapsto> (e, n))\<rparr>"
    | (returned) k e i where "j < length (vy_workers (rx_v y))" "vy_workers (rx_v y) ! j = W_in_f k" "rx_in_f y j = Some (e, i)"
      "client_at e i y = CW_returned" "rx_vap env (VWorker j) y = Some z"
    | (other) "j < length (vy_workers (rx_v y))" "\<And>k e. vy_workers (rx_v y) ! j \<noteq> W_call k e"
      "\<And>k. vy_workers (rx_v y) ! j \<noteq> W_in_f k" "rx_vap env (VWorker j) y = Some z"
proof (cases "j < length (vy_workers (rx_v y))")
  case True
  show thesis
  proof (cases "vy_workers (rx_v y) ! j")
    case (W_call k e)
    then show thesis using assms True call by (auto simp: rest_worker_def split: option.splits)
  next
    case (W_in_f k)
    then show thesis using assms True returned by (auto simp: rest_worker_def split: option.splits if_splits)
  qed (use assms True other in \<open>simp_all add: rest_worker_def\<close>)
qed (use assms in \<open>simp add: rest_worker_def\<close>)

lemma worker_move: "rest_worker env j y = Some z \<Longrightarrow> \<exists>u. move env (rx_v y) u \<and> move env u (rx_v z)"
proof (erule workerE)
  fix k e x n u
  assume "rx_vap env (VWorker j) y = Some x" "rx_call env e (\<lambda>i. ECloseWith i errServerClose) x = Some (n, u)"
    and z: "z = u\<lparr>rx_in_f := (rx_in_f u)(j \<mapsto> (e, n))\<rparr>"
  then have "move env (rx_v y) (rx_v x)" "move env (rx_v x) (rx_v u)"
    using rx_vap_move [of env "VWorker j" y x] rx_call_move [of env e "\<lambda>i. ECloseWith i errServerClose" x n u] by simp_all
  then show ?thesis using z by auto
qed (use rx_vap_move [of env "VWorker j" y z] move_stay in \<open>fastforce+\<close>)

lemma rest_step_moves: "rest_step env ev y = Some z \<Longrightarrow> \<exists>u. move env (rx_v y) u \<and> move env u (rx_v z)"
proof (cases ev)
  case (RReq q)
  then show "rest_step env ev y = Some z \<Longrightarrow> ?thesis"
    by (auto dest: req_step_move intro: one_move split: if_splits)
next
  case (RTry q key)
  then show "rest_step env ev y = Some z \<Longrightarrow> ?thesis" by (auto dest: try_move intro: one_move split: if_splits)
next
  case (RSess e sv)
  assume s: "rest_step env ev y = Some z"
  then have h: "handler_event sv" "rx_sess env e sv y = Some z" using RSess by (simp_all split: if_splits)
  then have "rest_safe sv" by (cases sv) simp_all
  then show ?thesis using rx_sess_move [OF h(2)] move_stay by blast
next
  case RClose
  then show "rest_step env ev y = Some z \<Longrightarrow> ?thesis" using rx_vap_move move_stay by (fastforce simp: rest_Close_def)
next
  case (RCloseStep c)
  assume "rest_step env ev y = Some z"
  then have "rx_v z = rx_v y \<or> (\<exists>x. rx_vap env VClose y = Some x \<and> rx_v z = rx_v x)"
    using RCloseStep by (auto simp: rest_Close_step_def set_close_def split: if_splits close_pc.splits)
  then show ?thesis using rx_vap_move [of env VClose] move_stay by fastforce
next
  case (RCallback n)
  then show "rest_step env ev y = Some z \<Longrightarrow> ?thesis" using callback_move by simp
next
  case (RWorker j)
  then show "rest_step env ev y = Some z \<Longrightarrow> ?thesis" using worker_move by simp
qed (use rx_vap_move move_stay in \<open>fastforce+\<close>)

section \<open>What no step takes back\<close>

definition sessions_grow :: "('c, 'v, 'rb, 'lb) rest_vap \<Rightarrow> ('c, 'v, 'rb, 'lb) rest_vap \<Rightarrow> bool" where
  "sessions_grow v w \<longleftrightarrow> (\<forall>e. ready v e \<longrightarrow> ready w e \<and>
     sess_grows (sy_s (en_value (vy_heap v ! e))) (sy_s (en_value (vy_heap w ! e))) \<and>
     length (sy_clients (en_value (vy_heap v ! e))) \<le> length (sy_clients (en_value (vy_heap w ! e))))"

lemma sessions_grow_refl [simp]: "sessions_grow v v"
  by (simp add: sessions_grow_def)

lemma sessions_grow_trans: "sessions_grow u v \<Longrightarrow> sessions_grow v w \<Longrightarrow> sessions_grow u w"
  unfolding sessions_grow_def using sess_grows_trans le_trans by blast

lemma sess_step_clients: "sess_step bops ev s = Some t \<Longrightarrow> length (sy_clients t) = length (sy_clients s)"
  by (cases ev)
    (auto simp: end_closure_def run_step_def client_step_def set_client_def Let_def
      split: if_splits prod.splits read_result.splits write_result.splits option.splits run_pc.splits client_pc.splits)

lemma session_move_facts:
  assumes "sess_ok s" "session_move bops ev s t" "rest_safe ev"
  shows "sess_ok t" "sess_grows (sy_s s) (sy_s t)" "length (sy_clients s) \<le> length (sy_clients t)"
proof -
  obtain r where r: "sess_ok r" "sess_step bops ev r = Some t" "sy_s r = sy_s s" "length (sy_clients s) \<le> length (sy_clients r)"
    using assms(1,2) sess_ok_idle [OF assms(1)] unfolding session_move_def by fastforce
  show "sess_ok t" using sess_ok_step [OF r(1,2) assms(3)] .
  show "sess_grows (sy_s s) (sy_s t)" using r sess.step_rel [of r bops ev t] by (simp add: sess_ok_def sess_sys_grows_def)
  show "length (sy_clients s) \<le> length (sy_clients t)" using r(4) sess_step_clients [OF r(2)] by simp
qed

lemma vap_step_evicts: "vap_step ops cf ev v = Some w \<Longrightarrow> length (vy_evicts v) \<le> length (vy_evicts w)"
  by (cases ev)
    (auto simp: vapor_Evict_def vapor_Close_def evictAfter_begin_def evictAfter_keys_def evictAfter_wait_def
      worker_step_def set_worker_def set_evict_def on_eviction_def Let_def
      split: if_splits prod.splits option.splits evict_pc.splits worker.splits)

lemma move_facts:
  assumes m: "move env v w" and g: "good_env items env"
    and i: "vap_inv items (rest_conf env) v" "sessions_ok v"
  shows "vap_inv items (rest_conf env) w \<and> sessions_ok w \<and> sessions_grow v w \<and> vap_grows items v w \<and>
    length (vy_evicts v) \<le> length (vy_evicts w)"
proof -
  have l: "cache_laws (re_cache env) items" "rv_context (re_server env) = None" using g by (simp_all add: good_env_def)
  have grow: "vap_grows items v w" if "vap_step (re_cache env) (rest_conf env) ev v = Some w" for ev
    using vap.step_rel [of "re_cache env" items "rest_conf env" v ev w] i(1) l(1) that by blast
  from m show ?thesis
  proof cases
    case move_stay
    then show ?thesis using i vap_grows_refl by simp
  next
    case (move_vap ev)
    have h: "heap_step (rest_conf env) (vy_heap v) (vy_heap w)" using move_vap by (rule vap_step_heap)
    have "sessions_grow v w"
      unfolding sessions_grow_def ready_def using h by (fastforce simp: heap_step_def entry_step_def)
    then show ?thesis
      using vap_quiet(1,2) [OF l i move_vap] grow [OF move_vap(1)] vap_step_evicts [OF move_vap(1)] by blast
  next
    case (move_sess e ev t)
    have ok: "sess_ok (en_value (vy_heap v ! e))" using i(2) move_sess(2) by (simp add: sessions_ok_def ready_def)
    note f = session_move_facts [OF ok move_sess(3,4)]
    have "sessions_grow v w" unfolding sessions_grow_def move_sess(1)
    proof (intro allI impI)
      fix e' assume "ready v e'"
      then show "ready (mutate e t v) e' \<and> sess_grows (sy_s (en_value (vy_heap v ! e'))) (sy_s (en_value (vy_heap (mutate e t v) ! e'))) \<and>
          length (sy_clients (en_value (vy_heap v ! e'))) \<le> length (sy_clients (en_value (vy_heap (mutate e t v) ! e')))"
        using f(2,3) by (cases "e' = e") (simp_all add: ready_def)
    qed
    moreover have "vap_grows items v w"
      using grow [of "VMutate e t"] move_sess(1,2) by (simp only: step_mutate) simp
    ultimately show ?thesis
      using mutate_quiet(1,2) [OF i(1) l(1) i(2) move_sess(2) f(1)] move_sess(1) by simp
  qed
qed

definition rest_grows :: "('c \<Rightarrow> bytes \<rightharpoonup> item) \<Rightarrow> ('c, 'v, 'rb, 'lb) rest_sys \<Rightarrow> ('c, 'v, 'rb, 'lb) rest_sys \<Rightarrow> bool" where
  "rest_grows items y z \<longleftrightarrow> sessions_grow (rx_v y) (rx_v z) \<and> vap_grows items (rx_v y) (rx_v z) \<and>
     length (vy_evicts (rx_v y)) \<le> length (vy_evicts (rx_v z))"

lemma rest_grows_refl: "rest_grows items y y"
  by (simp add: rest_grows_def vap_grows_refl)

lemma rest_grows_trans: "rest_grows items x y \<Longrightarrow> rest_grows items y z \<Longrightarrow> rest_grows items x z"
  unfolding rest_grows_def using sessions_grow_trans vap_grows_trans le_trans by blast

lemma rest_step_grows:
  assumes g: "good_env items env" and i: "rest_inv items env y" and s: "rest_step env ev y = Some z"
  shows "rest_grows items y z"
proof -
  obtain u where u: "move env (rx_v y) u" "move env u (rx_v z)" using rest_step_moves [OF s] by blast
  have v: "vap_inv items (rest_conf env) (rx_v y)" "sessions_ok (rx_v y)" using i unfolding rest_inv_def by blast+
  note a = move_facts [OF u(1) g v]
  have "vap_inv items (rest_conf env) u" "sessions_ok u" using a by blast+
  note b = move_facts [OF u(2) g this]
  show ?thesis unfolding rest_grows_def using a b sessions_grow_trans vap_grows_trans le_trans by blast
qed

section \<open>Calls that wait\<close>

fun waiting :: "rest_req \<Rightarrow> (nat \<times> nat) option" where
  "waiting (ClosingInput e i) = Some (e, i)"
| "waiting (Closing e i) = Some (e, i)"
| "waiting _ = None"

lemma waiting_answers [simp]:
  "waiting new_failed = None" "waiting copy_failed = None" "waiting (copied cs fails e r) = None"
  "waiting (rest_ServeHTTP server rq) = None"
  by (auto simp: new_failed_def copy_failed_def copied_def rest_ServeHTTP_def rest_handle_def with_id_def
      split: write_result.split option.split mux_result.split rest_route.split)

definition client_in :: "('c, 'v, 'rb, 'lb) rest_vap \<Rightarrow> nat \<times> nat \<Rightarrow> bool" where
  "client_in v p \<longleftrightarrow> ready v (fst p) \<and> snd p < length (sy_clients (en_value (vy_heap v ! fst p)))"

definition done_in :: "('c, 'v, 'rb, 'lb) rest_vap \<Rightarrow> nat \<Rightarrow> bool" where
  "done_in v e \<longleftrightarrow> ready v e \<and> ss_done (sy_s (en_value (vy_heap v ! e)))"

lemma client_in_grow: "client_in v p \<Longrightarrow> sessions_grow v w \<Longrightarrow> client_in w p"
  unfolding client_in_def sessions_grow_def by (meson less_le_trans)

lemma done_in_grow: "done_in v e \<Longrightarrow> sessions_grow v w \<Longrightarrow> done_in w e"
  unfolding done_in_def sessions_grow_def sess_grows_def by blast

definition waits_ok :: "('c, 'v, 'rb, 'lb) rest_sys \<Rightarrow> bool" where
  "waits_ok y \<longleftrightarrow> (\<forall>q < length (rx_reqs y). \<forall>p. waiting (rx_reqs y ! q) = Some p \<longrightarrow> client_in (rx_v y) p)"

fun worker_ok :: "bool \<Rightarrow> worker \<Rightarrow> bool" where
  "worker_ok d (W_in_f k) = True"
| "worker_ok d (W_delete k) = d"
| "worker_ok d W_done = d"
| "worker_ok d _ = False"

definition workers_ok :: "('c, 'v, 'rb, 'lb) rest_sys \<Rightarrow> bool" where
  "workers_ok y \<longleftrightarrow> (\<forall>j p. rx_in_f y j = Some p \<longrightarrow> client_in (rx_v y) p \<and>
     j < length (vy_workers (rx_v y)) \<and> worker_ok (done_in (rx_v y) (fst p)) (vy_workers (rx_v y) ! j))"

fun close_ok :: "evict_pc list \<Rightarrow> close_pc \<Rightarrow> bool" where
  "close_ok pcs (CloseEvict i) = (i < length pcs)"
| "close_ok pcs _ = (\<exists>i < length pcs. pcs ! i = EA_returned)"

definition closes_ok :: "('c, 'v, 'rb, 'lb) rest_sys \<Rightarrow> bool" where
  "closes_ok y \<longleftrightarrow> list_all (close_ok (vy_evicts (rx_v y))) (rx_closes y)"

lemma worker_ok_mono: "worker_ok d w \<Longrightarrow> (d \<Longrightarrow> d') \<Longrightarrow> worker_ok d' w"
  by (cases w) simp_all

lemma workers_ok_kept:
  assumes "workers_ok y" "rest_grows items y z" "rx_in_f z = rx_in_f y"
    "length (vy_workers (rx_v y)) \<le> length (vy_workers (rx_v z))"
    "\<And>j. j < length (vy_workers (rx_v y)) \<Longrightarrow> vy_workers (rx_v z) ! j = vy_workers (rx_v y) ! j"
  shows "workers_ok z"
  unfolding workers_ok_def assms(3)
proof (intro allI impI)
  fix j p assume "rx_in_f y j = Some p"
  then have w: "client_in (rx_v y) p" "j < length (vy_workers (rx_v y))"
      "worker_ok (done_in (rx_v y) (fst p)) (vy_workers (rx_v y) ! j)"
    using assms(1) unfolding workers_ok_def by blast+
  have g: "sessions_grow (rx_v y) (rx_v z)" using assms(2) by (simp add: rest_grows_def)
  have "worker_ok (done_in (rx_v z) (fst p)) (vy_workers (rx_v y) ! j)"
    using worker_ok_mono [OF w(3)] done_in_grow [OF _ g] by blast
  then show "client_in (rx_v z) p \<and> j < length (vy_workers (rx_v z)) \<and>
      worker_ok (done_in (rx_v z) (fst p)) (vy_workers (rx_v z) ! j)"
    using client_in_grow [OF w(1) g] w(2) assms(4,5) by simp
qed

lemma close_ok_kept:
  assumes "close_ok pcs pc" "length pcs \<le> length pcs'"
    "\<forall>i < length pcs. pcs ! i = EA_returned \<longrightarrow> i < length pcs' \<and> pcs' ! i = EA_returned"
  shows "close_ok pcs' pc"
proof -
  have "(\<exists>i < length pcs. pcs ! i = EA_returned) \<longrightarrow> (\<exists>i < length pcs'. pcs' ! i = EA_returned)"
    using assms(3) by blast
  then show ?thesis using assms(1,2) by (cases pc) simp_all
qed

lemma closes_ok_kept:
  assumes "closes_ok y" "rest_grows items y z"
  shows "list_all (close_ok (vy_evicts (rx_v z))) (rx_closes y)"
  using assms close_ok_kept [of "vy_evicts (rx_v y)" _ "vy_evicts (rx_v z)"]
  by (auto simp: closes_ok_def rest_grows_def vap_grows_def list_all_iff)


section \<open>Frames\<close>

definition frame :: "('c, 'v, 'rb, 'lb) rest_sys \<Rightarrow> ('c, 'v, 'rb, 'lb) rest_sys \<Rightarrow> bool" where
  "frame y x \<longleftrightarrow> rx_reqs x = rx_reqs y \<and> rx_in_f x = rx_in_f y \<and> rx_closes x = rx_closes y \<and>
     vy_workers (rx_v x) = vy_workers (rx_v y)"

fun leaves_workers :: "'t vap_event \<Rightarrow> bool" where
  "leaves_workers (VWorker j) = False"
| "leaves_workers (VKeys i) = False"
| "leaves_workers _ = True"

lemma vap_step_workers:
  "vap_step ops cf ev v = Some w \<Longrightarrow> leaves_workers ev \<Longrightarrow> vy_workers w = vy_workers v"
  by (cases ev)
    (auto simp: vapor_Evict_def vapor_Close_def evictAfter_begin_def evictAfter_wait_def set_evict_def
      on_eviction_def Let_def split: if_splits prod.splits option.splits evict_pc.splits)

lemma rx_vap_frame: "rx_vap env ev y = Some x \<Longrightarrow> leaves_workers ev \<longrightarrow> frame y x"
  unfolding rx_vap_def frame_def using vap_step_workers by fastforce

lemma rx_sess_frame: "rx_sess env e ev y = Some x \<Longrightarrow> frame y x"
  by (erule rx_sessE) (simp add: frame_def)

lemma rx_call_frame: "rx_call env e mk y = Some (k, x) \<Longrightarrow> frame y x \<and> client_in (rx_v x) (e, k)"
proof (erule rx_callE)
  fix t
  assume r: "ready (rx_v y) e" and k: "k = length (sy_clients (rx_session e y))"
    and t: "sess_step (re_bufs env) (mk k) ((rx_session e y)\<lparr>sy_clients := sy_clients (rx_session e y) @ [Idle]\<rparr>) = Some t"
    and x: "x = y\<lparr>rx_v := mutate e t (rx_v y)\<rparr>"
  have "e < length (vy_heap (rx_v y))" using r by (simp add: ready_def)
  then show ?thesis using r k sess_step_clients [OF t] by (simp add: frame_def x client_in_def)
qed

text \<open>What a step of request \<open>q\<close> does besides its calls.\<close>

definition answered_by :: "nat \<Rightarrow> ('c, 'v, 'rb, 'lb) rest_sys \<Rightarrow> ('c, 'v, 'rb, 'lb) rest_sys \<Rightarrow> bool" where
  "answered_by q y z \<longleftrightarrow> (\<exists>x pc. frame y x \<and> z = set_req q pc x \<and> (\<forall>p. waiting pc = Some p \<longrightarrow> client_in (rx_v x) p))"

lemma frame_refl [simp]: "frame y y"
  by (simp add: frame_def)

lemma answered_byI: "frame y x \<Longrightarrow> waiting pc = None \<Longrightarrow> answered_by q y (set_req q pc x)"
  unfolding answered_by_def by (intro exI [of _ x] exI [of _ pc]) simp

lemma answered_vap: "map_option (set_req q pc) (rx_vap env ev y) = Some z \<Longrightarrow> leaves_workers ev \<Longrightarrow> waiting pc = None \<Longrightarrow> answered_by q y z"
  using rx_vap_frame answered_byI by fastforce

lemma answered_sess: "map_option (set_req q pc) (rx_sess env e ev y) = Some z \<Longrightarrow> waiting pc = None \<Longrightarrow> answered_by q y z"
  using rx_sess_frame answered_byI by fastforce

lemma answered_call:
  assumes "map_option (\<lambda>(i, y). set_req q (f i) y) (rx_call env e mk y) = Some z" "\<And>i. waiting (f i) = Some (e, i)"
  shows "answered_by q y z"
proof -
  obtain k x where x: "rx_call env e mk y = Some (k, x)" "z = set_req q (f k) x" using assms(1) by auto
  then show ?thesis unfolding answered_by_def using rx_call_frame [OF x(1)] assms(2) [of k]
    by (intro exI [of _ x] exI [of _ "f k"]) simp
qed

lemma new_answered: "serveNew_step env q y = Some z \<Longrightarrow> answered_by q y z"
  by (cases "rx_reqs y ! q")
    (auto simp: serveNew_step_def intro!: answered_byI dest!: rx_vap_frame rx_sess_frame split: if_splits)

lemma get_answered: "serve_get_step env q y = Some z \<Longrightarrow> answered_by q y z"
  by (cases "rx_reqs y ! q")
    (auto simp: serve_get_step_def intro!: answered_byI dest!: rx_vap_frame split: option.splits)

lemma op_answered:
  assumes s: "serve_op_step env q y = Some z"
  shows "answered_by q y z"
proof (cases "rx_reqs y ! q")
  case (Operate op e)
  show ?thesis
  proof (cases op)
    case OpStatus
    then show ?thesis using s Operate unfolding serve_op_step_def serveStatus_step_def Let_def
      by (auto intro!: answered_byI dest: rx_sess_frame)
  next
    case (OpInput chunks fails)
    then show ?thesis using s Operate
      by (auto simp: serve_op_step_def serveInput_step_def intro!: answered_byI dest: rx_sess_frame
          split: list.splits if_splits option.splits)
  next
    case OpCloseInput
    then have "map_option (\<lambda>(i, y). set_req q (ClosingInput e i) y) (rx_call env e ECloseInput y) = Some z"
      using s Operate by (simp add: serve_op_step_def)
    then show ?thesis by (rule answered_call) simp
  next
    case OpCancel
    then have "map_option (\<lambda>(i, y). set_req q (Closing e i) y) (rx_call env e (\<lambda>i. ECloseWith i ErrCancelClientRequest) y) = Some z"
      using s Operate by (simp add: serve_op_step_def)
    then show ?thesis by (rule answered_call) simp
  qed
qed (use s in \<open>auto simp: serve_op_step_def serveInput_wait_def intro!: answered_byI dest: rx_sess_frame split: if_splits\<close>)

lemma try_answered: "serveNew_try env q key y = Some z \<Longrightarrow> answered_by q y z"
  by (cases "rx_reqs y ! q")
    (auto simp: serveNew_try_def Let_def intro!: answered_byI dest!: rx_vap_frame split: if_splits try_result.splits)

lemma req_answered: "rest_req_step env q y = Some z \<Longrightarrow> answered_by q y z"
  by (auto simp: rest_req_step_def dest: new_answered get_answered op_answered split: rest_req.splits)

section \<open>The whole invariant\<close>

definition rest_all :: "('c \<Rightarrow> bytes \<rightharpoonup> item) \<Rightarrow> ('c, 'v, 'rb, 'lb) rest_env \<Rightarrow> ('c, 'v, 'rb, 'lb) rest_sys \<Rightarrow> bool" where
  "rest_all items env y \<longleftrightarrow> rest_inv items env y \<and> waits_ok y \<and> workers_ok y \<and> closes_ok y"

lemma rest_allD:
  assumes "rest_all items env y"
  shows "rest_inv items env y" "waits_ok y" "workers_ok y" "closes_ok y"
  using assms unfolding rest_all_def by blast+

lemma waits_same: "waits_ok y \<Longrightarrow> rest_grows items y z \<Longrightarrow> rx_reqs z = rx_reqs y \<Longrightarrow> waits_ok z"
  unfolding waits_ok_def rest_grows_def using client_in_grow by metis

lemma waits_update:
  assumes "waits_ok y" "rest_grows items y z" "rx_reqs z = (rx_reqs y)[q := pc]"
    "\<And>p. waiting pc = Some p \<Longrightarrow> client_in (rx_v z) p"
  shows "waits_ok z"
  unfolding waits_ok_def assms(3) length_list_update
proof (intro allI impI)
  fix j p assume j: "j < length (rx_reqs y)" "waiting ((rx_reqs y)[q := pc] ! j) = Some p"
  show "client_in (rx_v z) p"
  proof (cases "j = q")
    case False
    then have "waiting (rx_reqs y ! j) = Some p" using j by simp
    then have "client_in (rx_v y) p" using j(1) assms(1) unfolding waits_ok_def by blast
    then show ?thesis using client_in_grow assms(2) unfolding rest_grows_def by blast
  qed (use j assms(4) in simp)
qed

lemma frame_workers:
  assumes "workers_ok y" "rest_grows items y z" "rx_in_f z = rx_in_f y" "vy_workers (rx_v z) = vy_workers (rx_v y)"
  shows "workers_ok z"
  by (rule workers_ok_kept [OF assms(1-3)]) (simp_all add: assms(4))

lemma closes_same: "closes_ok y \<Longrightarrow> rest_grows items y z \<Longrightarrow> rx_closes z = rx_closes y \<Longrightarrow> closes_ok z"
  using closes_ok_kept by (simp add: closes_ok_def)

lemma frame_ok:
  assumes "rest_all items env y" "rest_grows items y z" "frame y z"
  shows "waits_ok z \<and> workers_ok z \<and> closes_ok z"
  using rest_allD [OF assms(1)] assms(2,3) waits_same frame_workers closes_same unfolding frame_def by blast

lemma answered_ok:
  assumes "rest_all items env y" "rest_grows items y z" "answered_by q y z"
  shows "waits_ok z \<and> workers_ok z \<and> closes_ok z"
proof -
  obtain x pc where x: "frame y x" "z = set_req q pc x" "\<forall>p. waiting pc = Some p \<longrightarrow> client_in (rx_v x) p"
    using assms(3) unfolding answered_by_def by blast
  note a = rest_allD [OF assms(1)]
  have "waits_ok z" by (rule waits_update [OF a(2) assms(2), of q pc]) (use x in \<open>auto simp: frame_def\<close>)
  moreover have "workers_ok z" by (rule frame_workers [OF a(3) assms(2)]) (use x in \<open>simp_all add: frame_def\<close>)
  moreover have "closes_ok z" by (rule closes_same [OF a(4) assms(2)]) (use x in \<open>simp add: frame_def\<close>)
  ultimately show ?thesis by blast
qed

lemma client_returned:
  assumes "rest_inv items env y" "client_in (rx_v y) (e, i)" "client_at e i y = CW_returned"
  shows "done_in (rx_v y) e" "ss_context (sy_s (rx_session e y)) \<noteq> None" "p_rerr (ss_pipe (sy_s (rx_session e y))) \<noteq> None"
proof -
  have r: "ready (rx_v y) e" using assms(2) by (simp add: client_in_def)
  have "clients_inv (rx_session e y)" using session_is_ok [OF assms(1) r] unfolding sess_ok_def sess_inv_def by blast
  then have "client_ok (sy_s (rx_session e y)) (sy_clients (rx_session e y) ! i)"
    using assms(2) by (simp add: clients_inv_def list_all_length client_in_def rx_session_def)
  then show "done_in (rx_v y) e" "ss_context (sy_s (rx_session e y)) \<noteq> None" "p_rerr (ss_pipe (sy_s (rx_session e y))) \<noteq> None"
    using assms(3) r unfolding client_at_def by (simp_all add: done_in_def rx_session_def)
qed

text \<open>A worker that took a step.\<close>

lemma worker_step_workers:
  assumes "vap_step ops cf (VWorker j) v = Some w"
  shows "\<exists>u. vy_workers w = (vy_workers v)[j := u] \<and> (\<forall>k. vy_workers v ! j = W_delete k \<longrightarrow> u = W_done) \<and>
    (\<forall>k. vy_workers v ! j = W_in_f k \<longrightarrow> u = W_delete k) \<and> (\<forall>k e. vy_workers v ! j = W_call k e \<longrightarrow> u = W_in_f k) \<and>
    vy_workers v ! j \<noteq> W_done"
  using assms by (cases "vy_workers v ! j")
    (auto simp: worker_step_def set_worker_def Let_def split: if_splits prod.splits)

lemma workers_ok_update:
  assumes a: "workers_ok y" and gr: "rest_grows items y z" and j: "j < length (vy_workers (rx_v y))"
    and w: "vy_workers (rx_v z) = (vy_workers (rx_v y))[j := w]" and o: "\<And>i. i \<noteq> j \<Longrightarrow> rx_in_f z i = rx_in_f y i"
    and n: "\<And>p. rx_in_f z j = Some p \<Longrightarrow> client_in (rx_v z) p \<and> worker_ok (done_in (rx_v z) (fst p)) w"
  shows "workers_ok z"
  unfolding workers_ok_def
proof (intro allI impI)
  fix i p assume i: "rx_in_f z i = Some p"
  have g: "sessions_grow (rx_v y) (rx_v z)" using gr by (simp add: rest_grows_def)
  show "client_in (rx_v z) p \<and> i < length (vy_workers (rx_v z)) \<and> worker_ok (done_in (rx_v z) (fst p)) (vy_workers (rx_v z) ! i)"
  proof (cases "i = j")
    case True
    then show ?thesis using n i j w by simp
  next
    case False
    then have "rx_in_f y i = Some p" using i o by simp
    then have k: "client_in (rx_v y) p" "i < length (vy_workers (rx_v y))"
        "worker_ok (done_in (rx_v y) (fst p)) (vy_workers (rx_v y) ! i)"
      using a unfolding workers_ok_def by blast+
    have "worker_ok (done_in (rx_v z) (fst p)) (vy_workers (rx_v y) ! i)"
      using worker_ok_mono [OF k(3)] done_in_grow [OF _ g] by blast
    then show ?thesis using client_in_grow [OF k(1) g] k(2) False w by simp
  qed
qed

lemma workers_ok_worker:
  assumes a: "rest_all items env y" and s: "rest_worker env j y = Some z" and gr: "rest_grows items y z"
  shows "workers_ok z"
proof -
  have g: "sessions_grow (rx_v y) (rx_v z)" using gr by (simp add: rest_grows_def)
  note ok = rest_allD(3) [OF a]
  show ?thesis using s
  proof (cases rule: workerE)
    case (call k e x n u)
    have w: "vy_workers (rx_v x) = (vy_workers (rx_v y))[j := W_in_f k]"
      using worker_step_workers [OF rx_vap_step [OF call(3)]] call(2) by blast
    have x: "rx_in_f x = rx_in_f y" using call(3) by (auto simp: rx_vap_def)
    note c = rx_call_frame [OF call(4)]
    show ?thesis
      by (rule workers_ok_update [OF ok gr call(1), of "W_in_f k"]) (use c w x call(5) in \<open>auto simp: frame_def\<close>)
  next
    case (returned k e i)
    have w: "vy_workers (rx_v z) = (vy_workers (rx_v y))[j := W_delete k]"
      using worker_step_workers [OF rx_vap_step [OF returned(5)]] returned(2) by blast
    have f: "rx_in_f z = rx_in_f y" using returned(5) by (auto simp: rx_vap_def)
    have c: "client_in (rx_v y) (e, i)" using ok returned(3) unfolding workers_ok_def by blast
    then have d: "done_in (rx_v y) e" using client_returned(1) [OF rest_allD(1) [OF a] _ returned(4)] by blast
    show ?thesis
      by (rule workers_ok_update [OF ok gr returned(1) w])
        (use f returned(3) client_in_grow [OF c g] done_in_grow [OF d g] in simp_all)
  next
    case other
    obtain u where w: "vy_workers (rx_v z) = (vy_workers (rx_v y))[j := u]"
        "\<forall>k. vy_workers (rx_v y) ! j = W_delete k \<longrightarrow> u = W_done" "vy_workers (rx_v y) ! j \<noteq> W_done"
      using worker_step_workers [OF rx_vap_step [OF other(4)]] by blast
    have f: "rx_in_f z = rx_in_f y" using other(4) by (auto simp: rx_vap_def)
    show ?thesis
    proof (rule workers_ok_update [OF ok gr other(1) w(1)])
      fix p assume "rx_in_f z j = Some p"
      then have "rx_in_f y j = Some p" using f by simp
      then have k: "client_in (rx_v y) p" "worker_ok (done_in (rx_v y) (fst p)) (vy_workers (rx_v y) ! j)"
        using ok unfolding workers_ok_def by blast+
      then have "u = W_done \<and> done_in (rx_v y) (fst p)"
        using w(2,3) other(2,3) by (cases "vy_workers (rx_v y) ! j") auto
      then show "client_in (rx_v z) p \<and> worker_ok (done_in (rx_v z) (fst p)) u"
        using client_in_grow [OF k(1) g] done_in_grow [OF _ g] by simp
    qed (simp add: f)
  qed
qed

lemma worker_frame:
  assumes "rest_worker env j y = Some z"
  shows "rx_reqs z = rx_reqs y \<and> rx_closes z = rx_closes y"
  using assms
proof (cases rule: workerE)
  case (call k e x n u)
  have "rx_reqs x = rx_reqs y \<and> rx_closes x = rx_closes y" using call(3) by (auto simp: rx_vap_def)
  then show ?thesis
    using rx_call_frame [OF call(4)] call(5) by (simp_all add: frame_def)
qed (auto simp: rx_vap_def)

lemma frame_trans: "frame x y \<Longrightarrow> frame y z \<Longrightarrow> frame x z"
  by (simp add: frame_def)

lemma callback_frame:
  assumes "rest_callback env n y = Some z"
  shows "frame y z"
proof -
  obtain x where x: "rx_vap env (VCallback n) y = Some x"
      "z = x \<or> (\<exists>k e. rx_call env e (\<lambda>i. ECloseWith i ErrCancelTimeout) x = Some (k, z))"
    using assms by (auto simp: rest_callback_def split: if_splits option.splits prod.splits)
  then show ?thesis using rx_vap_frame [OF x(1)] rx_call_frame frame_trans by fastforce
qed

lemma keys_workers: "vap_step ops cf (VKeys i) v = Some w \<Longrightarrow> \<exists>ws. vy_workers w = vy_workers v @ ws"
  by (auto simp: evictAfter_keys_def set_evict_def Let_def split: if_splits evict_pc.splits)

lemma evictAfter_evicts: "vap_step ops cf (VEvictAfter f) v = Some w \<Longrightarrow> length (vy_evicts w) = Suc (length (vy_evicts v))"
  by (auto simp: evictAfter_begin_def)

lemma set_close_fields [simp]:
  "rx_v (set_close c pc y) = rx_v y" "rx_closes (set_close c pc y) = (rx_closes y)[c := pc]"
  "waits_ok (set_close c pc y) = waits_ok y" "workers_ok (set_close c pc y) = workers_ok y"
  by (simp_all add: set_close_def waits_ok_def workers_ok_def)

lemma rest_all_step:
  assumes g: "good_env items env" and a: "rest_all items env y" and s: "rest_step env ev y = Some z"
  shows "rest_all items env z"
proof -
  note ok = rest_allD [OF a]
  have gr: "rest_grows items y z" by (rule rest_step_grows [OF g ok(1) s])
  have plain: "waits_ok z \<and> workers_ok z \<and> closes_ok z" if "rx_vap env v y = Some z" "leaves_workers v" for v
    using frame_ok [OF a gr] rx_vap_frame [OF that(1)] that(2) by blast
  have "waits_ok z \<and> workers_ok z \<and> closes_ok z"
  proof (cases ev)
    case (RRequest r)
    then have z: "z = y\<lparr>rx_reqs := rx_reqs y @ [rest_ServeHTTP (re_server env) r]\<rparr>" using s by simp
    have "waits_ok z" using ok(2) unfolding waits_ok_def z by (auto simp: nth_append less_Suc_eq)
    then show ?thesis using ok(3,4) z by (simp add: workers_ok_def closes_ok_def)
  next
    case (RReq q)
    then show ?thesis using s answered_ok [OF a gr] req_answered by (fastforce split: if_splits)
  next
    case (RTry q key)
    then show ?thesis using s answered_ok [OF a gr] try_answered by (fastforce split: if_splits)
  next
    case (RSess e sv)
    then show ?thesis using s frame_ok [OF a gr] rx_sess_frame by (fastforce split: if_splits)
  next
    case (RCallback n)
    then show ?thesis using s frame_ok [OF a gr] callback_frame [of env n y z] by simp
  next
    case (RKeys n)
    then have v: "rx_vap env (VKeys n) y = Some z" using s by simp
    have same: "rx_reqs z = rx_reqs y" "rx_in_f z = rx_in_f y" "rx_closes z = rx_closes y" using v by (auto simp: rx_vap_def)
    obtain ws where "vy_workers (rx_v z) = vy_workers (rx_v y) @ ws" using keys_workers [OF rx_vap_step [OF v]] by blast
    then have "workers_ok z" using workers_ok_kept [OF ok(3) gr same(2)] by (auto simp: nth_append)
    then show ?thesis using waits_same [OF ok(2) gr same(1)] closes_same [OF ok(4) gr same(3)] by blast
  next
    case (RWorker j)
    then have w: "rest_worker env j y = Some z" using s by simp
    show ?thesis using worker_frame [OF w] workers_ok_worker [OF a w gr] waits_same [OF ok(2) gr] closes_same [OF ok(4) gr] by blast
  next
    case RClose
    then obtain x where x: "rx_vap env (VEvictAfter True) y = Some x"
        "z = x\<lparr>rx_closes := rx_closes x @ [CloseEvict (length (vy_evicts (rx_v y)))]\<rparr>"
      using s by (auto simp: rest_Close_def)
    have f: "frame y x" using rx_vap_frame [OF x(1)] by simp
    have e: "length (vy_evicts (rx_v x)) = Suc (length (vy_evicts (rx_v y)))"
      by (rule evictAfter_evicts [OF rx_vap_step [OF x(1)]])
    have grx: "rest_grows items y x" using gr x(2) by (simp add: rest_grows_def)
    have k: "waits_ok x \<and> workers_ok x \<and> closes_ok x" using frame_ok [OF a grx f] .
    then show ?thesis using e by (simp add: x(2) waits_ok_def workers_ok_def closes_ok_def)
  next
    case (RCloseStep c)
    obtain pc where "waits_ok z" "workers_ok z" "rx_closes z = (rx_closes y)[c := pc]" "close_ok (vy_evicts (rx_v z)) pc"
    proof (cases "rx_closes y ! c")
      case (CloseEvict i)
      then have c: "c < length (rx_closes y)" "vy_evicts (rx_v y) ! i = EA_returned" "z = set_close c CloseVapor y"
        using s RCloseStep by (auto simp: rest_Close_step_def split: if_splits)
      have "close_ok (vy_evicts (rx_v y)) (rx_closes y ! c)" using ok(4) c(1) by (simp add: closes_ok_def list_all_length)
      then have "close_ok (vy_evicts (rx_v y)) CloseVapor" using CloseEvict c(2) by auto
      then show thesis using that [of CloseVapor] ok(2,3) c(3) by simp
    next
      case CloseVapor
      then obtain x where x: "rx_vap env VClose y = Some x" "z = set_close c CloseDone x" and c: "c < length (rx_closes y)"
        using s RCloseStep by (auto simp: rest_Close_step_def split: if_splits)
      have f: "frame y x" using rx_vap_frame [OF x(1)] by simp
      have grx: "rest_grows items y x" using gr x(2) by (simp add: rest_grows_def)
      have k: "waits_ok x \<and> workers_ok x \<and> closes_ok x" using frame_ok [OF a grx f] .
      have "close_ok (vy_evicts (rx_v x)) (rx_closes x ! c)" using k c f by (simp add: closes_ok_def list_all_length frame_def)
      then have "close_ok (vy_evicts (rx_v x)) CloseDone" using CloseVapor f by (simp add: frame_def)
      moreover have "rx_closes x = rx_closes y" using f by (simp add: frame_def)
      ultimately show thesis using that [of CloseDone] k x(2) by simp
    next
      case CloseDone
      then show thesis using s RCloseStep by (auto simp: rest_Close_step_def split: if_splits)
    qed
    then show ?thesis using list_all_update [OF closes_ok_kept [OF ok(4) gr]] by (simp add: closes_ok_def)
  next
    case (RTick n)
    then show ?thesis using s plain [of "VTick n"] by simp
  next
    case RCleanup
    then show ?thesis using s plain [of VCleanup] by simp
  next
    case (RWait n)
    then show ?thesis using s plain [of "VWait n"] by simp
  qed
  then show ?thesis using rest_event_inv [OF g ok(1) s] unfolding rest_all_def by blast
qed

lemma rest_all_start: "good_env items env \<Longrightarrow> rest_start env y \<Longrightarrow> rest_all items env y"
  using rest_inv_start by (auto simp: rest_all_def rest_start_def waits_ok_def workers_ok_def closes_ok_def)

interpretation rest: monotone_system "rest_start env" "rest_step env"
  "\<lambda>y. good_env items env \<longrightarrow> rest_all items env y" "\<lambda>y z. good_env items env \<longrightarrow> rest_grows items y z"
  for env :: "('c, 'v, 'rb, 'lb) rest_env" and items :: "'c \<Rightarrow> bytes \<rightharpoonup> item"
proof unfold_locales
  show "rest_start env y \<Longrightarrow> good_env items env \<longrightarrow> rest_all items env y" for y
    using rest_all_start by blast
  show "good_env items env \<longrightarrow> rest_all items env z"
    if "good_env items env \<longrightarrow> rest_all items env y" "rest_step env ev y = Some z" for y ev z
    using that rest_all_step by blast
  show "good_env items env \<longrightarrow> rest_grows items y y" for y :: "('c, 'v, 'rb, 'lb) rest_sys"
    by (simp add: rest_grows_refl)
  show "good_env items env \<longrightarrow> rest_grows items x z"
    if "good_env items env \<longrightarrow> rest_grows items x y" "good_env items env \<longrightarrow> rest_grows items y z"
    for x y z :: "('c, 'v, 'rb, 'lb) rest_sys"
    using that rest_grows_trans by blast
  show "good_env items env \<longrightarrow> rest_grows items y z"
    if "good_env items env \<longrightarrow> rest_all items env y" "rest_step env ev y = Some z" for y ev z
    using that rest_step_grows rest_allD(1) by blast
qed

lemmas rest_reachable_all = rest.reachable_inv [rule_format]

lemmas rest_run_grows = rest.reachable_rel [rule_format]

end
