(* ===== verification/RestProps.thy ===== *)
theory RestProps
  imports RestCalls VaporProps
begin

text \<open>
  The properties of the REST server: every process it creates runs with the call of the request,
  every session something waits for will run, which answers the requests get, the causes a
  process sees, and what \<open>Close\<close> guarantees.
\<close>

section \<open>A server used by the witnesses\<close>

definition demo_server :: rest_server where
  "demo_server = \<lparr>rv_inited = True, rv_context = None, rv_mux = rest_mux ''/'' True, rv_spec = ''{}'', rv_path = ''/'',
     rv_options = \<lparr>ro_Timeout = minTimeout, ro_DisableSwaggerUI = True, ro_OpenAPIServerDescription = [],
       ro_Session = \<lparr>so_MaxLines = 0\<rparr>\<rparr>\<rparr>"

definition demo_env :: "((bytes \<times> item) list, nat, nat \<times> bytes list, bytes) rest_env" where
  "demo_env = \<lparr>re_cache = list_cache, re_bufs = list_ops, re_marshal = (\<lambda>n. MBytes ''7''), re_server = demo_server\<rparr>"

definition demo_rest :: "((bytes \<times> item) list, nat, nat \<times> bytes list, bytes) rest_sys" where
  "demo_rest = \<lparr>rx_v = \<lparr>vy_v = vapor_zero list_cache, vy_now = 0, vy_pending = [], vy_calls = [], vy_workers = [],
     vy_evicts = [], vy_panic = False\<rparr>, rx_reqs = [], rx_in_f = Map.empty, rx_closes = []\<rparr>"

abbreviation demo_run :: "nat rest_event list \<Rightarrow> ((bytes \<times> item) list, nat, nat \<times> bytes list, bytes) rest_sys option" where
  "demo_run es \<equiv> run_events (rest_step demo_env) es demo_rest"

lemma demo_good: "good_env map_of demo_env"
  by (simp add: good_env_def demo_env_def demo_server_def list_cache_laws)

lemma demo_rest_reachable: "demo_run es = Some y \<Longrightarrow> rest_reachable demo_env y"
proof (rule run_events_reachable)
  show "rest_reachable demo_env demo_rest"
    by (rule reach_start) (simp add: rest_start_def vap_start_def demo_rest_def demo_env_def)
qed

definition post_request :: "bytes \<Rightarrow> bytes list \<Rightarrow> rest_request" where
  "post_request path body = \<lparr>rq_method = ''POST'', rq_path = path, rq_upgrade = False, rq_body = body, rq_fails = False\<rparr>"

text \<open>A process is requested, with the id \<open>a\<close>, up to the call of \<open>Start\<close>.\<close>

definition demo_new :: "nat rest_event list" where
  \<open>demo_new = [RRequest (post_request ''/new'' [''{"call":"echo"}'']), RReq 0, RTry 0 ''a'', RReq 0]\<close>

lemma demo_new_run: "case demo_run demo_new of None \<Rightarrow> False | Some y \<Rightarrow>
    rx_reqs y = [NewStart \<lparr>cm_call = ''echo'', cm_params = []\<rparr> ''a'' 0] \<and> \<not> rlocked (rx_session 0 y)"
  by code_simp

lemma demo_case:
  assumes "case demo_run es of None \<Rightarrow> False | Some y \<Rightarrow> P y"
  obtains y where "demo_run es = Some y" "rest_reachable demo_env y" "P y"
  using assms demo_rest_reachable by (auto split: option.splits)

lemma mutated_session: "ready (rx_v y) e \<Longrightarrow> rx_session e (y\<lparr>rx_v := mutate e s (rx_v y)\<rparr>) = s"
  by (simp add: rx_session_def ready_def)

section \<open>Creating a process\<close>

text \<open>
  Property C2. When the handler of a request for a new process calls \<open>Start\<close>, the session was
  never started, so the call succeeds: the process runs with the call of this very request, and
  the answer is the id it is stored under. Only a \<open>CloseWith\<close> that is about to release its lock
  can delay the call.
\<close>

theorem serveNew_starts:
  assumes g: "good_env items env" and y: "rest_reachable env y" and q: "q < length (rx_reqs y)"
    and n: "rx_reqs y ! q = NewStart call key e"
  shows "(rest_step env (RReq q) y = None \<longleftrightarrow> rlocked (rx_session e y)) \<and>
    (\<forall>z. rest_step env (RReq q) y = Some z \<longrightarrow>
      sy_run (rx_session e z) = RunGet \<and> ss_stage (sy_s (rx_session e z)) = stageRunning \<and>
      ss_call (sy_s (rx_session e z)) = call \<and> rx_reqs z ! q = Answered (Response 200 (json_string key @ [newline])))"
proof -
  note f = rest_start_facts [OF g rest_allD(1) [OF rest_reachable_all [OF y g]] q n]
  have s: "rest_step env (RReq q) y =
      map_option (set_req q (Answered (Response 200 (json_string key @ [newline])))) (rx_sess env e (EStart call) y)"
    using q n by (simp add: rest_req_step_def serveNew_step_def)
  have "rest_step env (RReq q) y = None \<longleftrightarrow> rx_sess env e (EStart call) y = None" by (simp only: s option.map_disc_iff)
  moreover have "rlocked (rx_session e y) \<longrightarrow> rx_sess env e (EStart call) y = None"
    by (simp add: rx_sess_def)
  moreover have "\<not> rlocked (rx_session e y) \<longrightarrow> rx_sess env e (EStart call) y \<noteq> None" by (intro impI f(3))
  ultimately have "rest_step env (RReq q) y = None \<longleftrightarrow> rlocked (rx_session e y)" by argo
  moreover have "sy_run (rx_session e z) = RunGet \<and> ss_stage (sy_s (rx_session e z)) = stageRunning \<and>
      ss_call (sy_s (rx_session e z)) = call \<and> rx_reqs z ! q = Answered (Response 200 (json_string key @ [newline]))"
    if z: "rest_step env (RReq q) y = Some z" for z
  proof -
    obtain x where x: "rx_sess env e (EStart call) y = Some x"
        "z = set_req q (Answered (Response 200 (json_string key @ [newline]))) x"
      using z unfolding s by auto
    obtain t where t: "x = y\<lparr>rx_v := mutate e t (rx_v y)\<rparr>" "ss_stage (sy_s t) = stageRunning" "ss_call (sy_s t) = call" "sy_run t = RunGet"
      using f(4) [OF x(1)] by blast
    have "rx_session e z = t" using mutated_session [OF f(1)] x(2) t(1) by (simp add: rx_session_def)
    then show ?thesis using t x(2) q by simp
  qed
  ultimately show ?thesis by blast
qed

theorem serveNew_starts_witness:
  "\<exists>y z. rest_reachable demo_env y \<and> rest_step demo_env (RReq 0) y = Some z \<and> cm_call (ss_call (sy_s (rx_session 0 z))) = ''echo''"
proof -
  obtain y where y: "rest_reachable demo_env y" "rx_reqs y = [NewStart \<lparr>cm_call = ''echo'', cm_params = []\<rparr> ''a'' 0] \<and>
      \<not> rlocked (rx_session 0 y)"
    using demo_case [OF demo_new_run] by blast
  then show ?thesis using serveNew_starts [OF demo_good y(1), of 0 "\<lparr>cm_call = ''echo'', cm_params = []\<rparr>" "''a''" 0]
    by (cases "rest_step demo_env (RReq 0) y") (auto simp del: rest_step.simps)
qed

section \<open>Everything that is waited for runs\<close>

text \<open>The server's own steps: a goroutine of a request, or one of a session that was cancelled.\<close>

fun server_event :: "'v rest_event \<Rightarrow> bool" where
  "server_event (RReq q) = True"
| "server_event (RSess e ev) = internal ev"
| "server_event _ = False"

lemma mutate_mutate [simp]: "mutate e t (mutate e s v) = mutate e t v"
  by (cases "e < length (vy_heap v)") (simp_all add: mutate_def list_update_beyond)

lemma mutate_same [simp]: "mutate e (en_value (vy_heap v ! e)) v = v"
  by (simp add: mutate_def)

lemma lift_session:
  assumes "run_events (sess_step (re_bufs env)) es (rx_session e y) = Some t" "list_all internal es" "ready (rx_v y) e"
  shows "run_events (rest_step env) (map (RSess e) es) y = Some (y\<lparr>rx_v := mutate e t (rx_v y)\<rparr>)"
  using assms
proof (induction es arbitrary: y)
  case Nil
  then show ?case by (auto simp: rx_session_def)
next
  case (Cons ev es)
  obtain s where s: "sess_step (re_bufs env) ev (rx_session e y) = Some s" "run_events (sess_step (re_bufs env)) es s = Some t"
    using Cons.prems(1) by (auto split: option.splits)
  have "handler_event ev" using Cons.prems(2) by (cases ev) simp_all
  then have st: "rest_step env (RSess e ev) y = Some (y\<lparr>rx_v := mutate e s (rx_v y)\<rparr>)"
    using s(1) Cons.prems(3) by (simp add: rx_sess_def rx_vap_def step_mutate del: vap_step.simps) (simp add: ready_def)
  have "run_events (sess_step (re_bufs env)) es (rx_session e (y\<lparr>rx_v := mutate e s (rx_v y)\<rparr>)) = Some t"
    using s(2) mutated_session [OF Cons.prems(3)] by simp
  then have "run_events (rest_step env) (map (RSess e) es) (y\<lparr>rx_v := mutate e s (rx_v y)\<rparr>) = Some (y\<lparr>rx_v := mutate e t (rx_v y)\<rparr>)"
    using Cons.IH [of "y\<lparr>rx_v := mutate e s (rx_v y)\<rparr>"] Cons.prems(2,3) by simp
  then show ?case using st by (simp del: rest_step.simps)
qed

lemma creating_cases:
  "creating r = Some e \<Longrightarrow> (\<exists>call key. r = NewStart call key e) \<or> (\<exists>call key. r = NewInit call key e)"
  by (cases r) simp_all

lemma NewStart_started:
  assumes g: "good_env items env" and y: "rest_reachable env y" and q: "q < length (rx_reqs y)"
    and n: "rx_reqs y ! q = NewStart call key e"
  shows "\<exists>es z. list_all server_event es \<and> run_events (rest_step env) es y = Some z \<and> started (rx_v z) e"
proof -
  note f = rest_start_facts [OF g rest_allD(1) [OF rest_reachable_all [OF y g]]]
  have r: "ready (rx_v y) e" using f(1) [OF q n] .
  obtain es t where t: "list_all internal es" "run_events (sess_step (re_bufs env)) es (rx_session e y) = Some t" "\<not> rlocked t"
    using drain_locks by blast
  define x where "x = y\<lparr>rx_v := mutate e t (rx_v y)\<rparr>"
  have x: "run_events (rest_step env) (map (RSess e) es) y = Some x" "rx_session e x = t" "rx_reqs x = rx_reqs y"
    using lift_session [OF t(2,1) r] mutated_session [OF r] by (simp_all add: x_def)
  have xr: "rest_reachable env x" using run_events_reachable [OF y x(1)] .
  note fx = rest_start_facts [OF g rest_allD(1) [OF rest_reachable_all [OF xr g]], of q call key e]
  obtain w where w: "rx_sess env e (EStart call) x = Some w" using fx(3) q n x t(3) by auto
  then obtain s where s: "w = x\<lparr>rx_v := mutate e s (rx_v x)\<rparr>" "ss_stage (sy_s s) = stageRunning" using fx(4) q n x(3) by auto
  define z where "z = set_req q (Answered (Response 200 (json_string key @ [newline]))) w"
  have "rest_step env (RReq q) x = Some z" using q n x(3) w by (simp add: rest_req_step_def serveNew_step_def z_def)
  then have "run_events (rest_step env) (map (RSess e) es @ [RReq q]) y = Some z"
    using x(1) by (simp add: run_events_append del: rest_step.simps)
  moreover have "started (rx_v z) e" using s fx(1) q n x(3) by (simp add: z_def started_def ready_def)
  moreover have "list_all server_event (map (RSess e) es @ [RReq q])" using t(1) by (simp add: list_all_iff)
  ultimately show ?thesis by blast
qed

text \<open>
  Property C1. Every session that the store, an eviction callback, a worker of \<open>Close\<close> or a
  request refers to has been started, or will be by steps of the server alone: so no
  \<open>CloseWith\<close> of the server waits for a process that nobody starts.
\<close>

theorem referenced_sessions_start:
  assumes g: "good_env items env" and y: "rest_reachable env y" and e: "referenced items y e"
  shows "\<exists>es z. list_all server_event es \<and> run_events (rest_step env) es y = Some z \<and> started (rx_v z) e"
proof -
  have i: "rest_inv items env y" using rest_allD(1) [OF rest_reachable_all [OF y g]] .
  then have "attended y e" using e unfolding rest_inv_def by blast
  then consider "started (rx_v y) e"
    | q call key where "q < length (rx_reqs y)" "rx_reqs y ! q = NewStart call key e"
    | q call key where "q < length (rx_reqs y)" "rx_reqs y ! q = NewInit call key e"
    unfolding attended_def created_def using creating_cases by blast
  then show ?thesis
  proof cases
    case 1
    then show ?thesis by (intro exI [of _ "[]"]) simp
  next
    case 2
    then show ?thesis using NewStart_started [OF g y] by blast
  next
    case (3 q call key)
    have "creators_ok (rx_v y) (rx_reqs y)" using i unfolding rest_inv_def by blast
    then have l: "e < length (vy_heap (rx_v y))" using 3 unfolding creators_ok_def unstarted_def by fastforce
    obtain x where x: "rest_step env (RReq q) y = Some x" "rx_reqs x = (rx_reqs y)[q := NewStart call key e]"
      using 3 l by (simp add: rest_req_step_def serveNew_step_def rx_vap_def)
    have "rest_reachable env x" using y x(1) by (rule reach_step)
    then obtain es z where "list_all server_event es" "run_events (rest_step env) es x = Some z" "started (rx_v z) e"
      using NewStart_started [OF g, of x q call key e] x(2) 3(1) by auto
    then show ?thesis using x(1) by (intro exI [of _ "RReq q # es"] exI [of _ z]) (simp del: rest_step.simps)
  qed
qed

theorem referenced_sessions_start_witness:
  "\<exists>y es z. rest_reachable demo_env y \<and> list_all server_event es \<and> run_events (rest_step demo_env) es y = Some z \<and>
    \<not> started (rx_v y) 0 \<and> started (rx_v z) 0"
proof -
  have "case demo_run demo_new of None \<Rightarrow> False | Some y \<Rightarrow>
      vp_cache (vy_v (rx_v y)) = [(''a'', 0, minTimeout, Some minTimeout)] \<and> \<not> started (rx_v y) 0"
    by code_simp
  then obtain y where y: "rest_reachable demo_env y" "vp_cache (vy_v (rx_v y)) = [(''a'', 0, minTimeout, Some minTimeout)] \<and> \<not> started (rx_v y) 0"
    using demo_case by blast
  then have "referenced map_of y 0" by (simp add: referenced_def known_def ran_def ent_def exI [of _ "''a''"])
  then show ?thesis using referenced_sessions_start [OF demo_good y(1)] y by blast
qed

section \<open>Closing the server\<close>

lemma closed_empty:
  assumes a: "rest_all items env y" and c: "c < length (rx_closes y)" "\<And>i. rx_closes y ! c \<noteq> CloseEvict i"
  shows "vy_items items (rx_v y) = Map.empty" "vp_stopped (vy_v (rx_v y))"
proof -
  have "close_ok (vy_evicts (rx_v y)) (rx_closes y ! c)"
    using rest_allD(4) [OF a] c(1) by (simp add: closes_ok_def list_all_length)
  then obtain i where i: "i < length (vy_evicts (rx_v y))" "vy_evicts (rx_v y) ! i = EA_returned"
    using c(2) by (cases "rx_closes y ! c") auto
  have "evict_inv items (rx_v y)" using rest_allD(1) [OF a] unfolding rest_inv_def vap_inv_def by blast
  then have e: "vy_evicts (rx_v y) \<noteq> [] \<longrightarrow> vp_stopped (vy_v (rx_v y))"
      "evict_ok (vy_items items (rx_v y)) (lookup_live (vy_now (rx_v y)) (vy_items items (rx_v y))) (vy_workers (rx_v y))
        (vy_evicts (rx_v y) ! i)"
    using i(1) by (simp_all add: evict_inv_def list_all_length)
  show "vy_items items (rx_v y) = Map.empty" using e(2) i(2) by simp
  show "vp_stopped (vy_v (rx_v y))" using e(1) i(1) by auto
qed

text \<open>
  Property C3. When \<open>Close\<close> has returned, nothing is stored, then and after everything that may
  follow: every lookup is answered 404 and no request creates a session any more.
\<close>

theorem rest_Close_final:
  assumes g: "good_env items env" and y: "rest_reachable env y"
    and c: "c < length (rx_closes y)" "rx_closes y ! c = CloseDone"
    and z: "run_events (rest_step env) es y = Some z"
  shows "vy_items items (rx_v z) = Map.empty \<and>
    (\<forall>q op key w. rx_reqs z ! q = Lookup op key \<longrightarrow> rest_step env (RReq q) z = Some w \<longrightarrow>
      rx_reqs w ! q = Answered (http_Error ''process not found'' 404)) \<and>
    (\<forall>q key w. rest_step env (RTry q key) z = Some w \<longrightarrow> creating (rx_reqs w ! q) = None)"
proof -
  note ce = closed_empty [OF rest_reachable_all [OF y g] c(1)]
  have gr: "vap_grows items (rx_v y) (rx_v z)" using rest_run_grows [OF y z g] by (simp add: rest_grows_def)
  have st: "vp_stopped (vy_v (rx_v z))" and "ent (vy_items items (rx_v z)) \<subseteq>\<^sub>m Map.empty"
    using gr ce c(2) by (simp_all add: vap_grows_def)
  then have "dom (ent (vy_items items (rx_v z))) = {}" using map_le_implies_dom_le by fastforce
  then have em: "vy_items items (rx_v z) = Map.empty" by simp
  have l: "cache_laws (re_cache env) items" using g by (simp add: good_env_def)
  have none: "snd (tc_Get (re_cache env) True t key (vp_cache (vy_v (rx_v z)))) = None" for t key
  proof -
    obtain d r where d: "tc_Get (re_cache env) True t key (vp_cache (vy_v (rx_v z))) = (d, r)" by force
    from l d show ?thesis by (cases rule: law_Get) (use em d in \<open>simp_all add: lookup_live_def\<close>)
  qed
  have "rx_reqs w ! q = Answered (http_Error ''process not found'' 404)"
    if "rx_reqs z ! q = Lookup op key" "rest_step env (RReq q) z = Some w" for q op key w
    using that none by (auto simp: rest_req_step_def serve_get_step_def rx_vap_def split: if_splits)
  moreover have "creating (rx_reqs w ! q) = None" if "rest_step env (RTry q key) z = Some w" for q key w
    using that st by (auto simp: serveNew_try_def newEntry_try_def Let_def rx_vap_def split: if_splits rest_req.splits)
  ultimately show ?thesis using em by blast
qed

definition demo_closed :: "nat rest_event list" where
  "demo_closed = demo_new @ [RReq 0, RSess 0 EGetOk, RClose, RKeys 0, RWorker 0, RWorker 0, RSess 0 (EClient 0),
     RSess 0 (EClient 0), RSess 0 (EClient 0), RSess 0 (EDoReturn (Some 7) None), RSess 0 ERun, RSess 0 ERun, RSess 0 ERun,
     RSess 0 ERun, RSess 0 (EClient 0), RWorker 0, RWorker 0, RWait 0, RCloseStep 0, RCloseStep 0]"

theorem rest_Close_final_witness:
  "\<exists>y z. rest_reachable demo_env y \<and> rx_closes y = [CloseDone] \<and>
    run_events (rest_step demo_env) [RRequest (post_request ''/cancel/a'' []), RReq 1, RReq 1] y = Some z \<and>
    vp_cache (vy_v (rx_v z)) = []"
proof -
  have "case demo_run demo_closed of None \<Rightarrow> False | Some y \<Rightarrow> rx_closes y = [CloseDone] \<and>
      run_events (rest_step demo_env) [RRequest (post_request ''/cancel/a'' []), RReq 1, RReq 1] y \<noteq> None"
    by code_simp
  then obtain y where y: "rest_reachable demo_env y" "rx_closes y = [CloseDone]"
      "run_events (rest_step demo_env) [RRequest (post_request ''/cancel/a'' []), RReq 1, RReq 1] y \<noteq> None"
    using demo_case by blast
  then obtain z where z: "run_events (rest_step demo_env) [RRequest (post_request ''/cancel/a'' []), RReq 1, RReq 1] y = Some z" by blast
  have "map_of (vp_cache (vy_v (rx_v z))) = Map.empty"
    using rest_Close_final [OF demo_good y(1) _ _ z, of 0] y(2) by simp
  then have "vp_cache (vy_v (rx_v z)) = []" by (simp add: map_of_eq_empty_iff)
  then show ?thesis using y z by blast
qed



section \<open>Answers\<close>

text \<open>
  Property C5. A request to cancel is answered only when the process has returned: its session
  is done, its context cancelled and its input closed.
\<close>

theorem cancel_answer_means_done:
  assumes g: "good_env items env" and y: "rest_reachable env y" and q: "rx_reqs y ! q = Closing e i"
    and s: "rest_step env (RReq q) y = Some z"
  shows "rx_reqs z ! q = Answered (Response 200 ''process cancelled'') \<and> ss_done (sy_s (rx_session e z)) \<and>
    ss_context (sy_s (rx_session e z)) \<noteq> None \<and> p_rerr (ss_pipe (sy_s (rx_session e z))) \<noteq> None"
proof -
  have l: "q < length (rx_reqs y)" using s by (simp split: if_splits)
  then have r: "client_at e i y = CW_returned" "z = set_req q (Answered (Response 200 ''process cancelled'')) y"
    using s q by (auto simp: rest_req_step_def serve_op_step_def split: if_splits)
  note a = rest_allD [OF rest_reachable_all [OF y g]]
  have "client_in (rx_v y) (e, i)" using a(2) l q unfolding waits_ok_def by fastforce
  then show ?thesis using client_returned [OF a(1) _ r(1)] r(2) l by (auto simp: done_in_def rx_session_def)
qed

definition demo_cancel :: "nat rest_event list" where
  "demo_cancel = demo_new @ [RReq 0, RSess 0 EGetOk, RRequest (post_request ''/cancel/a'' []), RReq 1, RReq 1, RReq 1, RReq 1,
     RSess 0 (EClient 0), RSess 0 (EClient 0), RSess 0 (EClient 0), RSess 0 (EDoReturn (Some 7) None),
     RSess 0 ERun, RSess 0 ERun, RSess 0 ERun, RSess 0 ERun, RSess 0 (EClient 0)]"

theorem cancel_answer_means_done_witness:
  "\<exists>y z. rest_reachable demo_env y \<and> rx_reqs y ! 1 = Closing 0 0 \<and> rest_step demo_env (RReq 1) y = Some z \<and>
    ss_done (sy_s (rx_session 0 z))"
proof -
  have "case demo_run demo_cancel of None \<Rightarrow> False | Some y \<Rightarrow> rx_reqs y ! 1 = Closing 0 0 \<and> rest_step demo_env (RReq 1) y \<noteq> None"
    by code_simp
  then obtain y where y: "rest_reachable demo_env y" "rx_reqs y ! 1 = Closing 0 0" "rest_step demo_env (RReq 1) y \<noteq> None"
    using demo_case by blast
  then obtain z where z: "rest_step demo_env (RReq 1) y = Some z" by blast
  then show ?thesis using cancel_answer_means_done [OF demo_good y(1,2) z] y by blast
qed

lemma done_outcome:
  assumes "sess_ok s" "ss_done (sy_s s)"
  shows "ss_stage (sy_s s) = stageFinished \<and>
    (\<exists>oc. sy_outcome s = Some oc \<and> ss_result (sy_s s) = fst (run_result oc) \<and> ss_err (sy_s s) = snd (run_result oc))"
proof -
  have "control_inv s" using assms(1) unfolding sess_ok_def sess_inv_def by blast
  then show ?thesis using assms(2) by (cases "sy_run s") (auto simp: control_inv_def prod_eq_iff)
qed

text \<open>
  Property C6. Once a process has ended, every answer to a request for its status has the result
  of that process, whatever else has happened to the server in between.
\<close>

theorem status_is_the_outcome:
  assumes g: "good_env items env" and y: "rest_reachable env y" and d: "done_in (rx_v y) e"
    and z: "run_events (rest_step env) es y = Some z" and q: "rx_reqs z ! q = Operate OpStatus e"
    and s: "rest_step env (RReq q) z = Some w"
  shows "\<exists>oc buf. sy_outcome (rx_session e y) = Some oc \<and> rx_reqs w ! q = Answered (Response 200 (Status_MarshalJSON (re_marshal env)
      \<lparr>st_Buffer = buf, st_Result = Some \<lparr>Value = fst (run_result oc), Reason = snd (run_result oc)\<rparr>\<rparr> @ [newline]))"
proof -
  have l: "q < length (rx_reqs z)" using s by (simp split: if_splits)
  have r: "ready (rx_v y) e" "ss_done (sy_s (rx_session e y))" using d by (simp_all add: done_in_def rx_session_def)
  have ok: "sess_ok (rx_session e y)" by (rule session_is_ok [OF rest_allD(1) [OF rest_reachable_all [OF y g]] r(1)])
  obtain oc where oc: "ss_stage (sy_s (rx_session e y)) = stageFinished" "sy_outcome (rx_session e y) = Some oc"
      "ss_result (sy_s (rx_session e y)) = fst (run_result oc)" "ss_err (sy_s (rx_session e y)) = snd (run_result oc)"
    using done_outcome [OF ok r(2)] by blast
  have "sess_grows (sy_s (rx_session e y)) (sy_s (rx_session e z))"
    using rest_run_grows [OF y z g] r(1) unfolding rest_grows_def sessions_grow_def rx_session_def by blast
  then have f: "ss_stage (sy_s (rx_session e z)) = stageFinished" "ss_result (sy_s (rx_session e z)) = fst (run_result oc)"
      "ss_err (sy_s (rx_session e z)) = snd (run_result oc)"
    using oc stage_le_from(2) by (auto simp: sess_grows_def)
  obtain x where "w = set_req q (Answered (Response 200 (Status_MarshalJSON (re_marshal env)
      (snd (session_Status (re_bufs env) (sy_s (rx_session e z)))) @ [newline]))) x" "length (rx_reqs x) = length (rx_reqs z)"
    using s q l by (auto simp: rest_req_step_def serve_op_step_def serveStatus_step_def Let_def frame_def dest: rx_sess_frame)
  then have "rx_reqs w ! q = Answered (Response 200 (Status_MarshalJSON (re_marshal env)
      (snd (session_Status (re_bufs env) (sy_s (rx_session e z)))) @ [newline]))"
    using l by simp
  moreover have "\<exists>buf. snd (session_Status (re_bufs env) (sy_s (rx_session e z))) =
      \<lparr>st_Buffer = buf, st_Result = Some \<lparr>Value = fst (run_result oc), Reason = snd (run_result oc)\<rparr>\<rparr>"
    using f by (simp add: session_Status_def split: prod.split)
  ultimately show ?thesis using oc(2) by auto
qed

definition get_request :: "bytes \<Rightarrow> rest_request" where
  "get_request path = \<lparr>rq_method = ''GET'', rq_path = path, rq_upgrade = False, rq_body = [], rq_fails = False\<rparr>"

theorem status_is_the_outcome_witness:
  "\<exists>y z w oc buf. rest_reachable demo_env y \<and>
    run_events (rest_step demo_env) [RRequest (get_request ''/status/a''), RReq 2, RReq 2, RReq 2] y = Some z \<and>
    rest_step demo_env (RReq 2) z = Some w \<and> sy_outcome (rx_session 0 y) = Some oc \<and>
    rx_reqs w ! 2 = Answered (Response 200 (Status_MarshalJSON (re_marshal demo_env)
      \<lparr>st_Buffer = buf, st_Result = Some \<lparr>Value = fst (run_result oc), Reason = snd (run_result oc)\<rparr>\<rparr> @ [newline]))"
proof -
  let ?es = "[RRequest (get_request ''/status/a''), RReq 2, RReq 2, RReq 2]"
  have "case demo_run demo_cancel of None \<Rightarrow> False | Some y \<Rightarrow> done_in (rx_v y) 0 \<and>
      (case run_events (rest_step demo_env) ?es y of None \<Rightarrow> False
       | Some z \<Rightarrow> rx_reqs z ! 2 = Operate OpStatus 0 \<and> rest_step demo_env (RReq 2) z \<noteq> None)"
    by code_simp
  then obtain y where y: "rest_reachable demo_env y" "done_in (rx_v y) 0"
      "case run_events (rest_step demo_env) ?es y of None \<Rightarrow> False
       | Some z \<Rightarrow> rx_reqs z ! 2 = Operate OpStatus 0 \<and> rest_step demo_env (RReq 2) z \<noteq> None"
    using demo_case by blast
  then obtain z where z: "run_events (rest_step demo_env) ?es y = Some z" "rx_reqs z ! 2 = Operate OpStatus 0"
      "rest_step demo_env (RReq 2) z \<noteq> None"
    by (cases "run_events (rest_step demo_env) ?es y") simp_all
  then obtain w where w: "rest_step demo_env (RReq 2) z = Some w" by blast
  show ?thesis using status_is_the_outcome [OF demo_good y(1,2) z(1,2) w] y(1) z(1) w by blast
qed

text \<open>
  A request for a process finds it exactly while it is stored and has not expired,
  and then prolongs its life by its full timeout; otherwise the answer is 404 and nothing changes.
\<close>

theorem lookup_finds_live:
  assumes g: "good_env items env" and q: "rx_reqs y ! q = Lookup op key" and s: "rest_step env (RReq q) y = Some z"
  shows "case lookup_live (vy_now (rx_v y)) (vy_items items (rx_v y)) key of
      None \<Rightarrow> rx_reqs z ! q = Answered (http_Error ''process not found'' 404) \<and> vy_items items (rx_v z) = vy_items items (rx_v y)
    | Some it \<Rightarrow> rx_reqs z ! q = InitFound op (fst it) \<and>
        vy_items items (rx_v z) = (vy_items items (rx_v y))(key \<mapsto> touch_item (vy_now (rx_v y)) it)"
proof -
  have l: "cache_laws (re_cache env) items" using g by (simp add: good_env_def)
  have n: "q < length (rx_reqs y)" using s by (simp split: if_splits)
  obtain c r where c: "tc_Get (re_cache env) True (vy_now (rx_v y)) key (vp_cache (vy_v (rx_v y))) = (c, r)" by force
  have z: "rx_reqs z ! q = (case r of None \<Rightarrow> Answered (http_Error ''process not found'' 404) | Some e \<Rightarrow> InitFound op e)"
      "vp_cache (vy_v (rx_v z)) = c"
    using s q n c by (auto simp: rest_req_step_def serve_get_step_def rx_vap_def split: if_splits)
  from l c show ?thesis by (cases rule: law_Get) (simp_all add: z)
qed

theorem lookup_finds_live_witness:
  "\<exists>y z. rest_reachable demo_env y \<and> rx_reqs y ! 1 = Lookup OpCancel ''a'' \<and> rest_step demo_env (RReq 1) y = Some z \<and>
    rx_reqs z ! 1 = InitFound OpCancel 0"
proof -
  have "case demo_run (demo_new @ [RRequest (post_request ''/cancel/a'' []), RReq 1]) of None \<Rightarrow> False | Some y \<Rightarrow>
      rx_reqs y ! 1 = Lookup OpCancel ''a'' \<and> rest_step demo_env (RReq 1) y \<noteq> None \<and>
      lookup_live (vy_now (rx_v y)) (map_of (vp_cache (vy_v (rx_v y)))) ''a'' = Some (0, minTimeout, Some minTimeout)"
    by code_simp
  then obtain y where y: "rest_reachable demo_env y" "rx_reqs y ! 1 = Lookup OpCancel ''a''" "rest_step demo_env (RReq 1) y \<noteq> None"
      "lookup_live (vy_now (rx_v y)) (map_of (vp_cache (vy_v (rx_v y)))) ''a'' = Some (0, minTimeout, Some minTimeout)"
    using demo_case by blast
  then obtain z where z: "rest_step demo_env (RReq 1) y = Some z" by blast
  have "rx_reqs z ! 1 = InitFound OpCancel 0" using lookup_finds_live [OF demo_good y(2) z] y(4) by simp
  then show ?thesis using y(1,2) z by blast
qed

text \<open>
  Property C23. The context of a process of the REST server is only ever cancelled because the
  handler returned, the client asked for it, the timeout expired, or the server closes.
\<close>

theorem rest_causes_only:
  assumes "good_env items env" "rest_reachable env y" "ready (rx_v y) e" "ss_context (sy_s (rx_session e y)) = Some c"
  shows "c \<in> {ErrCancelHandlerReturn, ErrCancelClientRequest, ErrCancelTimeout, errServerClose}"
  using session_is_ok [OF rest_allD(1) [OF rest_reachable_all [OF assms(2,1)]] assms(3)] assms(4)
  by (auto simp: sess_ok_def causes_ok_def rest_cause_def)

theorem rest_causes_only_witness:
  "\<exists>y c. rest_reachable demo_env y \<and> ss_context (sy_s (rx_session 0 y)) = Some c \<and>
    c \<in> {ErrCancelHandlerReturn, ErrCancelClientRequest, ErrCancelTimeout, errServerClose}"
proof -
  have "case demo_run demo_closed of None \<Rightarrow> False | Some y \<Rightarrow>
      ready (rx_v y) 0 \<and> ss_context (sy_s (rx_session 0 y)) = Some errServerClose"
    by code_simp
  then obtain y where y: "rest_reachable demo_env y" "ready (rx_v y) 0" "ss_context (sy_s (rx_session 0 y)) = Some errServerClose"
    using demo_case by blast
  then show ?thesis using rest_causes_only [OF demo_good y] by blast
qed

section \<open>Routing\<close>

definition op_path :: "rest_op \<Rightarrow> bytes" where
  "op_path op = (case op of OpStatus \<Rightarrow> ''status/'' | OpInput c f \<Rightarrow> ''input/'' | OpCloseInput \<Rightarrow> ''closeInput/'' | OpCancel \<Rightarrow> ''cancel/'')"

definition op_method :: "rest_op \<Rightarrow> bytes" where
  "op_method op = (if op = OpStatus then ''GET'' else ''POST'')"

definition op_route :: "rest_op \<Rightarrow> rest_route" where
  "op_route op = (case op of OpStatus \<Rightarrow> RouteStatus | OpInput c f \<Rightarrow> RouteInput | OpCloseInput \<Rightarrow> RouteCloseInput | OpCancel \<Rightarrow> RouteCancel)"

lemma base_match:
  "mux_match (MuxSegment (base @ p)) (base @ z) = mux_match (MuxSegment p) z"
  "mux_match (MuxExact (base @ p)) (base @ z) = mux_match (MuxExact p) z"
  "mux_match (MuxTree (base @ p)) (base @ z) = mux_match (MuxTree p) z"
  by auto

lemma rest_hits:
  assumes "key \<noteq> []" "slash \<notin> set key"
  shows "List.map_filter (\<lambda>(mt, p, r). map_option (\<lambda>x. (mt, r, x)) (mux_match p (base @ op_path op @ key))) (rest_mux base dis) =
    [(Some (op_method op), op_route op, key)]"
  unfolding rest_mux_def op_path_def op_method_def op_route_def
  by (cases op; cases dis; simp add: List.map_filter_simps base_match del: mux_match.simps; simp add: assms)

lemma no_subtree:
  "\<not> list_ex (\<lambda>(mt, p, r). p = MuxTree (base @ op_path op @ key @ [slash]) \<and> method_ok mt m) (rest_mux base dis)"
  by (cases op) (simp_all add: rest_mux_def op_path_def)

lemma mux_find_op:
  assumes "key \<noteq> []" "slash \<notin> set key" "Clean (base @ op_path op @ key) = base @ op_path op @ key"
  shows "mux_find (rest_mux base dis) m (base @ op_path op @ key) =
    (if method_ok (Some (op_method op)) m then MuxHandler (op_route op) key else MuxMethodNotAllowed)"
  using no_subtree [of base op key m dis] unfolding mux_find_def Let_def rest_hits [OF assms(1,2)] by (simp add: assms(3))

text \<open>
  Property C24. The mux of a server routes an operation on an id to that operation: a request with
  the right method, whose path is clean and is the base path, the name of the operation and an id
  that is not empty and has no slash. Every other method on such a path is answered 405.
\<close>

theorem rest_routes:
  assumes "rv_mux server = rest_mux base dis" "rv_context server = None" "\<not> rq_upgrade r"
    "rq_path r = base @ op_path op @ key" "key \<noteq> []" "slash \<notin> set key" "Clean (rq_path r) = rq_path r"
    "op \<in> {OpStatus, OpInput (rq_body r) (rq_fails r), OpCloseInput, OpCancel}"
  shows "rest_ServeHTTP server r =
    (if rq_method r = op_method op \<or> op = OpStatus \<and> rq_method r = ''HEAD'' then Find op key
     else Answered (http_Error ''Method Not Allowed'' 405))"
proof -
  have "mux_find (rv_mux server) (rq_method r) (rq_path r) =
      (if method_ok (Some (op_method op)) (rq_method r) then MuxHandler (op_route op) key else MuxMethodNotAllowed)"
    unfolding assms(1,4) by (rule mux_find_op [OF assms(5,6)]) (use assms(4,7) in simp)
  moreover have "rest_handle server r (op_route op) key = Find op key"
    using assms(5,8) by (auto simp: rest_handle_def op_route_def with_id_def)
  moreover have "method_ok (Some (op_method op)) (rq_method r) \<longleftrightarrow>
      rq_method r = op_method op \<or> op = OpStatus \<and> rq_method r = ''HEAD''"
    by (auto simp: method_ok_def op_method_def)
  ultimately show ?thesis using assms(2,3) by (simp add: rest_ServeHTTP_def)
qed

theorem rest_routes_witness:
  "rest_ServeHTTP demo_server (get_request ''/status/a'') = Find OpStatus ''a''"
proof -
  have "Clean ''/status/a'' = ''/status/a''" by code_simp
  then show ?thesis
    using rest_routes [of demo_server "''/''" True "get_request ''/status/a''" OpStatus "''a''"]
    by (simp add: demo_server_def get_request_def op_path_def op_method_def)
qed

lemma find_in: "find P xs = Some x \<Longrightarrow> x \<in> set xs"
  by (induction xs) (auto split: if_splits)

lemma mux_find_handler:
  assumes "mux_find m mt path = MuxHandler r x"
  obtains mt' p where "(mt', p, r) \<in> set m" "mux_match p path = Some x"
proof -
  obtain mt' where "(mt', r, x) \<in> set (List.map_filter (\<lambda>(mt, p, r). map_option (\<lambda>x. (mt, r, x)) (mux_match p path)) m)"
    using assms find_in by (fastforce simp: mux_find_def Let_def split: if_splits option.splits)
  then show thesis using that by (auto simp: List.map_filter_def)
qed

lemma segment_id: "(mt, p, r) \<in> set (rest_mux base dis) \<Longrightarrow> r \<in> {RouteStatus, RouteInput, RouteCloseInput, RouteCancel} \<Longrightarrow>
    mux_match p path = Some x \<Longrightarrow> x \<noteq> []"
  by (auto simp: rest_mux_def split: if_splits)

text \<open>
  An id is never missing: no request is answered that it did not provide one.
\<close>

theorem id_is_never_missing:
  assumes "rv_mux server = rest_mux base dis"
  shows "rest_ServeHTTP server r \<noteq> Answered (http_Error ''did not provide id'' 400)"
proof (cases "mux_find (rv_mux server) (rq_method r) (rq_path r)")
  case (MuxHandler rt x)
  then obtain mt p where "(mt, p, rt) \<in> set (rest_mux base dis)" "mux_match p (rq_path r) = Some x"
    unfolding assms by (rule mux_find_handler)
  then have "x \<noteq> []" if "rt \<in> {RouteStatus, RouteInput, RouteCloseInput, RouteCancel}" using segment_id that by blast
  then show ?thesis using MuxHandler
    by (cases rt) (auto simp: rest_ServeHTTP_def rest_handle_def with_id_def http_Error_def split: option.split)
qed (simp_all add: rest_ServeHTTP_def http_Error_def)

theorem id_is_never_missing_witness:
  "rest_ServeHTTP demo_server (get_request ''/status/'') = Answered (http_Error ''404 page not found'' 404) \<and>
   rest_ServeHTTP demo_server (get_request ''/status/'') \<noteq> Answered (http_Error ''did not provide id'' 400)"
proof -
  have "rest_ServeHTTP demo_server (get_request ''/status/'') = Answered (http_Error ''404 page not found'' 404)" by code_simp
  moreover have "rv_mux demo_server = rest_mux ''/'' True" by (simp add: demo_server_def)
  ultimately show ?thesis using id_is_never_missing [of demo_server "''/''" True] by blast
qed

end
