(* ===== verification/Server.thy ===== *)
theory Server
  imports RestProps Ws
begin

text \<open>
  \<open>server.go\<close>: the server that puts the REST and the websocket server behind one handler. The
  websocket package is a parameter: the predicate \<open>wx\<close> says which requests it takes as
  connections; all others it hands to its \<open>Fallback\<close>, as its documentation says, when that is
  not nil.
\<close>

section \<open>The server\<close>

record server_options =
  so_BasePath :: bytes
  so_DisableWebsocket :: bool
  so_DisableREST :: bool
  so_RESTOptions :: rest_options

datatype http_handler = NotFoundHandler | RestHandler | WebsocketHandler

text \<open>
  The fields that \<open>doInit\<close> sets. The fallback of the websocket server is the pointer in
  \<open>rest\<close> as an interface value: it is never the nil interface, even when the pointer is nil.
\<close>

record server =
  sv_Options :: server_options
  sv_handler :: "http_handler option"
  sv_websocket :: "ws_server option"
  sv_rest :: "rest_server option"

definition server_zero :: "server_options \<Rightarrow> server" where
  "server_zero opt = \<lparr>sv_Options = opt, sv_handler = None, sv_websocket = None, sv_rest = None\<rparr>"

definition server_doInit :: "server \<Rightarrow> server" where
  "server_doInit s =
     (if sv_handler s \<noteq> None then s
      else (let opt = sv_Options s;
                s = (if so_DisableREST opt then s
                     else s\<lparr>sv_rest := Some (rest_NewServer (so_BasePath opt) (so_RESTOptions opt))\<rparr>);
                s = (if so_DisableWebsocket opt then s
                     else s\<lparr>sv_websocket := Some (ws_NewServer (so_BasePath opt))\<rparr>)
            in s\<lparr>sv_handler := Some (if so_DisableREST opt \<and> so_DisableWebsocket opt then NotFoundHandler
                 else if so_DisableWebsocket opt then RestHandler else WebsocketHandler)\<rparr>))"

text \<open>What becomes of a request: an answer, a REST goroutine, a connection, or a panic.\<close>

datatype served = ServedAnswer rest_response | ServedRest rest_req | ServedConnection | ServedPanic

text \<open>\<open>rest_impl.Server.ServeHTTP\<close> on a pointer that may be nil, with its \<open>doInit\<close>.\<close>

definition serve_rest :: "bytes \<Rightarrow> rest_request \<Rightarrow> server \<Rightarrow> server \<times> served" where
  "serve_rest spec r s =
     (case sv_rest s of
        None \<Rightarrow> (s, ServedPanic)
      | Some rs \<Rightarrow>
          (let (rs, panicked) = rest_doInit spec rs
           in (s\<lparr>sv_rest := Some rs\<rparr>, if panicked then ServedPanic else ServedRest (rest_ServeHTTP rs r))))"

definition serve_websocket :: "(rest_request \<Rightarrow> bool) \<Rightarrow> bytes \<Rightarrow> rest_request \<Rightarrow> server \<Rightarrow> server \<times> served" where
  "serve_websocket wx spec r s =
     (case sv_websocket s of
        None \<Rightarrow> (s, ServedPanic)
      | Some ws \<Rightarrow>
          (case ws_ServeHTTP ws (rq_path r) of
             WsNotFound \<Rightarrow> (s, ServedAnswer (http_Error ''404 page not found'' 404))
           | WsConnection \<Rightarrow> if wx r then (s, ServedConnection) else serve_rest spec r s))"

definition server_ServeHTTP :: "(rest_request \<Rightarrow> bool) \<Rightarrow> bytes \<Rightarrow> rest_request \<Rightarrow> server \<Rightarrow> server \<times> served" where
  "server_ServeHTTP wx spec r s =
     (let s = server_doInit s
      in case sv_handler s of
           Some RestHandler \<Rightarrow> serve_rest spec r s
         | Some WebsocketHandler \<Rightarrow> serve_websocket wx spec r s
         | _ \<Rightarrow> (s, ServedAnswer (http_Error ''Not found'' 404)))"

section \<open>Closing\<close>

text \<open>
  \<open>Close\<close> and \<open>Shutdown\<close> start two goroutines and wait for both. A goroutine makes one call,
  or none when its server is nil; the calls in progress are those of the list.
\<close>

datatype stop_call = CallWsClose | CallWsShutdown | CallRestClose

datatype stop_pc = StopBegin stop_call | StopCalled stop_call | StopDone

definition server_Close :: "server \<Rightarrow> server \<times> stop_pc list" where
  "server_Close s = (server_doInit s, [StopBegin CallWsClose, StopBegin CallRestClose])"

definition server_Shutdown :: "server \<Rightarrow> server \<times> stop_pc list" where
  "server_Shutdown s = (server_doInit s, [StopBegin CallWsShutdown, StopBegin CallRestClose])"

definition stop_nil :: "server \<Rightarrow> stop_call \<Rightarrow> bool" where
  "stop_nil s call = (case call of CallRestClose \<Rightarrow> sv_rest s = None | _ \<Rightarrow> sv_websocket s = None)"

text \<open>Goroutine \<open>i\<close> moves on; \<open>ret call\<close> says that the call has returned.\<close>

definition stop_step :: "server \<Rightarrow> (stop_call \<Rightarrow> bool) \<Rightarrow> nat \<Rightarrow> stop_pc list \<Rightarrow> stop_pc list option" where
  "stop_step s ret i pcs =
     (if i < length pcs then
        (case pcs ! i of
           StopBegin call \<Rightarrow> Some (pcs[i := if stop_nil s call then StopDone else StopCalled call])
         | StopCalled call \<Rightarrow> if ret call then Some (pcs[i := StopDone]) else None
         | StopDone \<Rightarrow> None)
      else None)"

definition stop_returned :: "stop_pc list \<Rightarrow> bool" where
  "stop_returned pcs \<longleftrightarrow> list_all (\<lambda>pc. pc = StopDone) pcs"

section \<open>Properties\<close>

lemma doInit_rest:
  assumes "rest_doInit spec rs = (rs', False)" "\<not> rv_inited rs"
  shows "rv_context rs' = None" "rv_mux rs' = rest_mux (Clean (rv_path rs)) (ro_DisableSwaggerUI (rv_options rs))"
  using assms by (auto simp: rest_doInit_def rest_SetDefaults_def Let_def split: prod.splits option.splits)

lemma SetDefaults_fields [simp]:
  "ro_OpenAPIServerDescription (rest_SetDefaults o') = ro_OpenAPIServerDescription o'"
  "ro_DisableSwaggerUI (rest_SetDefaults o') = ro_DisableSwaggerUI o'"
  by (simp_all add: rest_SetDefaults_def)

lemma doInit_succeeds:
  assumes "snd (getSpecWithServer spec (Clean path) (ro_OpenAPIServerDescription options)) = None"
  shows "\<exists>rs. rest_doInit spec (rest_NewServer path options) = (rs, False)"
  using assms by (cases "getSpecWithServer spec (Clean path) (ro_OpenAPIServerDescription options)")
    (simp add: rest_doInit_def rest_NewServer_def)

lemma serve_both:
  assumes "\<not> so_DisableREST opt" "\<not> so_DisableWebsocket opt"
    and "rest_doInit spec (rest_NewServer (so_BasePath opt) (so_RESTOptions opt)) = (rs, False)"
    and "isValidRequestPath (ws_NewServer (so_BasePath opt)) (rq_path r)" "\<not> wx r"
  shows "snd (server_ServeHTTP wx spec r (server_zero opt)) = ServedRest (rest_ServeHTTP rs r)"
  using assms by (simp add: server_ServeHTTP_def server_doInit_def server_zero_def serve_websocket_def serve_rest_def
      ws_ServeHTTP_def Let_def)


definition demo_options :: "bytes \<Rightarrow> bool \<Rightarrow> server_options" where
  "demo_options base dis = \<lparr>so_BasePath = base, so_DisableWebsocket = False, so_DisableREST = dis,
     so_RESTOptions = \<lparr>ro_Timeout = 0, ro_DisableSwaggerUI = False, ro_OpenAPIServerDescription = [], ro_Session = \<lparr>so_MaxLines = 0\<rparr>\<rparr>\<rparr>"


lemma base_slash_hits:
  "List.map_filter (\<lambda>(mt, p, r). map_option (\<lambda>x. (mt, r, x)) (mux_match p (base @ slash # z))) (rest_mux base dis) = []"
  unfolding rest_mux_def by (cases dis; simp add: List.map_filter_simps base_match del: mux_match.simps; simp)

lemma mux_find_new:
  "Clean (base @ ''new'') = base @ ''new'' \<Longrightarrow> mux_find (rest_mux base dis) ''POST'' (base @ ''new'') = MuxHandler RouteNew []"
  by (simp add: mux_find_def rest_mux_def List.map_filter_simps method_ok_def)

lemma mux_find_slash_new:
  "Clean (base @ ''/new'') = base @ ''/new'' \<Longrightarrow> mux_find (rest_mux base dis) m (base @ ''/new'') = MuxNotFound"
  unfolding mux_find_def by (simp add: base_slash_hits) (simp add: rest_mux_def)

lemma valid_below: "isValidRequestPath (ws_NewServer base) (Clean base @ z)"
  by (auto simp: isValidRequestPath_def ws_NewServer_def Let_def)



definition stop_ok :: "server \<Rightarrow> (stop_call \<Rightarrow> bool) \<Rightarrow> stop_call \<Rightarrow> stop_pc \<Rightarrow> bool" where
  "stop_ok s ret call pc \<longleftrightarrow> pc = StopBegin call \<or> pc = StopCalled call \<or> pc = StopDone \<and> (stop_nil s call \<or> ret call)"

lemma stop_ok_step:
  assumes "list_all2 (stop_ok s ret) calls pcs" "stop_step s ret i pcs = Some pcs'"
  shows "list_all2 (stop_ok s ret) calls pcs'"
proof -
  have i: "i < length pcs" using assms(2) by (auto simp: stop_step_def split: if_splits)
  then have "stop_ok s ret (calls ! i) (pcs ! i)" "i < length calls"
    using assms(1) by (simp_all add: list_all2_conv_all_nth)
  then obtain pc where pc: "pcs' = pcs[i := pc]" "stop_ok s ret (calls ! i) pc"
    using assms(2) i by (cases "pcs ! i") (auto simp: stop_step_def stop_ok_def split: if_splits)
  show ?thesis unfolding list_all2_conv_all_nth
  proof (intro conjI allI impI)
    show "length calls = length pcs'" using assms(1) pc(1) by (simp add: list_all2_lengthD)
    fix j assume "j < length calls"
    then show "stop_ok s ret (calls ! j) (pcs' ! j)"
      using assms(1) pc by (cases "j = i") (simp_all add: list_all2_conv_all_nth)
  qed
qed

interpretation stop: invariant_system "\<lambda>pcs. pcs = map StopBegin calls" "stop_step s ret" "list_all2 (stop_ok s ret) calls"
  for s ret calls
proof unfold_locales
  show "pcs = map StopBegin calls \<Longrightarrow> list_all2 (stop_ok s ret) calls pcs" for pcs
    by (simp add: list_all2_conv_all_nth stop_ok_def)
  show "list_all2 (stop_ok s ret) calls pcs \<Longrightarrow> stop_step s ret i pcs = Some pcs' \<Longrightarrow> list_all2 (stop_ok s ret) calls pcs'"
    for pcs i pcs' by (rule stop_ok_step)
qed

text \<open>
  \<open>Close\<close> and \<open>Shutdown\<close> return only when the calls they make have returned: that of
  the websocket server, and in both cases \<open>Close\<close> of the REST server, each if its server exists.
\<close>

theorem stop_waits_for_both:
  assumes "stop = server_Close s0 \<or> stop = server_Shutdown s0"
    and "run_events (stop_step (fst stop) ret) is (snd stop) = Some pcs" "stop_returned pcs"
  shows "(sv_rest (fst stop) \<noteq> None \<longrightarrow> ret CallRestClose) \<and>
    (sv_websocket (fst stop) \<noteq> None \<longrightarrow> ret (if stop = server_Close s0 then CallWsClose else CallWsShutdown))"
proof -
  let ?ws = "if stop = server_Close s0 then CallWsClose else CallWsShutdown"
  have "snd stop = map StopBegin [?ws, CallRestClose]"
    using assms(1) by (auto simp: server_Close_def server_Shutdown_def)
  then have "list_all2 (stop_ok (fst stop) ret) [?ws, CallRestClose] pcs"
    using stop.run_inv [OF stop.init_inv] assms(2) by metis
  moreover have "\<forall>pc \<in> set pcs. pc = StopDone" using assms(3) by (simp add: stop_returned_def list_all_iff)
  ultimately show ?thesis by (auto simp: list_all2_Cons1 stop_ok_def stop_nil_def split: if_splits)
qed

theorem stop_waits_for_both_witness:
  "\<exists>pcs. run_events (stop_step (fst (server_Shutdown (server_zero (demo_options [] False)))) (\<lambda>c. c \<noteq> CallWsClose)) [0, 1, 1, 0]
      (snd (server_Shutdown (server_zero (demo_options [] False)))) = Some pcs \<and>
    (sv_rest (fst (server_Shutdown (server_zero (demo_options [] False)))) \<noteq> None \<longrightarrow> (\<lambda>c. c \<noteq> CallWsClose) CallRestClose)"
proof -
  have "run_events (stop_step (fst (server_Shutdown (server_zero (demo_options [] False)))) (\<lambda>c. c \<noteq> CallWsClose)) [0, 1, 1, 0]
      (snd (server_Shutdown (server_zero (demo_options [] False)))) = Some [StopDone, StopDone]" by code_simp
  then show ?thesis
    using stop_waits_for_both [of "server_Shutdown (server_zero (demo_options [] False))" "server_zero (demo_options [] False)"
      "\<lambda>c. c \<noteq> CallWsClose" "[0, 1, 1, 0]" "[StopDone, StopDone]"] by (auto simp: stop_returned_def)
qed

end
