(* ===== verification/JsonPrint.thy ===== *)
theory JsonPrint
  imports OmapProps
begin

text \<open>
  The parser of \<open>JsonDecode\<close> reads every compact text back as the value it was printed from.
\<close>

section \<open>Parsing what was printed\<close>

text \<open>The nesting of arrays and objects, and the values whose strings are valid UTF-8.\<close>

fun json_depth :: "json \<Rightarrow> nat" where
  "json_depth (JArr js) = Suc (foldr max (map json_depth js) 0)"
| "json_depth (JObj ms) = Suc (foldr max (map (\<lambda>(k, j). json_depth j) ms) 0)"
| "json_depth _ = 0"

fun json_utf8 :: "json \<Rightarrow> bool" where
  "json_utf8 (JStr s) = valid_utf8 s"
| "json_utf8 (JArr js) = list_all json_utf8 js"
| "json_utf8 (JObj ms) = list_all (\<lambda>(k, j). valid_utf8 k \<and> json_utf8 j) ms"
| "json_utf8 _ = True"

lemma depth_le: "foldr max (map f xs) (0::nat) \<le> n \<longleftrightarrow> list_all (\<lambda>x. f x \<le> n) xs"
  by (induction xs) auto

definition after_value :: "json \<Rightarrow> frame list \<Rightarrow> bytes \<Rightarrow> (json \<times> bytes) option" where
  "after_value j fs r = (case fs of
       [] \<Rightarrow> Some (j, r)
     | FArr js # fs' \<Rightarrow> parse_value r PNext (FArr (j # js) # fs')
     | FObj ms k # fs' \<Rightarrow> parse_value r PNext (FObj ((k, j) # ms) k # fs'))"

lemma parse_token:
  assumes "next_tok s = Some (tk, r)" "p_step tk m fs0 = p_value j fs"
  shows "parse_value s m fs0 = after_value j fs r"
proof -
  have "(case p_value j fs of None \<Rightarrow> None | Some (PDone x, fs') \<Rightarrow> Some (x, r) | Some (m', fs') \<Rightarrow> parse_value r m' fs') =
      after_value j fs r"
    by (cases fs; cases "hd fs") (simp_all add: after_value_def)
  moreover have "(case z of None \<Rightarrow> None | Some (m', fs') \<Rightarrow> (case m' of PDone x \<Rightarrow> Some (x, r) | _ \<Rightarrow> parse_value r m' fs')) =
      (case z of None \<Rightarrow> None | Some (PDone x, fs') \<Rightarrow> Some (x, r) | Some (m', fs') \<Rightarrow> parse_value r m' fs')" for z
    by (simp split: option.split pmode.split prod.split)
  ultimately show ?thesis using assms by (simp add: parse_value.simps [of s])
qed

lemma parse_skip:
  assumes "next_tok s = Some (tk, r)" "p_step tk m fs = Some (m', fs')" "\<forall>j. m' \<noteq> PDone j"
  shows "parse_value s m fs = parse_value r m' fs'"
  using assms by (cases m') (auto simp: parse_value.simps [of s])

definition parses :: "json \<Rightarrow> bool" where
  "parses j \<longleftrightarrow> (\<forall>m fs r. m \<in> {PValue, PArrFirst} \<longrightarrow> number_stops r \<or> (\<forall>n. j \<noteq> JNum n) \<longrightarrow> length fs + json_depth j \<le> maxNestingDepth \<longrightarrow>
     parse_value (json_print j @ r) m fs = after_value j fs r)"

lemma parsesD: "parses j \<Longrightarrow> m \<in> {PValue, PArrFirst} \<Longrightarrow> number_stops r \<Longrightarrow> length fs + json_depth j \<le> maxNestingDepth \<Longrightarrow>
    parse_value (json_print j @ r) m fs = after_value j fs r"
  unfolding parses_def by blast

lemma parse_close:
  "parse_value (CHR '']'' # r) PNext (FArr js # fs) = after_value (JArr (rev js)) fs r"
  "parse_value (CHR '']'' # r) PArrFirst (FArr js # fs) = after_value (JArr (rev js)) fs r"
  "parse_value (CHR ''}'' # r) PNext (FObj ms k # fs) = after_value (JObj (rev ms)) fs r"
  "parse_value (CHR ''}'' # r) PObjFirst (FObj ms k # fs) = after_value (JObj (rev ms)) fs r"
proof -
  note t = parse_token [OF next_tok_print(4)] and b = parse_token [OF next_tok_print(2)]
  show "parse_value (CHR '']'' # r) PNext (FArr js # fs) = after_value (JArr (rev js)) fs r"
    "parse_value (CHR '']'' # r) PArrFirst (FArr js # fs) = after_value (JArr (rev js)) fs r"
    by (rule t, simp)+
  show "parse_value (CHR ''}'' # r) PNext (FObj ms k # fs) = after_value (JObj (rev ms)) fs r"
    "parse_value (CHR ''}'' # r) PObjFirst (FObj ms k # fs) = after_value (JObj (rev ms)) fs r"
    by (rule b, simp)+
qed

lemma parse_elements:
  assumes "list_all parses js" "js \<noteq> []" "m \<in> {PValue, PArrFirst}"
    "list_all (\<lambda>j. Suc (length fs + json_depth j) \<le> maxNestingDepth) js"
  shows "parse_value (join_with '','' (map json_print js) @ CHR '']'' # r) m (FArr acc # fs) = after_value (JArr (rev acc @ js)) fs r"
  using assms
proof (induction js arbitrary: m acc rule: induct_list012)
  case (2 j)
  have "parse_value (json_print j @ CHR '']'' # r) m (FArr acc # fs) = after_value j (FArr acc # fs) (CHR '']'' # r)"
    using 2 by (intro parsesD) simp_all
  then show ?case by (simp add: after_value_def [of j] parse_close)
next
  case (3 j j' js)
  let ?t = "join_with '','' (map json_print (j' # js)) @ CHR '']'' # r"
  have "parse_value (json_print j @ CHR '','' # ?t) m (FArr acc # fs) = after_value j (FArr acc # fs) (CHR '','' # ?t)"
    using "3.prems" by (intro parsesD) simp_all
  also have "\<dots> = parse_value ?t PValue (FArr (j # acc) # fs)"
    by (simp only: after_value_def list.case frame.case) (rule parse_skip [where tk = TComma], simp_all add: next_tok_print)
  also have "\<dots> = after_value (JArr (rev (j # acc) @ j' # js)) fs r"
    using "3.prems" by (intro "3.IH"(2)) simp_all
  finally show ?case by simp
qed simp

lemma parse_key:
  assumes "valid_utf8 k" "m \<in> {PObjFirst, PKey}"
  shows "parse_value (json_string k @ CHR '':'' # r) m (FObj ms k0 # fs) = parse_value r PValue (FObj ms k # fs)"
proof -
  have "parse_value (json_string k @ CHR '':'' # r) m (FObj ms k0 # fs) = parse_value (CHR '':'' # r) PColon (FObj ms k # fs)"
    using assms by (intro parse_skip) (auto simp: next_tok_print unquote_escape)
  also have "\<dots> = parse_value r PValue (FObj ms k # fs)" by (rule parse_skip) (simp_all add: next_tok_print)
  finally show ?thesis .
qed

lemma parse_members:
  assumes "list_all (\<lambda>x. parses (snd x) \<and> valid_utf8 (fst x)) ms" "ms \<noteq> []" "m \<in> {PObjFirst, PKey}"
    "list_all (\<lambda>x. Suc (length fs + json_depth (snd x)) \<le> maxNestingDepth) ms"
  shows "parse_value (join_with '','' (map member_print ms) @ CHR ''}'' # r) m (FObj acc k0 # fs) = after_value (JObj (rev acc @ ms)) fs r"
  using assms
proof (induction ms arbitrary: m acc k0 rule: induct_list012)
  case (2 x)
  have "parse_value (json_string (fst x) @ CHR '':'' # json_print (snd x) @ CHR ''}'' # r) m (FObj acc k0 # fs) =
      parse_value (json_print (snd x) @ CHR ''}'' # r) PValue (FObj acc (fst x) # fs)"
    using 2 by (intro parse_key) simp_all
  also have "\<dots> = after_value (snd x) (FObj acc (fst x) # fs) (CHR ''}'' # r)"
    using 2 by (intro parsesD) simp_all
  finally show ?case by (simp add: member_print_def after_value_def [of "snd x"] parse_close)
next
  case (3 x x' ms)
  let ?t = "join_with '','' (map member_print (x' # ms)) @ CHR ''}'' # r"
  have "parse_value (json_string (fst x) @ CHR '':'' # json_print (snd x) @ CHR '','' # ?t) m (FObj acc k0 # fs) =
      parse_value (json_print (snd x) @ CHR '','' # ?t) PValue (FObj acc (fst x) # fs)"
    using "3.prems" by (intro parse_key) simp_all
  also have "\<dots> = after_value (snd x) (FObj acc (fst x) # fs) (CHR '','' # ?t)"
    using "3.prems" by (intro parsesD) simp_all
  also have "\<dots> = parse_value ?t PKey (FObj (x # acc) (fst x) # fs)"
    by (simp only: after_value_def list.case frame.case prod.collapse) (rule parse_skip [where tk = TComma], simp_all add: next_tok_print)
  also have "\<dots> = after_value (JObj (rev (x # acc) @ x' # ms)) fs r"
    using "3.prems" by (intro "3.IH"(2)) simp_all
  moreover have "join_with '','' (map member_print (x # x' # ms)) @ CHR ''}'' # r =
      json_string (fst x) @ CHR '':'' # json_print (snd x) @ CHR '','' # ?t"
    by (simp add: member_print_def [of x])
  ultimately show ?case by simp
qed simp

lemma json_print_obj: "json_print (JObj ms) = CHR ''{'' # join_with '','' (map member_print ms) @ ''}''"
proof -
  have "(\<lambda>(k, j). json_string k @ '':'' @ json_print j) = member_print"
    by (auto simp: fun_eq_iff member_print_def)
  then show ?thesis by simp
qed

lemma json_parses: "json_wf j \<Longrightarrow> json_utf8 j \<Longrightarrow> parses j"
proof (induction j)
  case (JArr js)
  then have a: "list_all parses js" by (auto simp: list_all_iff)
  show ?case unfolding parses_def
  proof (intro allI impI)
    fix m r and fs :: "frame list"
    assume m: "m \<in> {PValue, PArrFirst}" and d: "length fs + json_depth (JArr js) \<le> maxNestingDepth"
    have o: "parse_value (CHR ''['' # t) m fs = parse_value t PArrFirst (FArr [] # fs)" for t
      using m d by (intro parse_skip) (auto simp: next_tok_print p_open_def)
    have "list_all (\<lambda>j. Suc (length fs + json_depth j) \<le> maxNestingDepth) js"
      using d depth_le [of json_depth js "maxNestingDepth - Suc (length fs)"] by (auto simp: list_all_iff)
    then show "parse_value (json_print (JArr js) @ r) m fs = after_value (JArr js) fs r"
      using parse_elements [OF a, of PArrFirst fs r "[]"] by (cases "js = []") (simp_all add: o parse_close)
  qed
next
  case (JObj ms)
  then have a: "list_all (\<lambda>x. parses (snd x) \<and> valid_utf8 (fst x)) ms" by (fastforce simp: list_all_iff)
  show ?case unfolding parses_def
  proof (intro allI impI)
    fix m r and fs :: "frame list"
    assume m: "m \<in> {PValue, PArrFirst}" and d: "length fs + json_depth (JObj ms) \<le> maxNestingDepth"
    have o: "parse_value (CHR ''{'' # t) m fs = parse_value t PObjFirst (FObj [] [] # fs)" for t
      using m d by (intro parse_skip) (auto simp: next_tok_print p_open_def)
    have "list_all (\<lambda>x. Suc (length fs + json_depth (snd x)) \<le> maxNestingDepth) ms"
      using d depth_le [of "\<lambda>(k, j). json_depth j" ms "maxNestingDepth - Suc (length fs)"] by (fastforce simp: list_all_iff)
    then show "parse_value (json_print (JObj ms) @ r) m fs = after_value (JObj ms) fs r"
      using parse_members [OF a, of PObjFirst fs r "[]" "[]"] unfolding json_print_obj
      by (cases "ms = []") (simp_all add: o parse_close)
  qed
next
  case (JNum n)
  then show ?case unfolding parses_def
    by (intro allI impI) (rule parse_token, rule next_tok_number, auto)
next
  case (JStr s)
  then show ?case unfolding parses_def by (auto intro!: parse_token simp: next_tok_print unquote_escape)
next
  case (JBool b)
  then show ?case unfolding parses_def by (cases b) (auto intro!: parse_token simp: next_tok_print [simplified])
next
  case JNull
  then show ?case unfolding parses_def by (auto intro!: parse_token simp: next_tok_print [simplified])
qed

lemma parse_print_then:
  assumes "json_wf j" "json_utf8 j" "json_depth j \<le> maxNestingDepth" "\<forall>n. j \<noteq> JNum n"
  shows "parse_value (json_print j @ r) PValue [] = Some (j, r)"
proof -
  have "parse_value (json_print j @ r) PValue [] = after_value j [] r"
    using json_parses [OF assms(1,2)] assms(3,4) unfolding parses_def by simp
  then show ?thesis by (simp add: after_value_def)
qed

lemma parse_print:
  assumes "json_wf j" "json_utf8 j" "json_depth j \<le> maxNestingDepth" "number_stops r"
  shows "parse_value (json_print j @ r) PValue [] = Some (j, r)"
  using parsesD [OF json_parses [OF assms(1,2)], of PValue r "[]"] assms(3,4) by (simp add: after_value_def)

lemma unmarshal_print:
  assumes "json_wf j" "json_utf8 j" "json_depth j \<le> maxNestingDepth"
  shows "json_unmarshal (json_print j) = Some j"
  using parse_print [OF assms, of "[]"] by (simp add: json_unmarshal_def number_stops_def skip_ws_def)

end
