(* ===== verification/RestSpec.thy ===== *)
theory RestSpec
  imports JsonPrint Rest
begin

text \<open>
  The description of the interface that the REST server hands out: that of the file, with its
  list of servers replaced.
\<close>

section \<open>Compact texts stay as they are\<close>

text \<open>A byte that \<open>json.Marshal\<close> copies, inside a string or outside of one.\<close>

definition plain_byte :: "char \<Rightarrow> bool" where
  "plain_byte c \<longleftrightarrow> c \<noteq> CHR ''<'' \<and> c \<noteq> CHR ''>'' \<and> c \<noteq> CHR ''&'' \<and> c \<noteq> CHR 0xE2 \<and> c \<noteq> dquote \<and> c \<noteq> backslash"

lemma compact_plain: "list_all (\<lambda>c. plain_byte c \<and> (quoted \<or> \<not> is_space c)) s \<Longrightarrow> compact_text quoted (s @ r) = s @ compact_text quoted r"
  by (induction s) (auto simp: plain_byte_def)

lemma hex_digit_byte: "n < 16 \<Longrightarrow> byte (hex_digit n) = (if n < 10 then 0x30 + n else 0x57 + n)"
  by (simp add: hex_digit_def)

lemma hex_digit_plain: "n < 16 \<Longrightarrow> plain_byte (hex_digit n)"
  using hex_digit_byte [of n] by (auto simp: plain_byte_def split: if_splits)

lemma compact_escape_u: "compact_text True (escape_u n @ r) = escape_u n @ compact_text True r"
proof -
  have "list_all (\<lambda>c. plain_byte c \<and> (True \<or> \<not> is_space c)) [hex_digit (n div 0x1000 mod 16), hex_digit (n div 0x100 mod 16),
      hex_digit (n div 16 mod 16), hex_digit (n mod 16)]"
    by (simp add: hex_digit_plain)
  from compact_plain [OF this] show ?thesis by (simp add: escape_u_def)
qed

lemma compact_escape_ascii: "byte c < 0x80 \<Longrightarrow> compact_text True (escape_ascii c @ r) = escape_ascii c @ compact_text True r"
  by (auto simp: escape_ascii_def compact_escape_u)

lemma cont_plain: "cont_byte (byte c) \<Longrightarrow> plain_byte c"
  by (auto simp: plain_byte_def cont_byte_def)

lemma compact_rune:
  assumes "rune_len s \<noteq> 0" "take (rune_len s) s \<noteq> [CHR 0xE2, CHR 0x80, CHR 0xA8]" "take (rune_len s) s \<noteq> [CHR 0xE2, CHR 0x80, CHR 0xA9]"
  shows "compact_text True (take (rune_len s) s @ r) = take (rune_len s) s @ compact_text True r"
proof (cases s rule: rune_len_cases)
  case (two c d ds)
  then have "plain_byte d" "plain_byte c" using cont_plain [of d] by (auto simp: rune2_def plain_byte_def [of c])
  then show ?thesis using compact_plain [of True "[c, d]"] two by simp
next
  case (three c d e ds)
  then have p: "plain_byte d" "plain_byte e" by (auto simp: rune3_def cont_plain)
  have "compact_text True ([d, e] @ r) = [d, e] @ compact_text True r" by (rule compact_plain) (simp add: p)
  moreover have "c \<noteq> CHR ''<'' \<and> c \<noteq> CHR ''>'' \<and> c \<noteq> CHR ''&'' \<and> c \<noteq> dquote \<and> c \<noteq> backslash"
    using three by (auto simp: rune3_def)
  ultimately show ?thesis using assms(2,3) three by auto
next
  case (four c d e f ds)
  then have "list_all (\<lambda>c. plain_byte c \<and> (True \<or> \<not> is_space c)) [c, d, e, f]"
    using cont_plain [of d] cont_plain [of e] cont_plain [of f] by (auto simp: rune4_def plain_byte_def [of c])
  then show ?thesis using compact_plain [of True "[c, d, e, f]"] four by simp
qed (use assms(1) in simp)

lemma compact_escape: "compact_text True (json_escape s @ dquote # r) = json_escape s @ dquote # compact_text False r"
proof (induction s rule: json_escape.induct)
  case (2 c cs)
  show ?case
  proof (cases "byte c < 0x80")
    case True
    with 2 show ?thesis by (simp add: compact_escape_ascii)
  next
    case False
    show ?thesis
    proof (cases "rune_len (c # cs) = 0")
      case True
      with 2 False show ?thesis by (simp add: Let_def compact_escape_u)
    next
      case rune: False
      let ?r = "take (rune_len (c # cs)) (c # cs)"
      have ih: "compact_text True (json_escape (drop (rune_len (c # cs) - 1) cs) @ dquote # r) =
          json_escape (drop (rune_len (c # cs) - 1) cs) @ dquote # compact_text False r"
        by (rule "2.IH"(3) [OF False refl refl rune])
      have "json_escape (c # cs) =
          (if ?r = [CHR 0xE2, CHR 0x80, CHR 0xA8] then escape_u 0x2028
           else if ?r = [CHR 0xE2, CHR 0x80, CHR 0xA9] then escape_u 0x2029
           else ?r) @ json_escape (drop (rune_len (c # cs) - 1) cs)"
        using False rune by (simp only: json_escape.simps Let_def if_False)
      then show ?thesis
        using ih compact_rune [OF rune] by (simp only: append_assoc compact_escape_u split: if_split) simp
    qed
  qed
qed simp

lemma compact_string: "compact_text False (json_string s @ r) = json_string s @ compact_text False r"
  by (simp add: json_string_def compact_escape)

lemma number_chars: "scan_number s = Some (d, x) \<Longrightarrow> list_all (\<lambda>c. is_digit c \<or> c \<in> set ''+-.eE'') d"
proof -
  have digits: "list_all is_digit d" if "scan_digits s = Some (d, x)" for s d x
  proof -
    have "d = takeWhile is_digit s" using that by (simp add: scan_digits_def split: list.splits)
    then show ?thesis by (auto simp: list_all_iff dest: set_takeWhileD)
  qed
  have i: "list_all is_digit d" if "scan_int s = Some (d, x)" for s d x
    using that digits by (auto simp: scan_int_def is_digit_def split: list.splits if_splits)
  have f: "list_all (\<lambda>c. is_digit c \<or> c = CHR ''.'') d" if "scan_frac s = Some (d, x)" for s d x
    using that digits by (fastforce simp: scan_frac_def list_all_iff split: list.splits if_splits)
  have e: "list_all (\<lambda>c. is_digit c \<or> c \<in> set ''+-eE'') d" if "scan_exp s = Some (d, x)" for s d x
    using that digits by (fastforce simp: scan_exp_def list_all_iff split: list.splits if_splits)
  assume n: "scan_number s = Some (d, x)"
  obtain sg s1 where s: "(case s of c # cs \<Rightarrow> if c = CHR ''-'' then ([c], cs) else ([], s) | [] \<Rightarrow> ([], s)) = (sg, s1)" by force
  then have sg: "set sg \<subseteq> {CHR ''-''}" by (auto split: list.splits if_splits)
  obtain a s2 b s3 c s4 where p: "scan_int s1 = Some (a, s2)" "scan_frac s2 = Some (b, s3)" "scan_exp s3 = Some (c, s4)" "d = sg @ a @ b @ c"
    using n s by (auto simp: scan_number_def split: option.splits)
  show ?thesis using i [OF p(1)] f [OF p(2)] e [OF p(3)] sg unfolding p(4) by (auto simp: list_all_iff)
qed

lemma number_char_plain: "is_digit c \<or> c \<in> set ''+-.eE'' \<Longrightarrow> plain_byte c \<and> \<not> is_space c"
  by (auto simp: plain_byte_def is_digit_def is_space_def)

lemma compact_join:
  assumes "\<And>x r. x \<in> set xs \<Longrightarrow> compact_text False (f x @ r) = f x @ compact_text False r"
  shows "compact_text False (join_with '','' (map f xs) @ r) = join_with '','' (map f xs) @ compact_text False r"
  using assms by (induction xs rule: induct_list012) (simp_all add: is_space_def)

lemma compact_print: "json_wf j \<Longrightarrow> compact_text False (json_print j @ r) = json_print j @ compact_text False r"
proof (induction j arbitrary: r)
  case (JNum n)
  then have "list_all (\<lambda>c. plain_byte c \<and> (False \<or> \<not> is_space c)) n"
    using number_chars [of n n "[]"] number_char_plain by (auto simp: list_all_iff)
  then show ?case using compact_plain by simp
next
  case (JArr js)
  have "compact_text False (join_with '','' (map json_print js) @ r) = join_with '','' (map json_print js) @ compact_text False r" for r
    by (rule compact_join) (use JArr in \<open>auto simp: list_all_iff\<close>)
  then show ?case by (simp add: is_space_def)
next
  case (JObj ms)
  have "compact_text False (member_print m @ r) = member_print m @ compact_text False r" if "m \<in> set ms" for m r
    using JObj that by (fastforce simp: member_print_def compact_string is_space_def list_all_iff)
  then have "compact_text False (join_with '','' (map member_print ms) @ r) = join_with '','' (map member_print ms) @ compact_text False r" for r
    by (rule compact_join)
  then show ?case unfolding json_print_obj by (simp add: is_space_def)
qed (simp_all add: compact_string is_space_def)


section \<open>The list of servers\<close>

text \<open>The value \<open>servers\<close> gets, and an object with a member set as \<open>OrderedMap.Set\<close> does.\<close>

definition servers_value :: "bytes \<Rightarrow> bytes \<Rightarrow> json" where
  "servers_value server description =
     JArr [JObj ((if description = [] then [] else [(''description'', JStr description)]) @ [(''url'', JStr server)])]"

fun members_set :: "bytes \<Rightarrow> json \<Rightarrow> (bytes \<times> json) list \<Rightarrow> (bytes \<times> json) list" where
  "members_set k v [] = [(k, v)]"
| "members_set k v (m # ms) = (if fst m = k then (k, v) # ms else m # members_set k v ms)"

lemma server_spec_print: "server_spec server description = json_print (servers_value server description)"
proof -
  have "json_string ''url'' = dquote # ''url'' @ [dquote]" "json_string ''description'' = dquote # ''description'' @ [dquote]"
    by code_simp+
  then show ?thesis by (simp add: server_spec_def servers_value_def)
qed

lemma om_set_entries: "om_set k (json_print v) (map entry_of ms) = map entry_of (members_set k v ms)"
  by (induction ms) auto

lemma marshal_entries: "OrderedMap_MarshalJSON (Some (map entry_of ms)) = json_print (JObj ms)"
proof -
  have c: "om_entry_text \<circ> entry_of = member_print" by (simp add: fun_eq_iff om_entry_text_def member_print_def)
  have "OrderedMap_MarshalJSON (Some es) = CHR ''{'' # join_with '','' (map om_entry_text es) @ ''}''" for es
    by (cases es) (simp_all add: OrderedMap_MarshalJSON_def)
  then show ?thesis by (simp only: json_print_obj map_map c)
qed

lemma members_set_ok:
  assumes "json_wf (JObj ms)" "json_utf8 (JObj ms)" "json_depth (JObj ms) \<le> n" "3 \<le> n" "valid_utf8 server" "valid_utf8 description"
  shows "json_wf (JObj (members_set ''servers'' (servers_value server description) ms))"
    "json_utf8 (JObj (members_set ''servers'' (servers_value server description) ms))"
    "json_depth (JObj (members_set ''servers'' (servers_value server description) ms)) \<le> n"
proof -
  let ?v = "servers_value server description"
  have v: "json_wf ?v" "json_utf8 ?v" "json_depth ?v \<le> 2" using assms(5,6) by (simp_all add: servers_value_def)
  have s: "set (members_set k v ms) \<subseteq> insert (k, v) (set ms)" for k v
    by (induction ms) auto
  show "json_wf (JObj (members_set ''servers'' ?v ms))"
    using assms(1) v(1) s [of "''servers''" ?v] by (fastforce simp: list_all_iff)
  have "valid_utf8 ''servers''" by code_simp
  then show "json_utf8 (JObj (members_set ''servers'' ?v ms))"
    using assms(2) v(2) s [of "''servers''" ?v] by (fastforce simp: list_all_iff)
  have d: "json_depth (JObj xs) \<le> n \<longleftrightarrow> (\<forall>x \<in> set xs. json_depth (snd x) \<le> n - 1)" for xs
    using assms(4) depth_le [of "\<lambda>(k, j). json_depth j" xs "n - 1"] by (auto simp: list_all_iff case_prod_beta)
  show "json_depth (JObj (members_set ''servers'' ?v ms)) \<le> n"
    using assms(3,4) v(3) s [of "''servers''" ?v] unfolding d by fastforce
qed



end
