(* ===== verification/Messages.thy ===== *)
theory Messages
  imports RestSpec WsProps
begin

text \<open>
  The messages on the wire: what a client writes as JSON is what the handler gets, over the
  websocket and over REST, and the result of the handler is what the client reads.
\<close>

section \<open>Calls\<close>

definition call_json :: "call_message \<Rightarrow> json" where
  "call_json c = JObj [(''call'', JStr (cm_call c)), (''params'', JArr (map JStr (cm_params c)))]"

definition call_text :: "call_message \<Rightarrow> bytes" where
  "call_text c = json_print (call_json c)"

definition call_utf8 :: "call_message \<Rightarrow> bool" where
  "call_utf8 c \<longleftrightarrow> valid_utf8 (cm_call c) \<and> list_all valid_utf8 (cm_params c)"

lemma decode_strings_map: "decode_strings (map JStr ss) = Some ss"
  by (induction ss) simp_all

lemma decode_call_json: "decode_call (call_json c) = Some c"
proof -
  have "fold_key ''call'' = ''call''" "fold_key ''params'' = ''params''" by code_simp+
  then show ?thesis by (simp add: call_json_def call_member_def decode_strings_map)
qed

lemma call_json_ok:
  assumes "call_utf8 c"
  shows "json_wf (call_json c)" "json_utf8 (call_json c)" "json_depth (call_json c) \<le> maxNestingDepth"
proof -
  have "valid_utf8 ''call''" "valid_utf8 ''params''" by code_simp+
  then show "json_wf (call_json c)" "json_utf8 (call_json c)"
    using assms by (simp_all add: call_json_def call_utf8_def list_all_iff)
  have "foldr max (map json_depth (map JStr ss)) 0 = 0" for ss by (induction ss) simp_all
  then show "json_depth (call_json c) \<le> maxNestingDepth"
    by (simp add: call_json_def maxNestingDepth_def del: map_map)
qed

lemma parse_call: "call_utf8 c \<Longrightarrow> parse_value (call_text c @ rest) PValue [] = Some (call_json c, rest)"
  unfolding call_text_def by (rule parse_print_then [OF call_json_ok]) (simp_all add: call_json_def)

lemma body_call_text: "call_utf8 c \<Longrightarrow> body_call (call_text c @ rest) = Some c"
  by (simp add: body_call_def json_decode_def parse_call decode_call_json)

lemma unmarshal_call_text: "call_utf8 c \<Longrightarrow> unmarshal_call (call_text c @ rest) = (if skip_ws rest = [] then Some c else None)"
  by (simp add: unmarshal_call_def json_unmarshal_def parse_call decode_call_json)

text \<open>
  Property C7. A client that writes a call as JSON has that call started: the request handler of a
  REST server begins with exactly this call, in however many pieces the body arrives and whatever
  follows the message, and a websocket connection asks its handler for exactly this call. Only
  the websocket minds what follows: anything but space is a protocol error.
\<close>

theorem call_reaches_the_handler:
  assumes "call_utf8 c"
    and "concat (rq_body r) = call_text c @ rest"
    and "wx_main x = MCall" "wx_init x = (call_text c @ rest) # bs"
  shows "rest_handle server r RouteNew key = NewBegin c \<and>
    main_call x = Some (if skip_ws rest = [] then x\<lparr>wx_init := bs, wx_main := MGet c\<rparr>
      else serve_returns False \<lparr>Value = None, Reason = Some ErrCancelProtocolError\<rparr> (x\<lparr>wx_init := bs\<rparr>))"
  using assms by (simp add: rest_handle_def main_call_def body_call_text unmarshal_call_text)

definition call_request :: "bytes list \<Rightarrow> rest_request" where
  "call_request body = \<lparr>rq_method = ''POST'', rq_path = ''/new'', rq_upgrade = False, rq_body = body, rq_fails = False\<rparr>"

definition demo_rest_server :: rest_server where
  "demo_rest_server = rest_NewServer ''/'' \<lparr>ro_Timeout = 0, ro_DisableSwaggerUI = False,
     ro_OpenAPIServerDescription = [], ro_Session = \<lparr>so_MaxLines = 0\<rparr>\<rparr>"

theorem call_reaches_the_handler_witness:
  \<open>rest_handle demo_rest_server (call_request [''{"call":"echo","pa'', ''rams":["a"]}  x'']) RouteNew [] =
     NewBegin \<lparr>cm_call = ''echo'', cm_params = [''a'']\<rparr> \<and>
   (case ws_run [WsMsg (WsBinary ''{"call":"echo","params":["a"]}  x''), WsReader, WsCall] of None \<Rightarrow> False
    | Some x \<Rightarrow> wx_result x = Some \<lparr>Value = None, Reason = Some ErrCancelProtocolError\<rparr>)\<close>
proof -
  let ?c = "\<lparr>cm_call = ''echo'', cm_params = [''a'']\<rparr>"
  let ?x = "the (ws_run [WsMsg (WsBinary ''{\"call\":\"echo\",\"params\":[\"a\"]}  x''), WsReader])"
  have c: "call_utf8 ?c" "skip_ws ''  x'' \<noteq> []" by code_simp+
  have t: \<open>concat (rq_body (call_request [''{"call":"echo","pa'', ''rams":["a"]}  x''])) = call_text ?c @ ''  x''\<close>
    by code_simp
  have x: "wx_main ?x = MCall" "wx_init ?x = (call_text ?c @ ''  x'') # []"
    by code_simp+
  have r: "ws_run [WsMsg (WsBinary ''{\"call\":\"echo\",\"params\":[\"a\"]}  x''), WsReader, WsCall] = main_call ?x"
    by code_simp
  show ?thesis unfolding r
    using call_reaches_the_handler [OF c(1) t x, of demo_rest_server "[]"] c(2) by (simp add: serve_returns_def)
qed

section \<open>Results\<close>

text \<open>
  What a result carries: the text of the error, or the JSON value that \<open>json.Marshal\<close> wrote, or
  nothing where that fails.
\<close>

definition carries :: "('v \<Rightarrow> marshalled) \<Rightarrow> 'v result \<Rightarrow> json option \<Rightarrow> bool" where
  "carries mj res oj =
     (case Reason res of
        Some e \<Rightarrow> valid_utf8 (error_text e) \<and> oj = Some (JStr (error_text e))
      | None \<Rightarrow>
          (case (marshal_any mj (Value res), oj) of
             (MBytes b, Some j) \<Rightarrow> b = json_print j \<and> json_wf j \<and> json_utf8 j \<and> Suc (json_depth j) \<le> maxNestingDepth
           | (MBytes b, None) \<Rightarrow> False
           | (_, oj) \<Rightarrow> oj = None))"

definition result_json :: "'v result option \<Rightarrow> json option \<Rightarrow> json" where
  "result_json r oj =
     (case r of
        None \<Rightarrow> JObj [(''status'', JStr ''pending'')]
      | Some res \<Rightarrow> JObj ((''status'', JStr (if Reason res = None then ''fulfilled'' else ''rejected'')) #
          (case oj of None \<Rightarrow> [] | Some j \<Rightarrow> [(if Reason res = None then ''value'' else ''reason'', j)])))"

lemma json_print_neq: "json_wf j \<Longrightarrow> json_print j \<noteq> []"
  using scan_number_app by (cases j) (auto simp: json_string_def)

lemma json_string_neq [simp]: "json_string s \<noteq> []"
  by (simp add: json_string_def)

lemma known_strings:
  "json_string ''status'' = dquote # ''status'' @ [dquote]" "json_string ''pending'' = dquote # ''pending'' @ [dquote]"
  "json_string ''fulfilled'' = dquote # ''fulfilled'' @ [dquote]" "json_string ''rejected'' = dquote # ''rejected'' @ [dquote]"
  "json_string ''value'' = dquote # ''value'' @ [dquote]" "json_string ''reason'' = dquote # ''reason'' @ [dquote]"
  by code_simp+

lemma result_text: "(\<And>res. r = Some res \<Longrightarrow> carries mj res oj) \<Longrightarrow> Result_MarshalJSON mj r = json_print (result_json r oj)"
  by (cases r) (auto simp: Result_MarshalJSON_def result_json_def result_content_def carries_def known_strings
      json_print_neq Let_def split: option.splits marshalled.splits)

lemma result_json_ok:
  assumes "\<And>res. r = Some res \<Longrightarrow> carries mj res oj"
  shows "json_wf (result_json r oj) \<and> json_utf8 (result_json r oj) \<and> json_depth (result_json r oj) \<le> maxNestingDepth"
proof -
  have u: "list_all valid_utf8 [''status'', ''pending'', ''fulfilled'', ''rejected'', ''value'', ''reason'']" by code_simp
  have n: "2 \<le> maxNestingDepth" by (simp add: maxNestingDepth_def)
  show ?thesis
  proof (cases r)
    case (Some res)
    then show ?thesis using assms [OF Some] u n
      by (auto simp: result_json_def carries_def split: option.splits marshalled.splits)
  qed (use u n in \<open>simp add: result_json_def\<close>)
qed

text \<open>
  Property C8. What a client reads of a result is what the process returned: the encoded text
  parses, to the object with the status and the value, or the text of the error. A value that
  cannot be marshalled, or whose marshaller panics, is left out and the text is still an object.
  \<open>json.Marshal\<close>, which calls this method and compacts what it returns, hands it on unchanged.
\<close>

theorem result_reaches_the_client:
  assumes "\<And>res. r = Some res \<Longrightarrow> carries mj res oj"
  shows "json_unmarshal (Result_MarshalJSON mj r) = Some (result_json r oj) \<and>
    json_compact (Result_MarshalJSON mj r) = Some (Result_MarshalJSON mj r)"
proof -
  note ok = result_json_ok [OF assms]
  then have "json_unmarshal (json_print (result_json r oj)) = Some (result_json r oj)" by (intro unmarshal_print) simp_all
  then show ?thesis using compact_print [of "result_json r oj" "[]"] ok
    by (simp add: result_text [OF assms] json_compact_def)
qed

theorem result_reaches_the_client_witness:
  \<open>json_unmarshal (Result_MarshalJSON (\<lambda>n :: nat. if n = 0 then MPanic else MBytes ''[1,{"a":null}]'')
       (Some \<lparr>Value = Some 1, Reason = None\<rparr>)) =
     Some (JObj [(''status'', JStr ''fulfilled''), (''value'', JArr [JNum ''1'', JObj [(''a'', JNull)]])]) \<and>
   json_unmarshal (Result_MarshalJSON (\<lambda>n :: nat. if n = 0 then MPanic else MBytes ''[1,{"a":null}]'')
       (Some \<lparr>Value = Some 0, Reason = None\<rparr>)) = Some (JObj [(''status'', JStr ''fulfilled'')])\<close>
proof -
  let ?mj = "\<lambda>n :: nat. if n = 0 then MPanic else MBytes ''[1,{\"a\":null}]''"
  let ?j = "JArr [JNum ''1'', JObj [(''a'', JNull)]]"
  have "json_print ?j = ''[1,{\"a\":null}]''" "json_wf ?j" "json_utf8 ?j" by code_simp+
  then have "carries ?mj \<lparr>Value = Some 1, Reason = None\<rparr> (Some ?j)"
    by (simp add: carries_def marshal_any_def maxNestingDepth_def)
  moreover have "carries ?mj \<lparr>Value = Some 0, Reason = None\<rparr> None" by (simp add: carries_def marshal_any_def)
  ultimately show ?thesis
    using result_reaches_the_client [of "Some \<lparr>Value = Some 1, Reason = None\<rparr>" ?mj "Some ?j"]
      result_reaches_the_client [of "Some \<lparr>Value = Some 0, Reason = None\<rparr>" ?mj None]
    by (simp add: result_json_def)
qed

end
