(* ===== verification/Echo.thy ===== *)
theory Echo
  imports SessionProps Ws
begin

text \<open>
  The example process of \<open>cmd/exampleserver/main.go\<close>: a handler with the one process \<open>echo\<close>,
  which copies its input to its output, run by each of the two servers. \<open>io.Copy\<close> of the standard
  library is a small program counter, so that its reads and writes interleave with everything
  else that happens to a connection or a session.
\<close>

section \<open>io.Copy\<close>

text \<open>
  Neither end has a faster way to copy (the input is a \<open>*io.PipeReader\<close>, the output a \<open>WriterFunc\<close>
  or a \<open>*FiniteBuffer\<close>), so \<open>io.Copy\<close> is a loop over a buffer of 32 KiB: about to read, about to
  write what was read, or over with an error or none.
\<close>

datatype copy_pc = CopyRead | CopyWrite bytes | CopyDone "go_error option"

definition copyBufSize :: nat where
  "copyBufSize = 32 * 1024"

definition io_ErrShortWrite :: go_error where
  "io_ErrShortWrite = Sentinel ''io.ErrShortWrite'' ''short write''"

definition io_errInvalidWrite :: go_error where
  "io_errInvalidWrite = Sentinel ''io.errInvalidWrite'' ''invalid write result''"

text \<open>After a read: nothing is written for no bytes, and the end of the input is no error.\<close>

definition copy_read :: "read_result \<Rightarrow> copy_pc" where
  "copy_read r =
     (case r of
        ReadBlocks \<Rightarrow> CopyRead
      | ReadData d \<Rightarrow> if d = [] then CopyRead else CopyWrite d
      | ReadErr e \<Rightarrow> CopyDone (if e = io_EOF then None else Some e))"

text \<open>After a write of \<open>d\<close> with its results.\<close>

definition copy_wrote :: "bytes \<Rightarrow> nat \<times> go_error option \<Rightarrow> copy_pc" where
  "copy_wrote d res =
     (case res of
        (n, Some e) \<Rightarrow> CopyDone (Some e)
      | (n, None) \<Rightarrow>
          if length d < n then CopyDone (Some io_errInvalidWrite)
          else if n \<noteq> length d then CopyDone (Some io_ErrShortWrite) else CopyRead)"

lemma copy_wrote_all [simp]: "copy_wrote d (length d, None) = CopyRead"
  by (simp add: copy_wrote_def)

section \<open>The handler and the process\<close>

definition echo_Get :: "bytes \<Rightarrow> go_error option" where
  "echo_Get name = (if name \<noteq> ''echo'' then Some ErrHandlerUnknownProcess else None)"

text \<open>\<open>copy_err\<close> is the error of \<open>io.Copy\<close>, \<open>cause\<close> the cause of the context after it.\<close>

definition echo_Do :: "bytes list \<Rightarrow> go_error option \<Rightarrow> ctx \<Rightarrow> bytes list option \<times> go_error option" where
  "echo_Do args copy_err cause =
     (case copy_err of
        Some err \<Rightarrow> (None, Some (Errorf ''failed to copy: '' err []))
      | None \<Rightarrow> (Some args, cause))"

section \<open>Echo over a websocket\<close>

text \<open>
  The output that \<open>serve\<close> gives to a process, an \<open>io.Writer\<close> made from a function; \<open>err\<close> is what
  \<open>conn.WriteText\<close> answers.
\<close>

definition WriterFunc_Write :: "(bytes \<Rightarrow> nat \<times> go_error option) \<Rightarrow> bytes \<Rightarrow> nat \<times> go_error option" where
  "WriterFunc_Write f b = f b"

definition ws_output :: "go_error option \<Rightarrow> bytes \<Rightarrow> nat \<times> go_error option" where
  "ws_output err b =
     (case err of
        Some e \<Rightarrow> (0, Some (Errorf ''failed to write to connection: '' e []))
      | None \<Rightarrow> (length b, None))"

text \<open>A connection whose handler is the example's; \<open>ew_pc\<close> counts while the process runs.\<close>

record echo_ws =
  ew_pc :: copy_pc
  ew_x :: "bytes list ws_state"

text \<open>
  The handler answers, the process reads, writes (with the error of the connection, if any) and
  returns; every other event is one of the connection.
\<close>

datatype echo_event =
    EchoGet | EchoRead | EchoWrite "go_error option" | EchoReturn | EchoOther "bytes list ws_event"

fun handler_event :: "'v ws_event \<Rightarrow> bool" where
  "handler_event WsGetOk = True"
| "handler_event (WsGetErr e) = True"
| "handler_event (WsPanic p) = True"
| "handler_event (WsDoRead k) = True"
| "handler_event (WsDoWrite d ok) = True"
| "handler_event (WsDoReturn v e) = True"
| "handler_event _ = False"

fun echo_ws_step :: "(bytes list \<Rightarrow> marshalled) \<Rightarrow> echo_event \<Rightarrow> echo_ws \<Rightarrow> echo_ws option" where
  "echo_ws_step mj EchoGet y =
     (case wx_main (ew_x y) of
        MGet c \<Rightarrow>
          map_option (\<lambda>x. \<lparr>ew_pc = CopyRead, ew_x = x\<rparr>)
            (ws_step mj (case echo_Get (cm_call c) of None \<Rightarrow> WsGetOk | Some e \<Rightarrow> WsGetErr e) (ew_x y))
      | _ \<Rightarrow> None)"
| "echo_ws_step mj EchoRead y =
     (if ew_pc y = CopyRead then
        map_option (\<lambda>x. \<lparr>ew_pc = copy_read (fst (pipe_read copyBufSize (wx_pipe (ew_x y)))), ew_x = x\<rparr>)
          (ws_step mj (WsDoRead copyBufSize) (ew_x y))
      else None)"
| "echo_ws_step mj (EchoWrite err) y =
     (case ew_pc y of
        CopyWrite d \<Rightarrow>
          map_option (\<lambda>x. \<lparr>ew_pc = copy_wrote d (WriterFunc_Write (ws_output err) d), ew_x = x\<rparr>)
            (ws_step mj (WsDoWrite d (err = None)) (ew_x y))
      | _ \<Rightarrow> None)"
| "echo_ws_step mj EchoReturn y =
     (case (ew_pc y, wx_main (ew_x y)) of
        (CopyDone copy_err, MDo c) \<Rightarrow>
          (let (v, err) = echo_Do (cm_params c) copy_err (wx_ctx (ew_x y))
           in map_option (\<lambda>x. y\<lparr>ew_x := x\<rparr>) (ws_step mj (WsDoReturn v err) (ew_x y)))
      | _ \<Rightarrow> None)"
| "echo_ws_step mj (EchoOther e) y =
     (if handler_event e then None else map_option (\<lambda>x. y\<lparr>ew_x := x\<rparr>) (ws_step mj e (ew_x y)))"

definition echo_ws_start :: "echo_ws \<Rightarrow> bool" where
  "echo_ws_start y \<longleftrightarrow> ew_pc y = CopyRead \<and> ws_start (ew_x y)"

abbreviation echo_ws_reachable :: "(bytes list \<Rightarrow> marshalled) \<Rightarrow> echo_ws \<Rightarrow> bool" where
  "echo_ws_reachable mj \<equiv> reachable_in echo_ws_start (echo_ws_step mj)"

section \<open>Echo in a REST session\<close>

text \<open>
  A session whose handler is the example's. The last two fields are history: what the writes of
  requests offered and what the process read, and what it wrote.
\<close>

record ('rb, 'lb) echo_rest =
  er_pc :: copy_pc
  er_y :: "(bytes list, 'rb, 'lb) sess_sys"
  er_io :: "bytes \<times> bytes"
  er_out :: bytes

datatype echo_rest_event =
    ErGet | ErRead | ErWrite | ErReturn | ErOther "bytes list sess_event"

fun session_handler_event :: "'v sess_event \<Rightarrow> bool" where
  "session_handler_event EGetOk = True"
| "session_handler_event (EGetErr e) = True"
| "session_handler_event (EPanic r) = True"
| "session_handler_event (EDoRead k) = True"
| "session_handler_event (EDoWrite d) = True"
| "session_handler_event (EDoReturn v e) = True"
| "session_handler_event _ = False"

text \<open>The process calls the pipe and the buffer of its session, and gets what they answer.\<close>

fun echo_rest_step :: "('rb, 'lb) buf_ops \<Rightarrow> echo_rest_event \<Rightarrow> ('rb, 'lb) echo_rest \<Rightarrow> ('rb, 'lb) echo_rest option" where
  "echo_rest_step ops ErGet z =
     map_option (\<lambda>y. z\<lparr>er_pc := CopyRead, er_y := y\<rparr>)
       (sess_step ops (case echo_Get (cm_call (ss_call (sy_s (er_y z)))) of None \<Rightarrow> EGetOk | Some e \<Rightarrow> EGetErr e) (er_y z))"
| "echo_rest_step ops ErRead z =
     (if er_pc z = CopyRead then
        map_option (\<lambda>y. z\<lparr>er_pc := copy_read (fst (pipe_read copyBufSize (ss_pipe (sy_s (er_y z))))), er_y := y,
            er_io := io_step (EDoRead copyBufSize) (er_y z) (er_io z)\<rparr>)
          (sess_step ops (EDoRead copyBufSize) (er_y z))
      else None)"
| "echo_rest_step ops ErWrite z =
     (case er_pc z of
        CopyWrite d \<Rightarrow>
          map_option (\<lambda>y. z\<lparr>er_pc := copy_wrote d (snd (fb_Write ops d (ss_out (sy_s (er_y z))))), er_y := y,
              er_out := er_out z @ d\<rparr>)
            (sess_step ops (EDoWrite d) (er_y z))
      | _ \<Rightarrow> None)"
| "echo_rest_step ops ErReturn z =
     (case er_pc z of
        CopyDone copy_err \<Rightarrow>
          (let s = sy_s (er_y z); (v, err) = echo_Do (cm_params (ss_call s)) copy_err (ss_context s)
           in map_option (\<lambda>y. z\<lparr>er_y := y\<rparr>) (sess_step ops (EDoReturn v err) (er_y z)))
      | _ \<Rightarrow> None)"
| "echo_rest_step ops (ErOther e) z =
     (if session_handler_event e then None
      else map_option (\<lambda>y. z\<lparr>er_y := y, er_io := io_step e (er_y z) (er_io z)\<rparr>) (sess_step ops e (er_y z)))"

definition echo_rest_start :: "('rb, 'lb) buf_ops \<Rightarrow> ('rb, 'lb) echo_rest \<Rightarrow> bool" where
  "echo_rest_start ops z \<longleftrightarrow> er_pc z = CopyRead \<and> sess_start ops (er_y z) \<and> er_io z = ([], []) \<and> er_out z = []"

abbreviation echo_rest_reachable :: "('rb, 'lb) buf_ops \<Rightarrow> ('rb, 'lb) echo_rest \<Rightarrow> bool" where
  "echo_rest_reachable ops \<equiv> reachable_in (echo_rest_start ops) (echo_rest_step ops)"

end
