(* ===== verification/EchoWs.thy ===== *)
theory EchoWs
  imports Echo WsProps
begin

text \<open>
  The example process over a websocket: what the client gets is its own input, and the result
  says whether it got all of it.
\<close>

section \<open>Every step is one of the connection\<close>

fun ws_event_of :: "echo_event \<Rightarrow> echo_ws \<Rightarrow> bytes list ws_event" where
  "ws_event_of EchoGet y =
     (case wx_main (ew_x y) of
        MGet c \<Rightarrow> (case echo_Get (cm_call c) of None \<Rightarrow> WsGetOk | Some e \<Rightarrow> WsGetErr e)
      | _ \<Rightarrow> WsGetOk)"
| "ws_event_of EchoRead y = WsDoRead copyBufSize"
| "ws_event_of (EchoWrite err) y = WsDoWrite (case ew_pc y of CopyWrite d \<Rightarrow> d | _ \<Rightarrow> []) (err = None)"
| "ws_event_of EchoReturn y =
     (case (ew_pc y, wx_main (ew_x y)) of
        (CopyDone e, MDo c) \<Rightarrow>
          WsDoReturn (fst (echo_Do (cm_params c) e (wx_ctx (ew_x y)))) (snd (echo_Do (cm_params c) e (wx_ctx (ew_x y))))
      | _ \<Rightarrow> WsDoReturn None None)"
| "ws_event_of (EchoOther e) y = e"

lemma echo_ws_step_ws: "echo_ws_step mj e y = Some z \<Longrightarrow> ws_step mj (ws_event_of e y) (ew_x y) = Some (ew_x z)"
  by (cases e) (auto simp: Let_def simp del: ws_step.simps
      split: main_pc.splits copy_pc.splits option.splits if_splits prod.splits)

interpretation echo_ws: refined_system echo_ws_start "echo_ws_step mj" ws_start "ws_step mj" ew_x for mj
proof unfold_locales
  show "echo_ws_start y \<Longrightarrow> ws_start (ew_x y)" for y by (simp add: echo_ws_start_def)
  show "echo_ws_step mj e y = Some z \<Longrightarrow> \<exists>f. ws_step mj f (ew_x y) = Some (ew_x z)" for e y z
    by (blast dest: echo_ws_step_ws)
qed

section \<open>What was sent and received\<close>

definition sent_text :: "ws_frame list \<Rightarrow> bytes" where
  "sent_text fs = concat (map (\<lambda>f. case f of FText t \<Rightarrow> t | _ \<Rightarrow> []) fs)"

lemma sent_text_simps [simp]:
  "sent_text [] = []" "sent_text (fs @ gs) = sent_text fs @ sent_text gs" "sent_text (FText t # fs) = t @ sent_text fs"
  "sent_text (FBinary d # fs) = sent_text fs" "sent_text (FClose # fs) = sent_text fs"
  by (simp_all add: sent_text_def)

lemma spec_msg_queue: "\<exists>r. sp_queue (spec_msg m s) = sp_queue s @ r"
  by (auto simp: spec_msg_def spec_signal_def split: ws_msg.split option.split)

lemma client_means_more:
  assumes "prefix ms ns"
  shows "\<exists>r. sp_queue (client_means ns) = sp_queue (client_means ms) @ r"
    and "sp_init (client_means ms) = Some b \<Longrightarrow> sp_init (client_means ns) = Some b"
proof -
  obtain l where ns: "ns = ms @ l" using assms by (auto simp: prefix_def)
  show "\<exists>r. sp_queue (client_means ns) = sp_queue (client_means ms) @ r" unfolding ns
  proof (induction l rule: rev_induct)
    case (snoc m l)
    then obtain r where r: "sp_queue (client_means (ms @ l)) = sp_queue (client_means ms) @ r" by blast
    obtain r' where "sp_queue (client_means ((ms @ l) @ [m])) = sp_queue (client_means (ms @ l)) @ r'"
      using spec_msg_queue unfolding client_means_snoc by blast
    with r show ?case by simp
  qed simp
  show "sp_init (client_means ms) = Some b \<Longrightarrow> sp_init (client_means ns) = Some b" unfolding ns
  proof (induction l rule: rev_induct)
    case (snoc m l)
    then have "sp_init (client_means ((ms @ l) @ [m])) = Some b" unfolding client_means_snoc by (simp add: spec_msg_init)
    then show ?case by simp
  qed simp
qed

lemma queue_more:
  assumes "prefix ms ns" "None \<in> set (sp_queue (client_means ms))"
  shows "None \<in> set (sp_queue (client_means ns))"
    "input_of (sp_queue (client_means ns)) = input_of (sp_queue (client_means ms))"
  using client_means_more(1) [OF assms(1)] assms(2) by (auto simp: input_of_ended)

section \<open>The end of a connection\<close>

text \<open>The reader leaves its loop only after it has cancelled the context.\<close>

definition gone_ok :: "'v ws_state \<Rightarrow> bool" where
  "gone_ok x \<longleftrightarrow> (wx_reader x \<in> {RCloseInit, RCloseText, RDone} \<longrightarrow> wx_ctx x \<noteq> None)"

lemma reader_recv_pc: "wx_reader x = RSelect \<Longrightarrow> wx_reader (reader_recv m x) \<notin> {RCloseInit, RCloseText, RDone}"
  by (simp add: reader_recv_def reader_signal_def Let_def split: ws_msg.split option.split)

lemma reader_kept:
  assumes "ws_step mj e x = Some y" "e \<notin> {WsReader, WsGone}" "\<forall>m. e \<noteq> WsMsg m"
  shows "wx_reader y = wx_reader x"
proof (cases e)
  case WsWriter
  then show ?thesis using assms(1) writer_step_fields [of x y] by simp
next
  case WsMain
  then show ?thesis using assms(1) by (cases "wx_main x") (auto simp: main_step_def split: if_splits)
next
  case WsCall
  then show ?thesis using assms(1)
    by (cases "wx_init x"; cases "wx_init_closed x") (auto simp: main_call_def serve_returns_def Let_def split: option.splits if_splits)
qed (use assms in \<open>auto simp: main_timeout_def serve_returns_def do_read_def
    split: if_splits option.splits main_pc.splits prod.splits read_result.splits\<close>)

lemma gone_ok_step:
  assumes g: "gone_ok x" and s: "ws_step mj e x = Some y"
  shows "gone_ok y"
proof -
  have c: "wx_ctx x \<noteq> None \<Longrightarrow> wx_ctx y \<noteq> None" using ws_grows_step [OF s] by (auto simp: ws_grows_def)
  consider "e \<notin> {WsReader, WsGone}" "\<forall>m. e \<noteq> WsMsg m" | m where "e = WsMsg m" | "e = WsReader" | "e = WsGone" by blast
  then show ?thesis
  proof cases
    case 1
    then show ?thesis using g c reader_kept [OF s] by (auto simp: gone_ok_def)
  next
    case 2
    then show ?thesis using s reader_recv_pc [of x m] by (auto simp: gone_ok_def split: if_splits)
  next
    case 3
    then show ?thesis using s g by (cases "wx_reader x") (auto simp: gone_ok_def reader_step_def split: if_splits)
  next
    case 4
    then show ?thesis using s by (cases "wx_ctx x") (auto simp: gone_ok_def reader_gone_def split: if_splits)
  qed
qed

text \<open>What a step of another goroutine, the client or the network leaves alone.\<close>

definition no_call_result :: "'v result \<Rightarrow> bool" where
  "no_call_result r \<longleftrightarrow> Value r = None \<and> Reason r \<in> {Some ErrCancelProtocolError, Some ErrCancelTimeout}"

lemma other_step:
  assumes "ws_step mj e x = Some y" "\<not> handler_event e"
  shows "wx_read y = wx_read x \<and> sent_text (wx_sent y) = sent_text (wx_sent x) \<and>
    (\<forall>c. wx_main y = MDo c \<longleftrightarrow> wx_main x = MDo c) \<and>
    (wx_result y = wx_result x \<or> wx_main x = MCall \<and> (\<exists>r. wx_result y = Some r \<and> no_call_result r))"
proof (cases e)
  case (WsMsg m)
  then show ?thesis using assms reader_recv_fields [of m x] by (auto split: if_splits)
next
  case WsReader
  then show ?thesis using assms reader_step_fields [of x y] by auto
next
  case WsWriter
  then show ?thesis using assms writer_step_fields [of x y] by auto
next
  case WsCall
  then show ?thesis using assms
    by (cases "wx_init x"; cases "wx_init_closed x"; cases "wx_main x")
      (auto simp: main_call_def serve_returns_def no_call_result_def Let_def split: option.splits if_splits)
next
  case WsMain
  then show ?thesis using assms by (cases "wx_main x") (auto simp: main_step_def split: if_splits)
next
  case (WsWriteResult ok)
  then show ?thesis using assms by (cases "wx_main x") (auto split: if_splits)
qed (use assms in \<open>auto simp: reader_gone_def main_timeout_def serve_returns_def no_call_result_def
    split: if_splits option.splits\<close>)


section \<open>The invariant\<close>

definition called :: "call_message \<Rightarrow> 'v ws_state \<Rightarrow> bool" where
  "called c x \<longleftrightarrow> (\<exists>b. sp_init (wx_spec x) = Some b \<and> unmarshal_call b = Some c)"

text \<open>The bytes between the input and the output of the process are those it is about to write.\<close>

fun copy_ok :: "copy_pc \<Rightarrow> 'v ws_state \<Rightarrow> bool" where
  "copy_ok CopyRead x \<longleftrightarrow> sent_text (wx_sent x) = wx_read x"
| "copy_ok (CopyWrite d) x \<longleftrightarrow> sent_text (wx_sent x) @ d = wx_read x"
| "copy_ok (CopyDone None) x \<longleftrightarrow> sent_text (wx_sent x) = wx_read x \<and>
     (wx_ctx x \<noteq> None \<and> wx_conn x \<noteq> None \<or> None \<in> set (ws_queue x) \<and> wx_read x = input_of (ws_queue x))"
| "copy_ok (CopyDone (Some e)) x \<longleftrightarrow> prefix (sent_text (wx_sent x)) (wx_read x) \<and>
     (\<exists>w. e = Errorf ''failed to write to connection: '' w [])"

text \<open>The results there can be: everything was echoed, or one of these reasons.\<close>

definition cancel_reason :: "go_error \<Rightarrow> 'v ws_state \<Rightarrow> bool" where
  "cancel_reason e x \<longleftrightarrow> wx_ctx x = Some e \<and>
     (e \<in> {ErrCancelClientRequest, ErrCancelProtocolError, ErrCancelClientGone} \<or> wx_conn x = Some e)"

definition echo_reason :: "go_error \<Rightarrow> 'v ws_state \<Rightarrow> bool" where
  "echo_reason e x \<longleftrightarrow> e \<in> {ErrCancelProtocolError, ErrCancelTimeout} \<or>
     (\<exists>c. called c x \<and> cm_call c \<noteq> ''echo'' \<and> e = Errorf ''failed to get process: '' ErrHandlerUnknownProcess []) \<or>
     (\<exists>w. e = Errorf ''process returned error: ''
        (Errorf ''failed to copy: '' (Errorf ''failed to write to connection: '' w []) []) []) \<or>
     (\<exists>cause. e = Errorf ''process returned error: '' cause [] \<and> cancel_reason cause x)"

definition echoed_all :: "'v ws_state \<Rightarrow> bool" where
  "echoed_all x \<longleftrightarrow> None \<in> set (ws_queue x) \<and> sent_text (wx_sent x) = input_of (ws_queue x)"

definition echo_result :: "bytes list result \<Rightarrow> bytes list ws_state \<Rightarrow> bool" where
  "echo_result r x \<longleftrightarrow>
     (case Reason r of
        None \<Rightarrow> echoed_all x \<and> (\<exists>c. called c x \<and> cm_call c = ''echo'' \<and> Value r = Some (cm_params c))
      | Some e \<Rightarrow> Value r = None \<and> echo_reason e x)"

definition echo_inv :: "echo_ws \<Rightarrow> bool" where
  "echo_inv y \<longleftrightarrow> gone_ok (ew_x y) \<and> prefix (sent_text (wx_sent (ew_x y))) (wx_read (ew_x y)) \<and>
     (\<forall>c. wx_main (ew_x y) = MDo c \<longrightarrow> cm_call c = ''echo'' \<and> copy_ok (ew_pc y) (ew_x y)) \<and>
     (\<forall>r. wx_result (ew_x y) = Some r \<longrightarrow> echo_result r (ew_x y))"

text \<open>What the invariant says stays true while the messages, the context and the connection grow.\<close>

lemma called_grows: "called c x \<Longrightarrow> ws_grows x z \<Longrightarrow> called c z"
  using client_means_more(2) unfolding called_def ws_grows_def by blast

lemma copy_ok_grows:
  assumes "copy_ok pc x" "ws_grows x z" "wx_read z = wx_read x" "sent_text (wx_sent z) = sent_text (wx_sent x)"
  shows "copy_ok pc z"
  using assms queue_more [of "wx_msgs x" "wx_msgs z"]
  by (cases pc; cases "case pc of CopyDone e \<Rightarrow> e | _ \<Rightarrow> None") (auto simp: ws_grows_def)

lemma echo_reason_grows: "echo_reason e x \<Longrightarrow> ws_grows x z \<Longrightarrow> echo_reason e z"
  using called_grows [of _ x z] unfolding echo_reason_def cancel_reason_def ws_grows_def by auto

lemma echo_result_grows:
  assumes "echo_result r x" "ws_grows x z" "sent_text (wx_sent z) = sent_text (wx_sent x)"
  shows "echo_result r z"
  using assms queue_more [of "wx_msgs x" "wx_msgs z"] called_grows [OF _ assms(2)] echo_reason_grows [OF _ assms(2)]
  by (auto simp: echo_result_def echoed_all_def ws_grows_def split: option.splits)

lemma echo_inv_other:
  assumes i: "echo_inv y" and e: "\<not> handler_event e" and s: "ws_step mj e (ew_x y) = Some x"
  shows "echo_inv (y\<lparr>ew_x := x\<rparr>)"
proof -
  note o = other_step [OF s e] and g = ws_grows_step [OF s]
  have "echo_result r x" if r: "wx_result x = Some r" for r
  proof (cases "wx_result x = wx_result (ew_x y)")
    case True
    then have "echo_result r (ew_x y)" using i r by (simp add: echo_inv_def)
    then show ?thesis using echo_result_grows [OF _ g] o by blast
  next
    case False
    then have "no_call_result r" using o r by auto
    then show ?thesis by (auto simp: no_call_result_def echo_result_def echo_reason_def)
  qed
  moreover have "copy_ok (ew_pc y) x" if "wx_main x = MDo c" for c
  proof -
    have "wx_main (ew_x y) = MDo c" using o that by blast
    then have "copy_ok (ew_pc y) (ew_x y)" using i by (simp add: echo_inv_def)
    then show ?thesis using copy_ok_grows [OF _ g] o by blast
  qed
  ultimately show ?thesis using i o gone_ok_step [OF _ s] by (simp add: echo_inv_def)
qed

lemma call_is: "follows x \<Longrightarrow> main_call_of (wx_main x) = Some c \<Longrightarrow> called c x"
  by (auto simp: follows_def init_ok_def called_def)

lemma no_result: "main_inv mj x \<Longrightarrow> main_call_of (wx_main x) = Some c \<Longrightarrow> wx_result x = None"
  by (cases "wx_main x") (auto simp: main_inv_def)

lemma echo_inv_get:
  assumes i: "echo_inv y" and w: "ws_inv mj (ew_x y)" and s: "echo_ws_step mj EchoGet y = Some z"
  shows "echo_inv z"
proof -
  let ?x = "ew_x y"
  obtain c where c: "wx_main ?x = MGet c" using s by (cases "wx_main ?x") auto
  have d: "wx_result ?x = None" "wx_sent ?x = []" "wx_writer ?x = WNone" "called c ?x"
    using w c call_is [of ?x] by (auto simp: ws_inv_def main_inv_def)
  then have "wx_read ?x = []" using w c by (simp add: ws_inv_def data_inv_def)
  then show ?thesis
    using s c d i by (auto simp: echo_inv_def echo_Get_def gone_ok_def serve_returns_def echo_result_def echo_reason_def
        called_def split: if_splits)
qed

lemma echo_inv_read:
  assumes i: "echo_inv y" and w: "ws_inv mj (ew_x y)" and s: "echo_ws_step mj EchoRead y = Some z"
  shows "echo_inv z"
proof -
  let ?x = "ew_x y"
  obtain r p where r: "pipe_read copyBufSize (wx_pipe ?x) = (r, p)" by force
  obtain c where c: "wx_main ?x = MDo c" and pc: "ew_pc y = CopyRead"
    using s by (cases "wx_main ?x") (auto split: if_splits)
  have m: "wx_result ?x = None" using no_result [of mj ?x c] w c by (simp add: ws_inv_def)
  show ?thesis
  proof (cases r)
    case ReadBlocks
    then show ?thesis using s r by (simp add: do_read_def split: if_splits)
  next
    case (ReadData d)
    then show ?thesis using s r i c pc m
      by (auto simp: do_read_def copy_read_def echo_inv_def gone_ok_def prefix_def split: if_splits)
  next
    case (ReadErr e)
    then have "e = io_EOF \<and> wx_read ?x = input_of (ws_queue ?x) \<and> (None \<in> set (ws_queue ?x) \<or> wx_reader ?x = RDone)"
      using read_error [OF w c, of copyBufSize e] r by simp
    moreover have "wx_reader ?x = RDone \<longrightarrow> wx_conn ?x \<noteq> None" using w by (simp add: ws_inv_def follows_def close_ok_def)
    ultimately show ?thesis using s r i c pc m ReadErr
      by (auto simp: do_read_def copy_read_def echo_inv_def gone_ok_def split: if_splits)
  qed
qed

lemma echo_inv_write:
  assumes i: "echo_inv y" and w: "ws_inv mj (ew_x y)" and s: "echo_ws_step mj (EchoWrite err) y = Some z"
  shows "echo_inv z"
proof -
  let ?x = "ew_x y"
  obtain c d where c: "wx_main ?x = MDo c" and pc: "ew_pc y = CopyWrite d"
    using s by (cases "wx_main ?x"; cases "ew_pc y") (auto split: if_splits)
  have m: "wx_result ?x = None" using no_result [of mj ?x c] w c by (simp add: ws_inv_def)
  have "sent_text (wx_sent ?x) @ d = wx_read ?x" using i c pc by (simp add: echo_inv_def)
  then show ?thesis using s i c pc m
    by (cases err) (auto simp: echo_inv_def gone_ok_def WriterFunc_Write_def ws_output_def copy_wrote_def)
qed

lemma echo_inv_return:
  assumes i: "echo_inv y" and w: "ws_inv mj (ew_x y)" and s: "echo_ws_step mj EchoReturn y = Some z"
  shows "echo_inv z"
proof -
  let ?x = "ew_x y"
  obtain c e where c: "wx_main ?x = MDo c" and pc: "ew_pc y = CopyDone e"
    using s by (cases "wx_main ?x"; cases "ew_pc y") (auto split: if_splits)
  have k: "called c ?x" using w c call_is [of ?x] by (simp add: ws_inv_def)
  have ok: "cm_call c = ''echo''" "copy_ok (CopyDone e) ?x" using i c pc by (simp_all add: echo_inv_def)
  have "ctx_ok (wx_conn ?x) True (wx_ctx ?x) (sp_cancels (wx_spec ?x))" using w c by (simp add: ws_inv_def follows_def)
  then have cr: "cancel_reason cause ?x" if "wx_ctx ?x = Some cause" for cause
    using that sp_cancels_known [of "wx_msgs ?x"] by (auto simp: ctx_ok_def cancel_reason_def)
  let ?r = "do_result (fst (echo_Do (cm_params c) e (wx_ctx ?x))) (snd (echo_Do (cm_params c) e (wx_ctx ?x)))"
  have z: "z = y\<lparr>ew_x := serve_returns True ?r ?x\<rparr>"
    using s c pc by (auto simp: Let_def split: prod.splits)
  have "echo_result ?r ?x"
  proof (cases e)
    case None
    then show ?thesis using ok k cr
      by (cases "wx_ctx ?x") (auto simp: echo_Do_def do_result_def echo_result_def echo_reason_def echoed_all_def)
  next
    case (Some err)
    then show ?thesis using ok by (auto simp: echo_Do_def do_result_def echo_result_def echo_reason_def)
  qed
  then have "echo_result ?r (serve_returns True ?r ?x)"
    by (simp add: echo_result_def echoed_all_def echo_reason_def cancel_reason_def called_def serve_returns_def split: option.splits)
  then show ?thesis using i by (simp add: z echo_inv_def gone_ok_def) (simp add: serve_returns_def)
qed

lemma echo_inv_step:
  assumes "echo_inv y" "ws_inv mj (ew_x y)" "echo_ws_step mj e y = Some z"
  shows "echo_inv z"
proof (cases e)
  case (EchoOther f)
  then show ?thesis using assms echo_inv_other by (auto split: if_splits)
qed (use assms echo_inv_get echo_inv_read echo_inv_write echo_inv_return in blast)+

interpretation echo: invariant_system echo_ws_start "echo_ws_step mj" "\<lambda>y. echo_inv y \<and> ws_inv mj (ew_x y)"
  for mj :: "bytes list \<Rightarrow> marshalled"
proof unfold_locales
  show "echo_inv y \<and> ws_inv mj (ew_x y)" if "echo_ws_start y" for y
  proof -
    have s: "ws_start (ew_x y)" using that by (simp add: echo_ws_start_def)
    then have "wx_reader (ew_x y) = RSelect \<and> wx_sent (ew_x y) = [] \<and> wx_main (ew_x y) = MCall \<and> wx_result (ew_x y) = None"
      by (cases "ew_x y") (simp add: ws_start_def ws_begin_def)
    then show ?thesis using ws.init_inv [OF s] by (simp add: echo_inv_def gone_ok_def)
  qed
  show "echo_inv z \<and> ws_inv mj (ew_x z)" if "echo_inv y \<and> ws_inv mj (ew_x y)" "echo_ws_step mj e y = Some z" for y z e
    using that echo_inv_step ws.step_inv [OF _ echo_ws_step_ws] by blast
qed


section \<open>What the client gets\<close>

text \<open>
  Property C9. The example server sends a client its own input back: at any time the text it has
  sent is a prefix of the client's input, and when the result is a success the client has ended
  its input, everything before the end mark was sent back, and the value are the parameters of
  its call.
\<close>

theorem echo_sends_input_back:
  assumes "echo_ws_reachable mj y"
  shows "prefix (sent_text (wx_sent (ew_x y))) (input_of (sp_queue (client_means (wx_msgs (ew_x y))))) \<and>
    (\<forall>v. wx_result (ew_x y) = Some \<lparr>Value = v, Reason = None\<rparr> \<longrightarrow>
      None \<in> set (sp_queue (client_means (wx_msgs (ew_x y)))) \<and>
      sent_text (wx_sent (ew_x y)) = input_of (sp_queue (client_means (wx_msgs (ew_x y)))) \<and>
      (\<exists>b c. sp_init (client_means (wx_msgs (ew_x y))) = Some b \<and> unmarshal_call b = Some c \<and>
        cm_call c = ''echo'' \<and> v = Some (cm_params c)))"
proof -
  let ?x = "ew_x y"
  have i: "echo_inv y" "ws_inv mj ?x" using echo.reachable_inv [OF assms] by auto
  obtain q where "ws_queue ?x = wx_taken ?x @ q" using i(2) taken_prefix by (auto simp: ws_inv_def)
  then have "prefix (wx_read ?x) (input_of (ws_queue ?x))"
    using i(2) input_of_mono [of "wx_taken ?x" q] by (auto simp: ws_inv_def data_inv_def intro: prefix_order.trans)
  then have "prefix (sent_text (wx_sent ?x)) (input_of (ws_queue ?x))"
    using i(1) by (auto simp: echo_inv_def intro: prefix_order.trans)
  then show ?thesis using i(1) by (auto simp: echo_inv_def echo_result_def echoed_all_def called_def)
qed

text \<open>
  Property C11. The example server fails for these reasons only: no call in time or none that
  decodes, a process it does not know, a write that the connection refused, or a cancelled
  context, and then with the cause of its cancellation (the client's request, a malformed
  signal, the client gone, or the cause the connection ended with).
\<close>

theorem echo_failures:
  assumes "echo_ws_reachable mj y" and "wx_result (ew_x y) = Some r" and "Reason r = Some e"
  shows "Value r = None \<and>
    (e \<in> {ErrCancelProtocolError, ErrCancelTimeout, Errorf ''failed to get process: '' ErrHandlerUnknownProcess []} \<or>
     (\<exists>w. e = Errorf ''process returned error: ''
        (Errorf ''failed to copy: '' (Errorf ''failed to write to connection: '' w []) []) []) \<or>
     (\<exists>cause. e = Errorf ''process returned error: '' cause [] \<and> wx_ctx (ew_x y) = Some cause \<and>
        (cause \<in> {ErrCancelClientRequest, ErrCancelProtocolError, ErrCancelClientGone} \<or> wx_conn (ew_x y) = Some cause)))"
proof -
  have "echo_result r (ew_x y)" using echo.reachable_inv [OF assms(1)] assms(2) by (simp add: echo_inv_def)
  then have "Value r = None" "echo_reason e (ew_x y)" using assms(3) by (simp_all add: echo_result_def)
  then show ?thesis unfolding echo_reason_def cancel_reason_def by blast
qed

section \<open>The process finishes\<close>

text \<open>What remains to be done until the copy is over, as a number.\<close>

fun msg_cost :: "bytes option \<Rightarrow> nat" where
  "msg_cost None = 2"
| "msg_cost (Some t) = 3 * length t + 9"

fun reader_cost :: "reader_pc \<Rightarrow> nat" where
  "reader_cost (RSend m) = msg_cost m + 1"
| "reader_cost _ = 0"

fun writer_cost :: "writer_pc \<Rightarrow> nat" where
  "writer_cost (WWrite t) = 3 * length t + 8"
| "writer_cost WClose = 1"
| "writer_cost _ = 0"

definition pend_cost :: "pipe \<Rightarrow> nat" where
  "pend_cost p = (case p_pend p of None \<Rightarrow> 0 | Some (n, b, off) \<Rightarrow> 3 * length b + (if off then 1 else 7))"

fun copy_cost :: "copy_pc \<Rightarrow> nat" where
  "copy_cost CopyRead = 2"
| "copy_cost (CopyWrite d) = 3"
| "copy_cost (CopyDone e) = 1"

definition echo_cost :: "echo_ws \<Rightarrow> nat" where
  "echo_cost y = reader_cost (wx_reader (ew_x y)) + sum_list (map msg_cost (wx_text (ew_x y))) +
     writer_cost (wx_writer (ew_x y)) + pend_cost (wx_pipe (ew_x y)) + copy_cost (ew_pc y)"

text \<open>The steps that need neither the client nor a failing network.\<close>

fun echo_work :: "echo_event \<Rightarrow> bool" where
  "echo_work EchoRead = True"
| "echo_work (EchoWrite err) = (err = None)"
| "echo_work EchoReturn = True"
| "echo_work (EchoOther e) = (e \<in> {WsReader, WsWriter, WsMain, WsWriteResult True})"
| "echo_work EchoGet = False"

definition echo_same :: "echo_ws \<Rightarrow> echo_ws \<Rightarrow> bool" where
  "echo_same y z \<longleftrightarrow> wx_main (ew_x z) = wx_main (ew_x y) \<and> wx_conn (ew_x z) = wx_conn (ew_x y) \<and>
     wx_ctx (ew_x z) = wx_ctx (ew_x y) \<and> wx_msgs (ew_x z) = wx_msgs (ew_x y)"

definition works :: "(bytes list \<Rightarrow> marshalled) \<Rightarrow> echo_ws \<Rightarrow> bool" where
  "works mj y \<longleftrightarrow> (\<exists>e z. echo_work e \<and> echo_ws_step mj e y = Some z \<and> echo_same y z \<and> echo_cost z < echo_cost y \<and>
     (\<forall>err. ew_pc z \<noteq> CopyDone (Some err)))"

lemma worksI: "echo_ws_step mj e y = Some z \<Longrightarrow> echo_work e \<Longrightarrow> echo_same y z \<Longrightarrow> echo_cost z < echo_cost y \<Longrightarrow>
    \<forall>err. ew_pc z \<noteq> CopyDone (Some err) \<Longrightarrow> works mj y"
  by (auto simp: works_def)

lemma read_works:
  assumes m: "wx_main (ew_x y) = MDo c" and pc: "ew_pc y = CopyRead"
    and r: "p_done (wx_pipe (ew_x y)) \<and> read_close_error (wx_pipe (ew_x y)) = io_EOF \<or>
      \<not> p_done (wx_pipe (ew_x y)) \<and> p_pend (wx_pipe (ew_x y)) = Some (n, b, off) \<and> \<not> (off \<and> b = [])"
  shows "works mj y"
  using r
proof
  assume "p_done (wx_pipe (ew_x y)) \<and> read_close_error (wx_pipe (ew_x y)) = io_EOF"
  then show ?thesis using m pc
    by (intro worksI [of mj EchoRead y "\<lparr>ew_pc = CopyDone None, ew_x = ew_x y\<rparr>"])
      (simp_all add: do_read_def copy_read_def echo_same_def echo_cost_def)
next
  assume a: "\<not> p_done (wx_pipe (ew_x y)) \<and> p_pend (wx_pipe (ew_x y)) = Some (n, b, off) \<and> \<not> (off \<and> b = [])"
  let ?d = "take copyBufSize b" and ?p = "(wx_pipe (ew_x y))\<lparr>p_pend := Some (n + length (take copyBufSize b), drop copyBufSize b, True)\<rparr>"
  have p: "pipe_read copyBufSize (wx_pipe (ew_x y)) = (ReadData ?d, ?p)" using a by (auto simp: pipe_read_def)
  have "?d = [] \<longleftrightarrow> b = []" by (simp add: copyBufSize_def)
  moreover have "length ?d + length (drop copyBufSize b) = length b" by simp
  ultimately have "pend_cost ?p + copy_cost (copy_read (ReadData ?d)) < pend_cost (wx_pipe (ew_x y)) + 2"
    using a by (cases b) (auto simp: pend_cost_def copy_read_def copyBufSize_def)
  then show ?thesis using m pc p
    by (intro worksI [of mj EchoRead y "\<lparr>ew_pc = copy_read (ReadData ?d), ew_x = (ew_x y)\<lparr>wx_pipe := ?p, wx_read := wx_read (ew_x y) @ ?d\<rparr>\<rparr>"])
      (simp_all add: do_read_def echo_same_def echo_cost_def copy_read_def)
qed

lemma writer_works:
  assumes "wx_main (ew_x y) = MDo c" "ew_pc y = CopyRead" "writer_step (ew_x y) = Some x"
    "sum_list (map msg_cost (wx_text x)) + writer_cost (wx_writer x) + pend_cost (wx_pipe x) <
     sum_list (map msg_cost (wx_text (ew_x y))) + writer_cost (wx_writer (ew_x y)) + pend_cost (wx_pipe (ew_x y))"
  shows "works mj y"
  using assms writer_step_fields [OF assms(3)]
  by (intro worksI [of mj "EchoOther WsWriter" y "y\<lparr>ew_x := x\<rparr>"]) (simp_all add: echo_same_def echo_cost_def)

lemma echo_works:
  assumes w: "ws_inv mj (ew_x y)" and m: "wx_main (ew_x y) = MDo c" and conn: "wx_conn (ew_x y) = None"
    and q: "None \<in> set (ws_queue (ew_x y))" and pc: "\<forall>e. ew_pc y \<noteq> CopyDone e"
  shows "works mj y"
proof (cases "ew_pc y")
  case (CopyWrite d)
  then show ?thesis using m
    by (intro worksI [of mj "EchoWrite None" y "\<lparr>ew_pc = CopyRead, ew_x = (ew_x y)\<lparr>wx_sent := wx_sent (ew_x y) @ [FText d]\<rparr>\<rparr>"])
      (simp_all add: WriterFunc_Write_def ws_output_def echo_same_def echo_cost_def)
next
  case (CopyDone e)
  then show ?thesis using pc by blast
next
  case rd: CopyRead
  have wr: "writer_ok (wx_writer (ew_x y)) (ew_x y)" using w m by (simp add: ws_inv_def data_inv_def)
  note step = writer_works [OF m rd] and read = read_works [OF m rd]
  show ?thesis
  proof (cases "wx_writer (ew_x y)")
    case WNone
    then show ?thesis using wr by simp
  next
    case WRecv
    show ?thesis
    proof (cases "wx_text (ew_x y)")
      case (Cons t ts)
      then show ?thesis using WRecv
        by (intro step) (auto simp: writer_step_def split: option.split)
    next
      case Nil
      have "queue_ok (ws_queue (ew_x y)) (wx_taken (ew_x y)) [] (wx_reader (ew_x y))"
        using w Nil by (simp add: ws_inv_def follows_def)
      then have "ws_queue (ew_x y) = wx_taken (ew_x y) @ pending_send (wx_reader (ew_x y))" by (simp add: queue_ok_def)
      then have "None \<in> set (pending_send (wx_reader (ew_x y)))" using q wr WRecv by simp
      then obtain t where "wx_reader (ew_x y) = RSend t" by (cases "wx_reader (ew_x y)") (auto simp: pending_send_def)
      then show ?thesis using m rd Nil
        by (intro worksI [of mj "EchoOther WsReader" y "y\<lparr>ew_x := (ew_x y)\<lparr>wx_text := [t], wx_reader := RSelect\<rparr>\<rparr>"])
          (simp_all add: reader_step_def messageBufferSize_def echo_same_def echo_cost_def)
    qed
  next
    case (WWrite t)
    then show ?thesis using wr
      by (intro step) (auto simp: writer_step_def write_begin_def pipe_open_def pend_cost_def)
  next
    case WWriting
    then obtain n b off where p: "p_pend (wx_pipe (ew_x y)) = Some (n, b, off)" "\<not> p_done (wx_pipe (ew_x y))"
      using wr by (auto simp: pipe_open_def)
    show ?thesis
    proof (cases "off \<and> b = []")
      case True
      then show ?thesis using WWriting p by (intro step) (auto simp: writer_step_def write_end_def pend_cost_def)
    next
      case False
      then show ?thesis using p by (intro read) blast
    qed
  next
    case WClose
    then show ?thesis using wr by (intro step) (auto simp: writer_step_def pend_cost_def)
  next
    case WDrain
    then show ?thesis using wr by (intro read) (simp add: ends_in_eof_def read_close_error_def)
  next
    case WDone
    then show ?thesis using wr by (intro read) (simp add: ends_in_eof_def read_close_error_def)
  qed
qed

lemma copy_finishes:
  assumes "echo_inv y" "ws_inv mj (ew_x y)" "wx_main (ew_x y) = MDo c" "wx_conn (ew_x y) = None"
    "None \<in> set (ws_queue (ew_x y))" "\<forall>err. ew_pc y \<noteq> CopyDone (Some err)"
  shows "\<exists>es z. list_all echo_work es \<and> run_events (echo_ws_step mj) es y = Some z \<and> echo_same y z \<and> ew_pc z = CopyDone None"
  using assms
proof (induction "echo_cost y" arbitrary: y rule: less_induct)
  case less
  show ?case
  proof (cases "ew_pc y = CopyDone None")
    case True
    then show ?thesis by (intro exI [of _ "[]"] exI [of _ y]) (simp add: echo_same_def)
  next
    case False
    then have "\<forall>e. ew_pc y \<noteq> CopyDone e" using less.prems(6) by (metis not_None_eq)
    then obtain e z where z: "echo_work e" "echo_ws_step mj e y = Some z" "echo_same y z" "echo_cost z < echo_cost y"
        "\<forall>err. ew_pc z \<noteq> CopyDone (Some err)"
      using echo_works [OF less.prems(2-5)] by (auto simp: works_def)
    have i: "echo_inv z" "ws_inv mj (ew_x z)" using echo.step_inv [OF _ z(2)] less.prems by blast+
    obtain es u where "list_all echo_work es" "run_events (echo_ws_step mj) es z = Some u" "echo_same z u" "ew_pc u = CopyDone None"
      using less.hyps [OF z(4) i] z(3,5) less.prems by (auto simp: echo_same_def)
    then show ?thesis using z by (intro exI [of _ "e # es"] exI [of _ u]) (simp add: echo_same_def)
  qed
qed


lemma main_finishes:
  "wx_main x = MCloseWriter r \<Longrightarrow> wx_conn x = None \<Longrightarrow>
   \<exists>x'. run_events (ws_step mj) [WsMain, WsMain, WsMain, WsWriteResult True, WsMain] x = Some x' \<and>
     wx_sent x' = wx_sent x @ [FBinary (Result_MarshalJSON mj (Some r)), FClose]"
  by (simp add: main_step_def ws_cancel_def)

lemma other_run:
  "run_events (ws_step mj) es x = Some x' \<Longrightarrow> list_all (\<lambda>e. \<not> handler_event e) es \<Longrightarrow>
   run_events (echo_ws_step mj) (map EchoOther es) (y\<lparr>ew_x := x\<rparr>) = Some (y\<lparr>ew_x := x'\<rparr>)"
  by (induction es arbitrary: x) (auto simp del: ws_step.simps split: option.splits)

text \<open>
  Property C10. Once a client of the example server has ended its input, nothing can stop the echo:
  on a live connection that refused no write so far, the work of the goroutines alone (with the
  remaining writes accepted) sends back all of the input, then the result, which is a success
  with the parameters of the call unless the process was cancelled before, then the close frame.
\<close>

theorem echo_completes:
  assumes "echo_ws_reachable mj y" and "wx_main (ew_x y) = MDo c" and "wx_conn (ew_x y) = None"
    and "None \<in> set (sp_queue (client_means (wx_msgs (ew_x y))))" and "\<forall>err. ew_pc y \<noteq> CopyDone (Some err)"
  shows "\<exists>es z. list_all echo_work es \<and> run_events (echo_ws_step mj) es y = Some z \<and>
    sent_text (wx_sent (ew_x z)) = input_of (sp_queue (client_means (wx_msgs (ew_x y)))) \<and>
    suffix [FBinary (Result_MarshalJSON mj (Some (do_result (Some (cm_params c)) (wx_ctx (ew_x y))))), FClose] (wx_sent (ew_x z))"
proof -
  have i: "echo_inv y" "ws_inv mj (ew_x y)" using echo.reachable_inv [OF assms(1)] by auto
  obtain es z where z: "list_all echo_work es" "run_events (echo_ws_step mj) es y = Some z" "echo_same y z" "ew_pc z = CopyDone None"
    using copy_finishes [OF i assms(2-5)] by blast
  let ?x = "ew_x z" and ?r = "do_result (Some (cm_params c)) (wx_ctx (ew_x y))"
  let ?f = "EchoReturn # map EchoOther [WsMain, WsMain, WsMain, WsWriteResult True, WsMain]"
  have x: "wx_main ?x = MDo c" "wx_conn ?x = None" "wx_ctx ?x = wx_ctx (ew_x y)" "wx_msgs ?x = wx_msgs (ew_x y)"
    using z(3) assms(2,3) by (simp_all add: echo_same_def)
  have "echo_inv z" using echo.run_inv [OF _ z(2)] i by blast
  then have t: "sent_text (wx_sent ?x) = input_of (ws_queue (ew_x y))" using x z(4) by (simp add: echo_inv_def)
  have d: "snd (echo_Do (cm_params c) None k) = k" "do_result (fst (echo_Do (cm_params c) None k)) k = do_result (Some (cm_params c)) k" for k
    by (simp_all add: echo_Do_def)
  have r: "echo_ws_step mj EchoReturn z = Some (z\<lparr>ew_x := serve_returns True ?r ?x\<rparr>)"
    using x z(4) by (simp add: Let_def case_prod_beta d)
  obtain x' where "run_events (ws_step mj) [WsMain, WsMain, WsMain, WsWriteResult True, WsMain] (serve_returns True ?r ?x) = Some x'"
      and s: "wx_sent x' = wx_sent ?x @ [FBinary (Result_MarshalJSON mj (Some ?r)), FClose]"
    using main_finishes [of "serve_returns True ?r ?x" ?r mj] x by (auto simp: serve_returns_def)
  from other_run [OF this(1)] have "run_events (echo_ws_step mj) ?f z = Some (z\<lparr>ew_x := x'\<rparr>)"
    by (simp only: run_events.simps r option.case) simp
  then obtain u where u: "run_events (echo_ws_step mj) ?f z = Some u"
      "wx_sent (ew_x u) = wx_sent ?x @ [FBinary (Result_MarshalJSON mj (Some ?r)), FClose]"
    using s by simp
  then have "run_events (echo_ws_step mj) (es @ ?f) y = Some u" using z(2) by (simp only: run_events_append option.case)
  moreover have "list_all echo_work (es @ ?f)" using z(1) by simp
  moreover have "sent_text (wx_sent (ew_x u)) = input_of (ws_queue (ew_x y))" using u(2) t by simp
  ultimately show ?thesis using u(2) unfolding suffix_def by blast
qed

section \<open>Runs\<close>

definition echo_begin :: echo_ws where
  "echo_begin = \<lparr>ew_pc = CopyRead, ew_x = the (ws_begin Subprotocol)\<rparr>"

definition echo_mj :: "bytes list \<Rightarrow> marshalled" where
  "echo_mj v = MBytes (''['' @ join_with '','' (map json_string v) @ '']'')"

lemma echo_begin_start: "echo_ws_start echo_begin"
  by (simp add: echo_ws_start_def echo_begin_def ws_start_def ws_begin_def)

text \<open>The call, a text and the end mark, and the state they lead to.\<close>

definition echo_ended :: "echo_event list" where
  "echo_ended = map EchoOther [WsMsg demo_call, WsReader, WsCall] @ [EchoGet] @
     map EchoOther [WsMsg (WsText (Some ''in'')), WsReader, WsMsg demo_close, WsReader]"

definition echo_at_end :: echo_ws where
  "echo_at_end = \<lparr>ew_pc = CopyRead, ew_x = \<lparr>wx_conn = None, wx_sent = [], wx_text = [Some ''in'', None],
     wx_text_closed = False, wx_init = [], wx_init_closed = False, wx_ctx = None, wx_reader = RSelect,
     wx_had_init = True, wx_had_cancel = False, wx_main = MDo \<lparr>cm_call = ''echo'', cm_params = [''a'']\<rparr>,
     wx_writer = WRecv, wx_pipe = pipe_new, wx_msgs = [demo_call, WsText (Some ''in''), demo_close],
     wx_taken = [], wx_read = [], wx_result = None, wx_gets = 1, wx_dos = 1\<rparr>\<rparr>"

lemma echo_ended_run: "run_events (echo_ws_step echo_mj) echo_ended echo_begin = Some echo_at_end"
  by code_simp

lemma echo_at_end_input: "sp_queue (client_means (wx_msgs (ew_x echo_at_end))) = [Some ''in'', None]"
  by code_simp

lemma echo_at_end_reachable: "echo_ws_reachable echo_mj echo_at_end"
  by (rule run_from_start_reachable [where init = echo_ws_start, OF echo_begin_start echo_ended_run])

lemmas echo_run_simps = echo_at_end_def writer_step_def write_begin_def write_end_def close_write_def store_once_def
  pipe_new_def pipe_read_def do_read_def copyBufSize_def copy_read_def WriterFunc_Write_def ws_output_def copy_wrote_def
  read_close_error_def echo_Do_def do_result_def serve_returns_def reader_signal_def reader_recv_def

definition echo_rest_of :: "echo_event list" where
  "echo_rest_of = [EchoOther WsWriter, EchoOther WsWriter, EchoRead, EchoWrite None, EchoOther WsWriter,
     EchoOther WsWriter, EchoOther WsWriter, EchoRead, EchoReturn]"

theorem echo_sends_input_back_witness:
  "\<exists>y. run_events (echo_ws_step echo_mj) (echo_ended @ echo_rest_of) echo_begin = Some y \<and>
     wx_result (ew_x y) = Some \<lparr>Value = Some [''a''], Reason = None\<rparr> \<and>
     sent_text (wx_sent (ew_x y)) = input_of (sp_queue (client_means (wx_msgs (ew_x y))))"
proof -
  obtain y where y: "run_events (echo_ws_step echo_mj) echo_rest_of echo_at_end = Some y"
      "wx_result (ew_x y) = Some \<lparr>Value = Some [''a''], Reason = None\<rparr>"
    by (simp add: echo_rest_of_def echo_run_simps)
  have "echo_ws_reachable echo_mj y" by (rule run_events_reachable [OF echo_at_end_reachable y(1)])
  then show ?thesis using echo_sends_input_back [of echo_mj y] y by (simp add: run_events_append echo_ended_run)
qed

theorem echo_failures_witness:
  "\<exists>y e. run_events (echo_ws_step echo_mj) (echo_ended @
        [EchoOther WsWriter, EchoOther WsWriter, EchoRead, EchoWrite (Some (Foreign ''broken'')), EchoReturn]) echo_begin = Some y \<and>
     wx_result (ew_x y) = Some \<lparr>Value = None, Reason = Some e\<rparr> \<and> (\<exists>w. e = Errorf ''process returned error: ''
        (Errorf ''failed to copy: '' (Errorf ''failed to write to connection: '' w []) []) [])"
proof -
  obtain y where y: "run_events (echo_ws_step echo_mj)
        [EchoOther WsWriter, EchoOther WsWriter, EchoRead, EchoWrite (Some (Foreign ''broken'')), EchoReturn] echo_at_end = Some y"
      "wx_result (ew_x y) = Some \<lparr>Value = None, Reason = Some (Errorf ''process returned error: ''
        (Errorf ''failed to copy: '' (Errorf ''failed to write to connection: '' (Foreign ''broken'') []) []) [])\<rparr>" "wx_ctx (ew_x y) = None"
    by (simp add: echo_run_simps)
  have "echo_ws_reachable echo_mj y" by (rule run_events_reachable [OF echo_at_end_reachable y(1)])
  from echo_failures [OF this y(2)] show ?thesis using y
    by (auto simp: run_events_append echo_ended_run ErrCancelProtocolError_def ErrCancelTimeout_def simp del: run_events.simps)
qed

theorem echo_completes_witness:
  "\<exists>es z. list_all echo_work es \<and> run_events (echo_ws_step echo_mj) es echo_at_end = Some z \<and>
     sent_text (wx_sent (ew_x z)) = ''in'' \<and> suffix [FBinary ''{\"status\":\"fulfilled\",\"value\":[\"a\"]}'', FClose] (wx_sent (ew_x z))"
proof -
  have "wx_main (ew_x echo_at_end) = MDo \<lparr>cm_call = ''echo'', cm_params = [''a'']\<rparr>" "wx_conn (ew_x echo_at_end) = None"
      "\<forall>err. ew_pc echo_at_end \<noteq> CopyDone (Some err)" "wx_ctx (ew_x echo_at_end) = None"
    by (simp_all add: echo_at_end_def)
  moreover have "Result_MarshalJSON echo_mj (Some (do_result (Some [''a'']) None)) = ''{\"status\":\"fulfilled\",\"value\":[\"a\"]}''"
    by code_simp
  ultimately show ?thesis using echo_completes [OF echo_at_end_reachable] by (simp add: echo_at_end_input)
qed

end
