(* ===== verification/EchoRest.thy ===== *)
theory EchoRest
  imports Echo
begin

text \<open>
  The example process in a REST session: its status shows what it echoed, and closing its input
  makes it fail.
\<close>

section \<open>Every step is one of the session\<close>

fun sess_event_of :: "echo_rest_event \<Rightarrow> ('rb, 'lb) echo_rest \<Rightarrow> bytes list sess_event" where
  "sess_event_of ErGet z = (case echo_Get (cm_call (ss_call (sy_s (er_y z)))) of None \<Rightarrow> EGetOk | Some e \<Rightarrow> EGetErr e)"
| "sess_event_of ErRead z = EDoRead copyBufSize"
| "sess_event_of ErWrite z = EDoWrite (case er_pc z of CopyWrite d \<Rightarrow> d | _ \<Rightarrow> [])"
| "sess_event_of ErReturn z =
     (case er_pc z of
        CopyDone e \<Rightarrow> EDoReturn (fst (echo_Do (cm_params (ss_call (sy_s (er_y z)))) e (ss_context (sy_s (er_y z)))))
          (snd (echo_Do (cm_params (ss_call (sy_s (er_y z)))) e (ss_context (sy_s (er_y z)))))
      | _ \<Rightarrow> EDoReturn None None)"
| "sess_event_of (ErOther e) z = e"

lemma echo_rest_step_sess:
  "echo_rest_step ops e z = Some w \<Longrightarrow> sess_step ops (sess_event_of e z) (er_y z) = Some (er_y w)"
  by (cases e) (auto simp: Let_def simp del: sess_step.simps split: copy_pc.splits if_splits prod.splits)

interpretation echo_rest: refined_system "echo_rest_start ops" "echo_rest_step ops" "sess_start ops" "sess_step ops" er_y
  for ops :: "('rb, 'lb) buf_ops"
proof unfold_locales
  show "echo_rest_start ops z \<Longrightarrow> sess_start ops (er_y z)" for z :: "('rb, 'lb) echo_rest" by (simp add: echo_rest_start_def)
  show "echo_rest_step ops e z = Some w \<Longrightarrow> \<exists>f. sess_step ops f (er_y z) = Some (er_y w)" for e and z w :: "('rb, 'lb) echo_rest"
    by (blast dest: echo_rest_step_sess)
qed

section \<open>The invariant\<close>

abbreviation er_s :: "('rb, 'lb) echo_rest \<Rightarrow> (bytes list, 'rb, 'lb) session" where
  "er_s z \<equiv> sy_s (er_y z)"

fun rest_copy_ok :: "copy_pc \<Rightarrow> ('rb, 'lb) echo_rest \<Rightarrow> bool" where
  "rest_copy_ok CopyRead z \<longleftrightarrow> er_out z = snd (er_io z)"
| "rest_copy_ok (CopyWrite d) z \<longleftrightarrow> er_out z @ d = snd (er_io z)"
| "rest_copy_ok (CopyDone e) z \<longleftrightarrow> er_out z = snd (er_io z) \<and> e \<in> {None, Some io_ErrClosedPipe}"

definition copy_failed :: go_error where
  "copy_failed = Errorf ''failed to copy: '' io_ErrClosedPipe []"

definition rest_outcome :: "bytes list outcome \<Rightarrow> ('rb, 'lb) echo_rest \<Rightarrow> bool" where
  "rest_outcome oc z \<longleftrightarrow>
     (case oc of
        GetFailed e \<Rightarrow> e = ErrHandlerUnknownProcess
      | DoReturned v None \<Rightarrow> v = Some (cm_params (ss_call (er_s z))) \<and> er_out z = snd (er_io z)
      | DoReturned v (Some e) \<Rightarrow> v = Some (cm_params (ss_call (er_s z))) \<and> ss_context (er_s z) = Some e \<or> v = None \<and> e = copy_failed
      | Panicked r \<Rightarrow> False)"

definition out_shows :: "('rb \<Rightarrow> bytes list) \<Rightarrow> ('rb \<Rightarrow> nat) \<Rightarrow> ('lb \<Rightarrow> bytes) \<Rightarrow> ('rb, 'lb) finbuf \<Rightarrow> bytes \<Rightarrow> bool" where
  "out_shows items cap pend fb d \<longleftrightarrow> fb_shows items cap pend fb d \<and> 1 \<le> fb_MaxLines fb"

definition er_inv :: "('rb \<Rightarrow> bytes list) \<Rightarrow> ('rb \<Rightarrow> nat) \<Rightarrow> ('lb \<Rightarrow> bytes) \<Rightarrow> ('rb, 'lb) echo_rest \<Rightarrow> bool" where
  "er_inv items cap pend z \<longleftrightarrow>
     sess_inv (er_y z) \<and> hist_inv (io_hist (er_y z) (er_io z)) \<and> out_shows items cap pend (ss_out (er_s z)) (er_out z) \<and>
     prefix (er_out z) (snd (er_io z)) \<and>
     (sy_run (er_y z) \<in> {RunNone, RunGet} \<longrightarrow> snd (er_io z) = []) \<and>
     (sy_run (er_y z) = RunDo \<longrightarrow> rest_copy_ok (er_pc z) z) \<and>
     (\<forall>oc. sy_outcome (er_y z) = Some oc \<longrightarrow> rest_outcome oc z)"

text \<open>What an event that is not the handler's leaves alone.\<close>

lemma status_out:
  assumes "ring_laws ops items cap" "out_shows items cap pend (ss_out s) d"
  shows "out_shows items cap pend (ss_out (fst (session_Status ops s))) d"
proof -
  have "out_shows items cap pend (fst (fb_String ops (ss_out s))) d"
    using assms fb_init_shows [OF assms(1), of "ss_out s" pend d] by (simp add: out_shows_def fb_String_def Let_def)
  then show ?thesis using assms(2) by (cases "ss_stage s") (simp_all add: session_Status_def Let_def case_prod_beta)
qed

lemma run_step_frame:
  "run_step y = Some y' \<Longrightarrow> ss_out (sy_s y') = ss_out (sy_s y) \<and> sy_outcome y' = sy_outcome y \<and>
     sy_run y \<notin> {RunNone, RunGet, RunDo} \<and> sy_run y' \<notin> {RunNone, RunGet, RunDo}"
  by (cases "sy_run y") (auto simp: run_step_def inw_Close_def session_cancel_def run_store_def split: if_splits option.splits)

lemma client_step_frame:
  "client_step i y = Some y' \<Longrightarrow> ss_out (sy_s y') = ss_out (sy_s y) \<and> sy_outcome y' = sy_outcome y \<and> sy_run y' = sy_run y"
  by (auto simp: client_step_def set_client_def inw_Close_def inr_Close_def session_cancel_def split: if_splits client_pc.splits)

lemma other_frame:
  assumes "sess_step ops e y = Some y'" "\<not> session_handler_event e" "control_inv y"
  shows "sy_outcome y' = sy_outcome y \<and> (sy_run y' = RunDo \<longleftrightarrow> sy_run y = RunDo) \<and>
    (sy_run y' \<in> {RunNone, RunGet} \<longrightarrow> sy_run y \<in> {RunNone, RunGet}) \<and>
    (ss_out (sy_s y') = ss_out (sy_s y) \<or> e = EStatus)"
proof (cases e)
  case (EStart c)
  then show ?thesis using assms control_inv_running [OF assms(3)] by (auto simp: session_Start_def split: if_splits)
next
  case ERun
  then show ?thesis using assms run_step_frame [of y y'] by auto
next
  case (EClient i)
  then show ?thesis using assms client_step_frame [of i y y'] by auto
next
  case (EWrite d)
  then show ?thesis using assms by (auto simp: session_Write_def)
next
  case EWriteEnd
  then show ?thesis using assms by (auto simp: session_Write_end_def Let_def split: write_result.splits prod.splits)
qed (use assms in \<open>auto simp: session_cancel_def set_client_def inw_Close_def split: if_splits\<close>)

lemma other_io: "\<not> session_handler_event e \<Longrightarrow> snd (io_step e y io) = snd io"
  by (cases e; cases io) (auto split: option.splits write_result.splits prod.splits)

lemma rest_outcome_grows:
  assumes "rest_outcome oc z" "sess_grows (er_s z) (er_s w)" "ss_stage (er_s z) \<noteq> stageInit"
    "er_out w = er_out z" "snd (er_io w) = snd (er_io z)"
  shows "rest_outcome oc w"
  using assms by (auto simp: rest_outcome_def sess_grows_def keeps_def split: outcome.splits option.splits)

lemma outcome_started: "control_inv y \<Longrightarrow> sy_outcome y = Some oc \<Longrightarrow> ss_stage (sy_s y) \<noteq> stageInit \<and> sy_run y \<notin> {RunNone, RunGet, RunDo}"
  by (cases "sy_run y") (auto simp: control_inv_def)

lemma er_inv_other:
  assumes laws: "ring_laws ops items cap" and i: "er_inv items cap pend z" and s: "sess_step ops e (er_y z) = Some y"
    and h: "\<not> session_handler_event e"
  shows "er_inv items cap pend (z\<lparr>er_y := y, er_io := io_step e (er_y z) (er_io z)\<rparr>)"
proof -
  let ?w = "z\<lparr>er_y := y, er_io := io_step e (er_y z) (er_io z)\<rparr>"
  have inv: "sess_inv (er_y z)" "control_inv (er_y z)" using i by (simp_all add: er_inv_def sess_inv_def)
  note f = other_frame [OF s h inv(2)]
  have g: "sess_grows (er_s z) (sy_s y)" using sess.step_rel [OF inv(1) s] by (simp add: sess_sys_grows_def)
  have "out_shows items cap pend (ss_out (sy_s y)) (er_out z)"
  proof (cases "e = EStatus")
    case True
    then show ?thesis using s i status_out [OF laws] by (auto simp: er_inv_def)
  next
    case False
    then show ?thesis using f i by (auto simp: er_inv_def)
  qed
  moreover have "rest_outcome oc ?w" if "sy_outcome y = Some oc" for oc
  proof -
    have o: "sy_outcome (er_y z) = Some oc" using that f by simp
    then have "rest_outcome oc z" using i by (simp add: er_inv_def)
    then show ?thesis
      by (rule rest_outcome_grows) (use g outcome_started [OF inv(2) o] in \<open>simp_all add: other_io [OF h]\<close>)
  qed
  moreover have "rest_copy_ok (er_pc z) ?w" if "rest_copy_ok (er_pc z) z"
    using that by (cases "er_pc z") (simp_all add: other_io [OF h])
  ultimately show ?thesis
    using i f sess.step_inv [OF inv(1) s] sess_step_io [OF s, of "er_io z"] by (auto simp: er_inv_def other_io [OF h])
qed

lemma er_inv_get:
  assumes i: "er_inv items cap pend z" and s: "echo_rest_step ops ErGet z = Some w"
  shows "er_inv items cap pend w"
proof -
  have r: "sy_run (er_y z) = RunGet" using s by (auto simp: echo_Get_def split: if_splits)
  have n: "snd (er_io z) = []" "er_out z = []" "sy_outcome (er_y z) = None"
    using i r by (auto simp: er_inv_def sess_inv_def control_inv_def)
  have "sess_inv (er_y w)" using i sess.step_inv [OF _ echo_rest_step_sess [OF s]] by (simp add: er_inv_def)
  then show ?thesis using s i r n
    by (auto simp: er_inv_def echo_Get_def io_hist_def end_closure_def rest_outcome_def outcome_started split: if_splits)
qed

lemma er_inv_read:
  assumes i: "er_inv items cap pend z" and s: "echo_rest_step ops ErRead z = Some w"
  shows "er_inv items cap pend w"
proof -
  let ?y = "er_y z" and ?p = "ss_pipe (er_s z)"
  have pc: "er_pc z = CopyRead" and st: "sess_step ops (EDoRead copyBufSize) ?y = Some (er_y w)"
    and w: "er_pc w = copy_read (fst (pipe_read copyBufSize ?p))" "er_io w = io_step (EDoRead copyBufSize) ?y (er_io z)" "er_out w = er_out z"
    using s by (auto simp del: sess_step.simps io_step.simps split: if_splits)
  have run: "sy_run ?y = RunDo" using st by (auto split: if_splits)
  obtain r q where r: "pipe_read copyBufSize ?p = (r, q)" by force
  have y: "er_y w = ?y\<lparr>sy_s := (er_s z)\<lparr>ss_pipe := q\<rparr>\<rparr>" "r \<noteq> ReadBlocks"
    using st run r by (auto split: read_result.splits)
  have "sess_inv (er_y w)" using i sess.step_inv [OF _ st] by (simp add: er_inv_def)
  moreover have "hist_inv (io_hist (er_y w) (er_io w))" using i sess_step_io [OF st] by (simp add: er_inv_def w(2))
  moreover have "er_out z = snd (er_io z)" "sy_outcome ?y = None"
    using i run pc by (auto simp: er_inv_def sess_inv_def control_inv_def)
  moreover have "pipe_ok ?p" using i by (simp add: er_inv_def sess_inv_def ends_inv_def)
  ultimately show ?thesis using i w r y run pc
    by (cases r; cases "er_io z")
      (auto simp: er_inv_def copy_read_def pipe_ok_def read_close_error_def err_simps dest!: pipe_read_err split: option.splits)
qed

lemma er_inv_write:
  assumes laws: "ring_laws ops items cap" "line_laws ops pend"
    and i: "er_inv items cap pend z" and s: "echo_rest_step ops ErWrite z = Some w"
  shows "er_inv items cap pend w"
proof -
  obtain d where pc: "er_pc z = CopyWrite d" using s by (cases "er_pc z") auto
  have run: "sy_run (er_y z) = RunDo" using s pc by (auto split: if_splits)
  have o: "fb_shows items cap pend (ss_out (er_s z)) (er_out z)" "1 \<le> fb_MaxLines (ss_out (er_s z))"
    using i by (simp_all add: er_inv_def out_shows_def)
  note f = fb_Write_shows [OF laws o(2,1), of d]
  have "sess_inv (er_y w)" using i sess.step_inv [OF _ echo_rest_step_sess [OF s]] by (simp add: er_inv_def)
  moreover have "er_out z @ d = snd (er_io z)" "sy_outcome (er_y z) = None"
    using i run pc by (auto simp: er_inv_def sess_inv_def control_inv_def)
  ultimately show ?thesis using i s pc run f o(2)
    by (auto simp: er_inv_def out_shows_def io_hist_def)
qed

lemma er_inv_return:
  assumes i: "er_inv items cap pend z" and s: "echo_rest_step ops ErReturn z = Some w"
  shows "er_inv items cap pend w"
proof -
  obtain e where pc: "er_pc z = CopyDone e" using s by (cases "er_pc z") auto
  have run: "sy_run (er_y z) = RunDo" using s pc by (auto simp: Let_def split: if_splits prod.splits)
  have c: "er_out z = snd (er_io z)" "e \<in> {None, Some io_ErrClosedPipe}" using i run pc by (auto simp: er_inv_def)
  have "sess_inv (er_y w)" using i sess.step_inv [OF _ echo_rest_step_sess [OF s]] by (simp add: er_inv_def)
  then show ?thesis using i s pc run c
    by (cases "ss_context (er_s z)")
      (auto simp: er_inv_def io_hist_def end_closure_def rest_outcome_def echo_Do_def copy_failed_def Let_def)
qed

lemma er_inv_step:
  assumes "ring_laws ops items cap" "line_laws ops pend" "er_inv items cap pend z" "echo_rest_step ops e z = Some w"
  shows "er_inv items cap pend w"
proof (cases e)
  case (ErOther f)
  then show ?thesis using assms er_inv_other [OF assms(1,3), of f] by (auto split: if_splits)
qed (use assms er_inv_get er_inv_read er_inv_write [OF assms(1,2)] er_inv_return in blast)+

lemma er_inv_start:
  assumes "line_laws ops pend" "echo_rest_start ops z"
  shows "er_inv items cap pend z"
proof -
  have s: "sess_start ops (er_y z)" using assms(2) by (simp add: echo_rest_start_def)
  then obtain parent opt n where y: "er_y z = \<lparr>sy_s = session_Init parent opt (session_zero ops), sy_run = RunNone,
      sy_outcome = None, sy_clients = replicate n Idle, sy_gets = 0, sy_dos = 0\<rparr>"
    unfolding sess_start_def by blast
  have "(fb_new ops 0)\<lparr>fb_MaxLines := k\<rparr> = fb_new ops k" for k by (simp add: fb_new_def)
  then have "out_shows items cap pend (ss_out (er_s z)) []"
    using fb_new_shows [OF assms(1)]
    by (simp add: y out_shows_def session_Init_def session_zero_def session_SetDefaults_def minMaxLines_def Let_def)
  then show ?thesis using assms(2) start_io_hist [OF s] sess.init_inv [OF s]
    by (simp add: er_inv_def echo_rest_start_def y)
qed

lemma er_inv_reachable:
  assumes "ring_laws ops items cap" "line_laws ops pend" "echo_rest_reachable ops z"
  shows "er_inv items cap pend z"
  using assms(3) by (induction rule: reachable_in.induct) (use er_inv_start er_inv_step assms(1,2) in blast)+


section \<open>What a client sees\<close>

text \<open>
  Property C12. The status of an echo process shows the last complete lines of a prefix of what the
  requests wrote, in order; and when it reports success the value are the parameters of the
  call and everything the process has read was written.
\<close>

theorem rest_echo_status:
  assumes "ring_laws ops items cap" and "line_laws ops pend" and "echo_rest_reachable ops z"
  shows "prefix (er_out z) (fst (er_io z)) \<and>
    (ss_stage (sy_s (er_y z)) \<noteq> stageInit \<longrightarrow> st_Buffer (snd (session_Status ops (sy_s (er_y z)))) =
       join_with [newline] (lastn (nat (fb_MaxLines (ss_out (sy_s (er_y z))))) (complete_lines (er_out z)))) \<and>
    (\<forall>v. st_Result (snd (session_Status ops (sy_s (er_y z)))) = Some \<lparr>Value = v, Reason = None\<rparr> \<longrightarrow>
       v = Some (cm_params (ss_call (sy_s (er_y z)))) \<and> er_out z = snd (er_io z))"
proof -
  have i: "er_inv items cap pend z" by (rule er_inv_reachable [OF assms])
  have p: "prefix (er_out z) (fst (er_io z))"
    using i by (auto simp: er_inv_def hist_inv_def io_hist_def intro: prefix_order.trans)
  have "snd (fb_String ops (ss_out (er_s z))) =
      join_with [newline] (lastn (nat (fb_MaxLines (ss_out (er_s z)))) (complete_lines (er_out z)))"
    using i fb_String_shows [OF assms(1)] by (auto simp: er_inv_def out_shows_def)
  then have b: "ss_stage (er_s z) \<noteq> stageInit \<longrightarrow> st_Buffer (snd (session_Status ops (er_s z))) =
      join_with [newline] (lastn (nat (fb_MaxLines (ss_out (er_s z)))) (complete_lines (er_out z)))"
    by (cases "ss_stage (er_s z)") (simp_all add: session_Status_def Let_def case_prod_beta)
  have "v = Some (cm_params (ss_call (er_s z))) \<and> er_out z = snd (er_io z)"
    if v: "st_Result (snd (session_Status ops (er_s z))) = Some \<lparr>Value = v, Reason = None\<rparr>" for v
  proof -
    have "ss_stage (er_s z) = stageFinished" "ss_result (er_s z) = v" "ss_err (er_s z) = None"
      using v by (cases "ss_stage (er_s z)"; simp add: session_Status_def Let_def case_prod_beta)+
    then obtain oc where "sy_outcome (er_y z) = Some oc" "run_result oc = (v, None)"
      using i by (cases "sy_run (er_y z)") (auto simp: er_inv_def sess_inv_def control_inv_def)
    then show ?thesis using i
      by (cases oc) (auto simp: er_inv_def run_result_def rest_outcome_def split: option.splits)
  qed
  then show ?thesis using p b by blast
qed

text \<open>The reader's end is closed while the copy still goes on; from then on it can only fail.\<close>

definition doomed :: "('rb \<Rightarrow> bytes list) \<Rightarrow> ('rb \<Rightarrow> nat) \<Rightarrow> ('lb \<Rightarrow> bytes) \<Rightarrow> ('rb, 'lb) echo_rest \<Rightarrow> bool" where
  "doomed items cap pend z \<longleftrightarrow> er_inv items cap pend z \<and> p_rerr (ss_pipe (er_s z)) \<noteq> None \<and>
     (sy_run (er_y z) = RunDo \<and> er_pc z \<noteq> CopyDone None \<or> sy_outcome (er_y z) = Some (DoReturned None (Some copy_failed)))"

lemma read_closed_reader:
  "pipe_ok p \<Longrightarrow> p_rerr p \<noteq> None \<Longrightarrow> copy_read (fst (pipe_read k p)) = CopyDone (Some io_ErrClosedPipe)"
  by (auto simp: pipe_ok_def copy_read_def read_close_error_def err_simps)

lemma doomed_step:
  assumes laws: "ring_laws ops items cap" "line_laws ops pend"
    and d: "doomed items cap pend z" and s: "echo_rest_step ops e z = Some w"
  shows "doomed items cap pend w"
proof -
  have i: "er_inv items cap pend z" "sess_inv (er_y z)" "control_inv (er_y z)"
    using d by (simp_all add: doomed_def er_inv_def sess_inv_def)
  have r: "p_rerr (ss_pipe (er_s w)) \<noteq> None"
    using d sess.step_rel [OF i(2) echo_rest_step_sess [OF s]]
    by (auto simp: doomed_def sess_sys_grows_def sess_grows_def keeps_def)
  have w: "er_inv items cap pend w" by (rule er_inv_step [OF laws i(1) s])
  have o: "sy_run (er_y z) = RunDo \<Longrightarrow> sy_outcome (er_y z) = None" using i(3) by (simp add: control_inv_def)
  have "sy_run (er_y w) = RunDo \<and> er_pc w \<noteq> CopyDone None \<or> sy_outcome (er_y w) = Some (DoReturned None (Some copy_failed))"
  proof (cases e)
    case ErGet
    then show ?thesis using s d outcome_started [OF i(3)] by (auto simp: doomed_def echo_Get_def split: if_splits)
  next
    case ErRead
    have "pipe_ok (ss_pipe (er_s z))" using i(2) by (simp add: sess_inv_def ends_inv_def)
    then have "copy_read (fst (pipe_read copyBufSize (ss_pipe (er_s z)))) = CopyDone (Some io_ErrClosedPipe)"
      using d by (simp add: doomed_def read_closed_reader del: not_None_eq)
    then show ?thesis using ErRead s by (auto split: if_splits read_result.splits prod.splits)
  next
    case ErWrite
    then obtain p where pc: "er_pc z = CopyWrite p" using s by (cases "er_pc z") auto
    have "snd (fb_Write ops p (ss_out (er_s z))) = (length p, None)"
      using i(1) fb_Write_shows [OF laws] by (auto simp: er_inv_def out_shows_def)
    then show ?thesis using ErWrite s pc by (auto split: if_splits)
  next
    case ErReturn
    then obtain c where pc: "er_pc z = CopyDone c" using s by (cases "er_pc z") auto
    then have run: "sy_run (er_y z) = RunDo" using ErReturn s by (auto simp: Let_def split: if_splits prod.splits)
    then have "c = Some io_ErrClosedPipe" using d o i(1) pc by (auto simp: doomed_def er_inv_def)
    then show ?thesis using ErReturn s pc run by (auto simp: echo_Do_def copy_failed_def end_closure_def)
  next
    case (ErOther f)
    then have f: "sess_step ops f (er_y z) = Some (er_y w)" "\<not> session_handler_event f" "er_pc w = er_pc z"
      using s by (auto simp del: sess_step.simps split: if_splits)
    show ?thesis using other_frame [OF f(1,2) i(3)] f(3) d by (auto simp: doomed_def)
  qed
  then show ?thesis using r w by (simp add: doomed_def)
qed

text \<open>
  Property C13. A REST client that closes the input of an echo process, as one has to in order to
  end it, makes it fail: once \<open>CloseInput\<close> or \<open>CloseWith\<close> has closed both ends while the process
  is still copying, its outcome can only be the error of the copy, whatever happens.
\<close>

theorem rest_echo_fails_when_closed:
  assumes "ring_laws ops items cap" and "line_laws ops pend" and "echo_rest_reachable ops z"
    and "i < length (sy_clients (er_y z))" and "sy_clients (er_y z) ! i \<in> {CI_returned, CW_wait}"
    and "sy_run (er_y z) = RunDo" and "\<forall>e. er_pc z \<noteq> CopyDone e"
    and "run_events (echo_rest_step ops) es z = Some w" and "sy_outcome (er_y w) = Some oc"
  shows "oc = DoReturned None (Some (Errorf ''failed to copy: '' io_ErrClosedPipe []))"
proof -
  have i: "er_inv items cap pend z" by (rule er_inv_reachable [OF assms(1-3)])
  have "client_ok (er_s z) (sy_clients (er_y z) ! i)"
    using i assms(4) by (simp add: er_inv_def sess_inv_def clients_inv_def list_all_length)
  then have "doomed items cap pend z" using i assms(5-7) by (auto simp: doomed_def)
  then have "doomed items cap pend w" using assms(8)
  proof (induction es arbitrary: z)
    case (Cons e es)
    then obtain u where u: "echo_rest_step ops e z = Some u" "run_events (echo_rest_step ops) es u = Some w"
      by (auto split: option.splits)
    then show ?case using Cons.IH [OF doomed_step [OF assms(1,2) Cons.prems(1) u(1)]] by blast
  qed simp
  moreover have "sy_run (er_y w) \<noteq> RunDo"
    using outcome_started [of "er_y w"] assms(9) calculation by (auto simp: doomed_def er_inv_def sess_inv_def)
  ultimately show ?thesis using assms(9) by (simp add: doomed_def copy_failed_def)
qed

section \<open>Runs\<close>

definition echo_rest_begin :: "(nat \<times> bytes list, bytes) echo_rest" where
  "echo_rest_begin = \<lparr>er_pc = CopyRead, er_y = \<lparr>sy_s = session_Init None \<lparr>so_MaxLines = 0\<rparr> (session_zero list_ops),
     sy_run = RunNone, sy_outcome = None, sy_clients = [Idle], sy_gets = 0, sy_dos = 0\<rparr>, er_io = ([], []), er_out = []\<rparr>"

lemma echo_rest_begin_reachable:
  "run_events (echo_rest_step list_ops) es echo_rest_begin = Some z \<Longrightarrow> echo_rest_reachable list_ops z"
proof (rule run_from_start_reachable [where init = "echo_rest_start list_ops"])
  have "\<exists>n. [Idle] = replicate n Idle" by (rule exI [of _ 1]) simp
  then show "echo_rest_start list_ops echo_rest_begin"
    by (auto simp: echo_rest_start_def echo_rest_begin_def sess_start_def)
qed

definition echo_rest_line :: "echo_rest_event list" where
  "echo_rest_line = [ErOther (EStart \<lparr>cm_call = ''echo'', cm_params = [''a'']\<rparr>), ErGet,
     ErOther (EWrite (''in'' @ [newline])), ErRead, ErWrite, ErOther EWriteEnd]"

lemmas echo_rest_simps = echo_rest_begin_def echo_rest_line_def session_Init_def session_zero_def session_Start_def
  session_SetDefaults_def session_Write_def session_Write_end_def wrap_write_def end_closure_def run_step_def client_step_def
  set_client_def inw_Close_def inr_Close_def rlocked_def run_store_def run_result_def session_cancel_def pipe_defs read_close_error_def
  copy_read_def copyBufSize_def copy_wrote_def echo_Get_def echo_Do_def fb_Write_def fb_new_def fb_init_def fb_line_def
  list_ops_def complete_lines_def partial_line_def lastn_def err_simps

theorem rest_echo_status_witness:
  "\<exists>z. run_events (echo_rest_step list_ops) echo_rest_line echo_rest_begin = Some z \<and>
     st_Buffer (snd (session_Status list_ops (sy_s (er_y z)))) = ''in''"
proof -
  obtain z where z: "run_events (echo_rest_step list_ops) echo_rest_line echo_rest_begin = Some z" "er_out z = ''in'' @ [newline]"
      "ss_stage (er_s z) \<noteq> stageInit" "1 \<le> fb_MaxLines (ss_out (er_s z))"
    by (simp add: echo_rest_simps minMaxLines_def)
  show ?thesis using rest_echo_status [OF list_ops_laws echo_rest_begin_reachable [OF z(1)]] z
    by (simp add: complete_lines_def lastn_def)
qed

theorem rest_echo_fails_when_closed_witness:
  "\<exists>w. run_events (echo_rest_step list_ops) (echo_rest_line @ [ErOther (ECloseInput 0), ErOther (EClient 0), ErRead, ErReturn])
       echo_rest_begin = Some w \<and>
     sy_outcome (er_y w) = Some (DoReturned None (Some (Errorf ''failed to copy: '' io_ErrClosedPipe [])))"
proof -
  obtain z where z: "run_events (echo_rest_step list_ops) (echo_rest_line @ [ErOther (ECloseInput 0), ErOther (EClient 0)])
       echo_rest_begin = Some z" "sy_clients (er_y z) = [CI_returned]" "sy_run (er_y z) = RunDo" "er_pc z = CopyRead"
      "\<exists>w. run_events (echo_rest_step list_ops) [ErRead, ErReturn] z = Some w \<and> sy_outcome (er_y w) \<noteq> None"
    by (simp add: echo_rest_simps)
  then obtain w oc where w: "run_events (echo_rest_step list_ops) [ErRead, ErReturn] z = Some w" "sy_outcome (er_y w) = Some oc" by blast
  have "oc = DoReturned None (Some (Errorf ''failed to copy: '' io_ErrClosedPipe []))"
    using rest_echo_fails_when_closed [OF list_ops_laws echo_rest_begin_reachable [OF z(1)] _ _ z(3) _ w, of 0] z(2,4) by simp
  moreover have "run_events (echo_rest_step list_ops) ((echo_rest_line @ [ErOther (ECloseInput 0), ErOther (EClient 0)]) @ [ErRead, ErReturn])
      echo_rest_begin = Some w"
    using z(1) w(1) by (simp only: run_events_append [of _ "echo_rest_line @ _"] option.case)
  ultimately show ?thesis using w(2) by (intro exI [of _ w]) (simp add: append_assoc)
qed

text \<open>Between the two closes of \<open>CloseInput\<close> there is a moment in which the copy ends well.\<close>

lemma rest_echo_race:
  "\<exists>w. run_events (echo_rest_step list_ops) (echo_rest_line @ [ErOther (ECloseInput 0), ErRead, ErOther (EClient 0), ErReturn])
       echo_rest_begin = Some w \<and> sy_outcome (er_y w) = Some (DoReturned (Some [''a'']) None)"
  by (simp add: echo_rest_simps)

end
