(* ===== verification/ExampleServer.thy ===== *)
theory ExampleServer
  imports Server EchoWs EchoRest
begin

text \<open>
  \<open>main\<close> of \<open>cmd/exampleserver/main.go\<close>: it serves until a signal arrives, shuts the server down,
  then the HTTP server, and returns. The handler is the echo process of \<open>Echo\<close>.
\<close>

section \<open>The server\<close>

definition example_options :: server_options where
  "example_options = \<lparr>so_BasePath = [], so_DisableWebsocket = False, so_DisableREST = False,
     so_RESTOptions = \<lparr>ro_Timeout = 0, ro_DisableSwaggerUI = False,
       ro_OpenAPIServerDescription = ''Process Over Websocket Testing Server'', ro_Session = \<lparr>so_MaxLines = 0\<rparr>\<rparr>\<rparr>"

text \<open>
  Where \<open>main\<close> is: before \<open>net.Listen\<close>, in \<open>Serve\<close>, at the receive from \<open>done\<close>, or over. Where the
  goroutine is: not started, waiting for the context, in \<open>server.Shutdown\<close> (whose goroutines are
  those of \<open>Server\<close>), in \<open>http_server.Shutdown\<close>, or over with \<open>done\<close> closed.
\<close>

datatype example_main = ExListen | ExServe | ExWait | ExReturned | ExPanicked

datatype example_stop = ExNone | ExNotified | ExShutdown "stop_pc list" | ExHttp | ExClosed

text \<open>\<open>ex_signal\<close> is the context, \<open>ex_returned\<close> the calls of the two servers that have returned.\<close>

record example =
  ex_server :: server
  ex_main :: example_main
  ex_stop :: example_stop
  ex_signal :: bool
  ex_returned :: "stop_call list"

definition example_begin :: example where
  "example_begin = \<lparr>ex_server = server_zero example_options, ex_main = ExListen, ex_stop = ExNone,
     ex_signal = False, ex_returned = []\<rparr>"

text \<open>
  A signal; \<open>net.Listen\<close> succeeds or fails; a request, which initialises the server and may come
  on an open connection after \<open>Serve\<close> returned; the goroutine wakes up; the goroutines of \<open>server.Shutdown\<close> move; their calls return; \<open>server.Shutdown\<close> and
  \<open>http_server.Shutdown\<close> return; \<open>Serve\<close> returns, because of the latter (\<open>True\<close>) or of its
  listener; \<open>main\<close> receives from \<open>done\<close>.
\<close>

datatype example_event =
    ExSignal | ExListened bool | ExRequest | ExWake | ExStep nat | ExCallReturns stop_call
  | ExShutdownReturns | ExHttpReturns | ExServeReturns bool | ExDone

definition example_ret :: "example \<Rightarrow> stop_call \<Rightarrow> bool" where
  "example_ret x call \<longleftrightarrow> call \<in> set (ex_returned x)"

lemma example_ret_stop [simp]: "example_ret (x\<lparr>ex_stop := p\<rparr>) = example_ret x" "example_ret (x\<lparr>ex_server := s\<rparr>) = example_ret x"
  "example_ret (x\<lparr>ex_signal := b\<rparr>) = example_ret x" "example_ret (x\<lparr>ex_main := m\<rparr>) = example_ret x"
  by (simp_all add: fun_eq_iff example_ret_def)

fun example_step :: "example_event \<Rightarrow> example \<Rightarrow> example option" where
  "example_step ExSignal x = Some (x\<lparr>ex_signal := True\<rparr>)"
| "example_step (ExListened ok) x =
     (if ex_main x = ExListen then Some (if ok then x\<lparr>ex_main := ExServe, ex_stop := ExNotified\<rparr> else x\<lparr>ex_main := ExPanicked\<rparr>)
      else None)"
| "example_step ExRequest x =
     (if ex_main x \<in> {ExServe, ExWait} then Some (x\<lparr>ex_server := server_doInit (ex_server x)\<rparr>) else None)"
| "example_step ExWake x =
     (if ex_stop x = ExNotified \<and> ex_signal x
      then (let (server, pcs) = server_Shutdown (ex_server x) in Some (x\<lparr>ex_server := server, ex_stop := ExShutdown pcs\<rparr>))
      else None)"
| "example_step (ExStep i) x =
     (case ex_stop x of
        ExShutdown pcs \<Rightarrow> map_option (\<lambda>pcs. x\<lparr>ex_stop := ExShutdown pcs\<rparr>) (stop_step (ex_server x) (example_ret x) i pcs)
      | _ \<Rightarrow> None)"
| "example_step (ExCallReturns call) x =
     (case ex_stop x of
        ExShutdown pcs \<Rightarrow> if StopCalled call \<in> set pcs then Some (x\<lparr>ex_returned := call # ex_returned x\<rparr>) else None
      | _ \<Rightarrow> None)"
| "example_step ExShutdownReturns x =
     (case ex_stop x of
        ExShutdown pcs \<Rightarrow> if stop_returned pcs then Some (x\<lparr>ex_stop := ExHttp\<rparr>) else None
      | _ \<Rightarrow> None)"
| "example_step ExHttpReturns x = (if ex_stop x = ExHttp then Some (x\<lparr>ex_stop := ExClosed\<rparr>) else None)"
| "example_step (ExServeReturns closed) x =
     (if ex_main x = ExServe \<and> (closed \<longrightarrow> ex_stop x \<in> {ExHttp, ExClosed}) then Some (x\<lparr>ex_main := ExWait\<rparr>) else None)"
| "example_step ExDone x =
     (if ex_main x = ExWait \<and> ex_stop x = ExClosed then Some (x\<lparr>ex_main := ExReturned\<rparr>) else None)"

section \<open>The order of shutting down\<close>

definition example_calls :: "stop_call list" where
  "example_calls = [CallWsShutdown, CallRestClose]"

definition both_servers :: "server \<Rightarrow> bool" where
  "both_servers s \<longleftrightarrow> sv_rest s \<noteq> None \<and> sv_websocket s \<noteq> None"

text \<open>The server is the zero one until the first request or \<open>Shutdown\<close>, and then has both parts.\<close>

definition example_inv :: "example \<Rightarrow> bool" where
  "example_inv x \<longleftrightarrow>
     (ex_server x = server_zero example_options \<or> sv_handler (ex_server x) \<noteq> None \<and> both_servers (ex_server x)) \<and>
     (case ex_stop x of
        ExNone \<Rightarrow> ex_main x \<in> {ExListen, ExPanicked}
      | ExNotified \<Rightarrow> ex_main x \<in> {ExServe, ExWait}
      | ExShutdown pcs \<Rightarrow> ex_main x \<in> {ExServe, ExWait} \<and> ex_signal x \<and> both_servers (ex_server x) \<and>
          list_all2 (stop_ok (ex_server x) (example_ret x)) example_calls pcs
      | ExHttp \<Rightarrow> ex_main x \<in> {ExServe, ExWait} \<and> ex_signal x \<and> set example_calls \<subseteq> set (ex_returned x)
      | ExClosed \<Rightarrow> ex_main x \<in> {ExServe, ExWait, ExReturned} \<and> ex_signal x \<and> set example_calls \<subseteq> set (ex_returned x))"

lemma doInit_again: "sv_handler s \<noteq> None \<Longrightarrow> server_doInit s = s"
  by (simp add: server_doInit_def)

lemma doInit_example: "both_servers (server_doInit (server_zero example_options)) \<and> sv_handler (server_doInit (server_zero example_options)) \<noteq> None"
  by (simp add: server_doInit_def server_zero_def example_options_def both_servers_def)

lemma example_doInit: "example_inv x \<Longrightarrow> both_servers (server_doInit (ex_server x)) \<and> sv_handler (server_doInit (ex_server x)) \<noteq> None"
  using doInit_example doInit_again [of "ex_server x"] by (auto simp: example_inv_def)

lemma stop_ok_more: "stop_ok s ret c pc \<Longrightarrow> (\<And>c. ret c \<Longrightarrow> ret' c) \<Longrightarrow> stop_ok s ret' c pc"
  by (auto simp: stop_ok_def)

lemma stop_ok_done: "both_servers s \<Longrightarrow> stop_ok s ret c StopDone \<Longrightarrow> ret c"
  by (cases c) (auto simp: stop_ok_def stop_nil_def both_servers_def)

lemma example_shutdown: "snd (server_Shutdown s) = map StopBegin example_calls" "fst (server_Shutdown s) = server_doInit s"
  by (simp_all add: server_Shutdown_def example_calls_def)

lemma example_inv_step:
  assumes i: "example_inv x" and s: "example_step e x = Some y"
  shows "example_inv y"
proof (cases e)
  case ExRequest
  then have y: "ex_main x \<in> {ExServe, ExWait}" "y = x\<lparr>ex_server := server_doInit (ex_server x)\<rparr>" using s by (auto split: if_splits)
  have "ex_stop x = ExShutdown pcs \<Longrightarrow> server_doInit (ex_server x) = ex_server x" for pcs
    using i doInit_again [of "ex_server x"] by (auto simp: example_inv_def both_servers_def server_zero_def)
  then show ?thesis using i y example_doInit [OF i] by (auto simp: example_inv_def example_ret_def split: example_stop.splits)
next
  case ExWake
  have "list_all2 (stop_ok s' r) example_calls (map StopBegin example_calls)" for s' r
    by (simp add: example_calls_def stop_ok_def)
  then show ?thesis using i s ExWake example_doInit [OF i]
    by (auto simp: example_inv_def example_shutdown case_prod_beta split: if_splits)
next
  case (ExStep k)
  then show ?thesis using i s stop_ok_step by (auto simp: example_inv_def example_ret_def split: example_stop.splits)
next
  case (ExCallReturns c)
  then obtain pcs where p: "ex_stop x = ExShutdown pcs" "y = x\<lparr>ex_returned := c # ex_returned x\<rparr>"
    using s by (auto split: example_stop.splits if_splits)
  have "list_all2 (stop_ok (ex_server x) (example_ret y)) example_calls pcs"
    using i p by (auto simp: example_inv_def example_ret_def elim!: list_all2_mono stop_ok_more)
  then show ?thesis using i p unfolding example_inv_def by (auto simp del: not_None_eq)
next
  case ExShutdownReturns
  then obtain pcs where p: "ex_stop x = ExShutdown pcs" "stop_returned pcs" "y = x\<lparr>ex_stop := ExHttp\<rparr>"
    using s by (auto split: example_stop.splits if_splits)
  then have "both_servers (ex_server x)" "list_all2 (stop_ok (ex_server x) (example_ret x)) example_calls pcs"
    using i by (simp_all add: example_inv_def)
  then have "set example_calls \<subseteq> set (ex_returned x)"
    using p(2) stop_ok_done [of "ex_server x" "example_ret x"]
    by (auto simp: example_calls_def stop_returned_def list_all2_Cons1 example_ret_def)
  then show ?thesis using i p unfolding example_inv_def by (auto simp del: not_None_eq)
next
  case ExSignal
  then have y: "y = x\<lparr>ex_signal := True\<rparr>" using s by simp
  show ?thesis unfolding y using i by (cases "ex_stop x") (auto simp: example_inv_def simp del: not_None_eq)
next
  case (ExListened ok)
  then have "ex_main x = ExListen" "y = (if ok then x\<lparr>ex_main := ExServe, ex_stop := ExNotified\<rparr> else x\<lparr>ex_main := ExPanicked\<rparr>)"
    using s by (simp_all split: if_splits)
  then show ?thesis using i by (cases "ex_stop x") (auto simp: example_inv_def simp del: not_None_eq)
next
  case ExHttpReturns
  then have "ex_stop x = ExHttp" "y = x\<lparr>ex_stop := ExClosed\<rparr>" using s by (simp_all split: if_splits)
  then show ?thesis using i by (auto simp: example_inv_def simp del: not_None_eq)
next
  case (ExServeReturns closed)
  then have "ex_main x = ExServe" "y = x\<lparr>ex_main := ExWait\<rparr>" using s by (simp_all split: if_splits)
  then show ?thesis using i by (cases "ex_stop x") (auto simp: example_inv_def simp del: not_None_eq)
next
  case ExDone
  then have "ex_stop x = ExClosed" "y = x\<lparr>ex_main := ExReturned\<rparr>" using s by (simp_all split: if_splits)
  then show ?thesis using i by (simp add: example_inv_def del: not_None_eq)
qed

interpretation example: invariant_system "\<lambda>x. x = example_begin" example_step example_inv
proof unfold_locales
  show "x = example_begin \<Longrightarrow> example_inv x" for x by (simp add: example_begin_def example_inv_def)
  show "example_inv x \<Longrightarrow> example_step e x = Some y \<Longrightarrow> example_inv y" for x e y by (rule example_inv_step)
qed


definition example_run :: "example_event list" where
  "example_run = [ExListened True, ExRequest, ExSignal, ExWake, ExStep 1, ExStep 0, ExCallReturns CallRestClose, ExStep 1,
     ExCallReturns CallWsShutdown, ExStep 0, ExShutdownReturns, ExServeReturns True, ExHttpReturns, ExDone]"



section \<open>A signal ends the program\<close>

text \<open>Everything but new signals and requests; the calls that are waited for return.\<close>

fun example_work :: "example_event \<Rightarrow> bool" where
  "example_work ExSignal = False"
| "example_work (ExListened ok) = False"
| "example_work ExRequest = False"
| "example_work _ = True"

fun pc_left :: "stop_call list \<Rightarrow> stop_pc \<Rightarrow> nat" where
  "pc_left ret (StopBegin c) = 3"
| "pc_left ret (StopCalled c) = (if c \<in> set ret then 1 else 2)"
| "pc_left ret StopDone = 0"

definition example_left :: "example \<Rightarrow> nat" where
  "example_left x = (if ex_main x = ExReturned then 0 else 1 + (if ex_main x = ExServe then 1 else 0) +
     (case ex_stop x of
        ExNotified \<Rightarrow> 12
      | ExShutdown pcs \<Rightarrow> 2 + sum_list (map (pc_left (ex_returned x)) pcs)
      | ExHttp \<Rightarrow> 1
      | _ \<Rightarrow> 0))"

definition example_live :: "example \<Rightarrow> bool" where
  "example_live x \<longleftrightarrow> ex_signal x \<and> ex_main x \<in> {ExServe, ExWait, ExReturned}"

lemma stop_work:
  assumes "ex_stop x = ExShutdown pcs" "ex_main x \<noteq> ExReturned" "i < length pcs" "pcs ! i \<noteq> StopDone"
  shows "\<exists>e y. example_work e \<and> example_step e x = Some y \<and> example_left y < example_left x \<and>
    ex_signal y = ex_signal x \<and> ex_main y = ex_main x"
proof -
  obtain as p bs where p: "pcs = as @ p # bs" "p = pcs ! i" "length as = i"
    using assms(3) id_take_nth_drop [of i pcs] by (metis length_take min.absorb4)
  have u: "pcs[i := q] = as @ q # bs" for q using p(3) by (subst p(1)) (simp add: list_update_append)
  show ?thesis
  proof (cases p)
    case (StopBegin c)
    let ?q = "if stop_nil (ex_server x) c then StopDone else StopCalled c"
    have "example_step (ExStep i) x = Some (x\<lparr>ex_stop := ExShutdown (as @ ?q # bs)\<rparr>)"
      using assms StopBegin p(2) u by (simp add: stop_step_def)
    then show ?thesis using assms(1,2) p(1) StopBegin
      by (intro exI [of _ "ExStep i"] exI [of _ "x\<lparr>ex_stop := ExShutdown (as @ ?q # bs)\<rparr>"]) (simp add: example_left_def)
  next
    case (StopCalled c)
    show ?thesis
    proof (cases "c \<in> set (ex_returned x)")
      case True
      then have "example_step (ExStep i) x = Some (x\<lparr>ex_stop := ExShutdown (as @ StopDone # bs)\<rparr>)"
        using assms StopCalled p(2) u by (simp add: stop_step_def example_ret_def)
      then show ?thesis using assms(1,2) p(1) StopCalled True
        by (intro exI [of _ "ExStep i"] exI [of _ "x\<lparr>ex_stop := ExShutdown (as @ StopDone # bs)\<rparr>"]) (simp add: example_left_def)
    next
      case False
      let ?y = "x\<lparr>ex_returned := c # ex_returned x\<rparr>"
      have "pc_left (c # r) q \<le> pc_left r q" for r q by (cases q) auto
      then have "sum_list (map (pc_left (c # ex_returned x)) qs) \<le> sum_list (map (pc_left (ex_returned x)) qs)" for qs
        by (rule sum_list_mono)
      from this [of as] this [of bs]
      have "example_left ?y < example_left x" using assms(1,2) p(1) StopCalled False by (simp add: example_left_def)
      then show ?thesis using assms(1) p(1) StopCalled
        by (intro exI [of _ "ExCallReturns c"] exI [of _ ?y]) simp
    qed
  next
    case StopDone
    then show ?thesis using assms(4) p(2) by simp
  qed
qed

lemma example_progress:
  assumes "example_inv x" "example_live x" "ex_main x \<noteq> ExReturned"
  shows "\<exists>e y. example_work e \<and> example_step e x = Some y \<and> example_left y < example_left x \<and> example_live y"
proof (cases "ex_stop x")
  case ExNone
  then show ?thesis using assms by (auto simp: example_inv_def example_live_def)
next
  case ExNotified
  then show ?thesis using assms
    by (intro exI [of _ ExWake] exI [of _ "x\<lparr>ex_server := server_doInit (ex_server x), ex_stop := ExShutdown (map StopBegin example_calls)\<rparr>"])
      (auto simp: example_live_def example_left_def example_shutdown case_prod_beta example_calls_def)
next
  case (ExShutdown pcs)
  show ?thesis
  proof (cases "stop_returned pcs")
    case True
    then show ?thesis using assms ExShutdown
      by (intro exI [of _ ExShutdownReturns] exI [of _ "x\<lparr>ex_stop := ExHttp\<rparr>"]) (auto simp: example_live_def example_left_def)
  next
    case False
    then obtain i where "i < length pcs" "pcs ! i \<noteq> StopDone" by (auto simp: stop_returned_def list_all_length)
    from stop_work [OF ExShutdown assms(3) this] obtain e y where "example_work e" "example_step e x = Some y"
        "example_left y < example_left x" "ex_signal y = ex_signal x" "ex_main y = ex_main x" by blast
    then show ?thesis using assms(2) by (intro exI [of _ e] exI [of _ y]) (simp add: example_live_def)
  qed
next
  case ExHttp
  then show ?thesis using assms
    by (intro exI [of _ ExHttpReturns] exI [of _ "x\<lparr>ex_stop := ExClosed\<rparr>"]) (auto simp: example_live_def example_left_def)
next
  case ExClosed
  then consider "ex_main x = ExServe" | "ex_main x = ExWait" using assms(2,3) by (auto simp: example_live_def)
  then show ?thesis
  proof cases
    case 1
    then show ?thesis using assms ExClosed
      by (intro exI [of _ "ExServeReturns True"] exI [of _ "x\<lparr>ex_main := ExWait\<rparr>"]) (simp add: example_live_def example_left_def)
  next
    case 2
    then show ?thesis using assms ExClosed
      by (intro exI [of _ ExDone] exI [of _ "x\<lparr>ex_main := ExReturned\<rparr>"]) (simp add: example_live_def example_left_def)
  qed
qed

text \<open>
  Property C40. A signal ends the program: from every state in which it serves and the signal has
  arrived, the work of its goroutines, with the calls they wait for returning, leads to the
  return of \<open>main\<close>, whether or not \<open>Serve\<close> had failed before.
\<close>

theorem signal_ends_main:
  assumes "run_events example_step es example_begin = Some x" and "ex_signal x" and "ex_main x \<in> {ExServe, ExWait}"
  shows "\<exists>fs y. list_all example_work fs \<and> run_events example_step fs x = Some y \<and> ex_main y = ExReturned"
proof -
  have "example_inv x" "example_live x"
    using example.run_inv [OF example.init_inv [OF refl] assms(1)] assms(2,3) by (auto simp: example_live_def)
  then show ?thesis
  proof (induction "example_left x" arbitrary: x rule: less_induct)
    case less
    show ?case
    proof (cases "ex_main x = ExReturned")
      case True
      then show ?thesis by (intro exI [of _ "[]"] exI [of _ x]) simp
    next
      case False
      then obtain e y where y: "example_work e" "example_step e x = Some y" "example_left y < example_left x" "example_live y"
        using example_progress [OF less.prems] by blast
      then obtain fs z where "list_all example_work fs" "run_events example_step fs y = Some z" "ex_main z = ExReturned"
        using less.hyps [OF y(3) example_inv_step [OF less.prems(1) y(2)] y(4)] by blast
      then show ?thesis using y(1,2) by (intro exI [of _ "e # fs"] exI [of _ z]) simp
    qed
  qed
qed

theorem signal_ends_main_witness:
  "\<exists>x fs y. run_events example_step [ExListened True, ExServeReturns False, ExSignal] example_begin = Some x \<and>
     list_all example_work fs \<and> run_events example_step fs x = Some y \<and> ex_main y = ExReturned"
proof -
  obtain x where "run_events example_step [ExListened True, ExServeReturns False, ExSignal] example_begin = Some x"
      "ex_signal x" "ex_main x = ExWait"
    by (simp add: example_begin_def)
  then show ?thesis using signal_ends_main [of _ x] by blast
qed

end
