(* ===== verification/Spec2Isabelle.thy ===== *)
theory Spec2Isabelle
  imports SessionProps VaporProps WsProps OmapProps RestProps Server RestSpec Messages EchoWs EchoRest
    ExampleServer
begin

text \<open>
  A model of \<open>process_over_websocket\<close>, a Go server that runs processes for its clients: over a
  websocket connection, or over a REST interface where the process outlives the request that
  created it.

  \<^bold>\<open>The parts and their theories.\<close> A handler of the user gives processes; a process has a
  cancellable context, an input to read and an output to write. Each theory follows one Go file.

  \<^item> \<open>Prelude\<close>: Go errors as values, contexts that keep the first cause of their cancellation
    (locale \<open>cancellable\<close>), step functions over events, and the interfaces \<open>invariant_system\<close>
    and \<open>monotone_system\<close> through which each component shows its invariants; \<open>refined_system\<close>
    carries what is known of a system over to one that refines it by a projection.
  \<^item> \<open>Json\<close>, \<open>JsonDecode\<close>: the parts of \<open>encoding/json\<close> the program relies on (lexer,
    parser with an explicit stack, decoding into structs, string literals with their escapes).
  \<^item> \<open>Proto\<close> (\<open>proto/proto.go\<close>, \<open>proto/handler.go\<close>): messages, results and their JSON.
  \<^item> \<open>Clean\<close> (\<open>internal/clean/path.go\<close>): cleaning of paths.
  \<^item> \<open>Finbuf\<close> (\<open>internal/finbuf/buffer.go\<close>): the buffer of the last output lines.
  \<^item> \<open>Pipe\<close>: \<open>io.Pipe\<close> of the standard library, which carries the input.
  \<^item> \<open>Session\<close>, \<open>SessionInv\<close>, \<open>SessionProps\<close> (\<open>internal/rest_impl/session.go\<close>): one process of
    the REST server, as the goroutine \<open>run\<close> next to the requests that use the session.
  \<^item> \<open>Vapor\<close>, \<open>VaporInv\<close>, \<open>VaporProps\<close> (\<open>internal/vapor/vapor.go\<close>): the store of elements that
    expire, with its callbacks and the goroutines of \<open>EvictAfter\<close>.
  \<^item> \<open>Ws\<close>, \<open>WsInv\<close>, \<open>WsProps\<close> (\<open>internal/ws_impl/serve.go\<close>): the three goroutines of a websocket
    connection with their channels.
  \<^item> \<open>Omap\<close>, \<open>OmapProps\<close> (\<open>internal/omap\<close>): the ordered map over the token stream of
    \<open>json.Decoder\<close>.
  \<^item> \<open>JsonPrint\<close>: the parser reads every compact text back as the value it was printed from.
    \<open>RestSpec\<close> (\<open>getSpecWithServer\<close> with \<open>internal/omap\<close>) and \<open>Messages\<close> (the messages of
    \<open>proto\<close> through both servers) rest on it.
  \<^item> \<open>Rest\<close>, \<open>RestSystem\<close>, \<open>RestInv\<close>, \<open>RestStep\<close>, \<open>RestCalls\<close>, \<open>RestProps\<close>
    (\<open>internal/rest_impl/serve.go\<close>): set-up and routing, then the server at work. Its vapor has
    session systems as elements, and every step of a request, callback, worker or \<open>Close\<close> is one
    step of the vapor, of a session, or of both.
  \<^item> \<open>Server\<close> (\<open>server.go\<close>): both servers behind one handler.
  \<^item> \<open>Echo\<close>, \<open>EchoWs\<close>, \<open>EchoRest\<close> (\<open>cmd/exampleserver/main.go\<close>): the example process, \<open>io.Copy\<close> from
    its input to its output, inside a connection of \<open>Ws\<close> and inside a session of \<open>Session\<close>. Each of
    the two systems refines the one it runs in (interpretations of \<open>refined_system\<close>), so all that
    is proved of connections and sessions holds for the echo server, and the theorems say what its
    clients get.
  \<^item> \<open>ExampleServer\<close> (the same file): \<open>main\<close> with its goroutine that shuts down after a signal.

  \<^bold>\<open>How the code is represented.\<close> Structs are records with the code's fields. A method is a
  function from the state before to the state after and the result; errors are values. A part
  with goroutines is a record of the shared state and the place each goroutine is at, with a step
  function over events that answers \<open>None\<close> when the goroutine is not there or blocks; locks are
  what makes a step one step, or are visible in the state where they can delay others (the read
  lock of \<open>CloseWith\<close>, which delays \<open>Start\<close> and the store of the result). The theorems are about
  all states that lists of events lead to, so about every interleaving. Pointers to elements of the
  vapor are indices into a heap of entries that is never shortened.

  \<^bold>\<open>What the groups of lemmas show.\<close> The \<open>Inv\<close> theories show that each event keeps the invariant
  of its component, mostly through an inductive relation with one rule per kind of transition, and
  what no event takes back. The \<open>Props\<close> theories have the properties, numbered C1 and so on, each
  followed by a run of the model at which its hypotheses hold. For the REST server, \<open>RestInv\<close> and
  \<open>RestStep\<close> show that the vapor and every session stay in the invariants of their own theories
  and that all sessions referred to are started or about to be; \<open>RestCalls\<close> adds what grows and
  the calls that wait.

  \<^bold>\<open>Bounds and fuel.\<close> \<open>newEntry\<close> tries 1000 ids as the code does. \<open>readValue\<close> and the loop of
  \<open>UnmarshalJSON\<close> recurse with fuel that exceeds the number of tokens left; \<open>OmapProps\<close> shows
  that more fuel never changes the result and that the recursion of the code holds without it.
  Other recursion is structural or has a measure. Byte and line counts are unbounded numbers;
  durations are integers of nanoseconds.

  \<^bold>\<open>Hypotheses.\<close> Third-party code is an argument: the cache of the vapor (\<open>cache_laws\<close>, kept by
  an association list in \<open>VaporProps\<close>), the ring buffer and line splitter (\<open>ring_laws\<close>,
  \<open>line_laws\<close>, kept by lists in \<open>Finbuf\<close>), \<open>json.Marshal\<close> on the values of processes, and which
  requests the websocket package takes as connections. \<open>good_env\<close> says that the cache keeps its
  laws and the context of the REST server is live, as \<open>doInit\<close> leaves it.

  \<^bold>\<open>Not modelled.\<close> The websocket wire protocol and the \<open>Close\<close> and \<open>Shutdown\<close> of its package, the
  pages of the Swagger UI, percent escapes in request paths, response headers and logging; signals,
  \<open>net.Listen\<close> and \<open>http.Server\<close> are events of \<open>main\<close>. The TypeScript client is another program.
  The Go lines left are those two calls, package clauses, imports, the interfaces that
  users implement with the adapters that call a function of theirs, and comments.
\<close>

end
